(* ===== verification/Errno.thy ===== *)
theory Errno
  imports Main
begin

text \<open>
  The error numbers of \<^verbatim>\<open>kernel/include/ernno.h\<close>, as the enumeration of that header and the value
  the C compiler gives each of its constants.
\<close>

datatype (plugins only: code size) errno =
    EPERM | ENOENT | ESRCH | EINTR | EIO | ENXIO | E2BIG | ENOEXEC | EBADF | ECHILD | EAGAIN
  | ENOMEM | EACCES | EFAULT | ENOTBLK | EBUSY | EEXIST | EXDEV | ENODEV | ENOTDIR | EISDIR
  | EINVAL | ENFILE | EMFILE | ENOTTY | ETXTBSY | EFBIG | ENOSPC | ESPIPE | EROFS | EMLINK
  | EPIPE | EDOM | ERANGE | EDEADLK | ENAMETOOLONG | ENOLCK | ENOSYS | ENOTEMPTY | ELOOP
  | ENOTSOCK | EAFNOSUPPORT | EADDRINUSE | ENETUNREACH | ENOBUFS | ENOTSUP

text \<open>The numbering of the enumeration: consecutive from 1, restarted at the explicit initialisers.\<close>

definition errno_number :: "errno \<Rightarrow> int" where
  "errno_number e = (case e of
      EPERM \<Rightarrow> 1 | ENOENT \<Rightarrow> 2 | ESRCH \<Rightarrow> 3 | EINTR \<Rightarrow> 4 | EIO \<Rightarrow> 5 | ENXIO \<Rightarrow> 6 | E2BIG \<Rightarrow> 7
    | ENOEXEC \<Rightarrow> 8 | EBADF \<Rightarrow> 9 | ECHILD \<Rightarrow> 10 | EAGAIN \<Rightarrow> 11 | ENOMEM \<Rightarrow> 12 | EACCES \<Rightarrow> 13
    | EFAULT \<Rightarrow> 14 | ENOTBLK \<Rightarrow> 15 | EBUSY \<Rightarrow> 16 | EEXIST \<Rightarrow> 17 | EXDEV \<Rightarrow> 18 | ENODEV \<Rightarrow> 19
    | ENOTDIR \<Rightarrow> 20 | EISDIR \<Rightarrow> 21 | EINVAL \<Rightarrow> 22 | ENFILE \<Rightarrow> 23 | EMFILE \<Rightarrow> 24 | ENOTTY \<Rightarrow> 25
    | ETXTBSY \<Rightarrow> 26 | EFBIG \<Rightarrow> 27 | ENOSPC \<Rightarrow> 28 | ESPIPE \<Rightarrow> 29 | EROFS \<Rightarrow> 30 | EMLINK \<Rightarrow> 31
    | EPIPE \<Rightarrow> 32 | EDOM \<Rightarrow> 33 | ERANGE \<Rightarrow> 34 | EDEADLK \<Rightarrow> 35 | ENAMETOOLONG \<Rightarrow> 36
    | ENOLCK \<Rightarrow> 37 | ENOSYS \<Rightarrow> 38 | ENOTEMPTY \<Rightarrow> 39 | ELOOP \<Rightarrow> 40 | ENOTSOCK \<Rightarrow> 88
    | EAFNOSUPPORT \<Rightarrow> 97 | EADDRINUSE \<Rightarrow> 98 | ENETUNREACH \<Rightarrow> 101 | ENOBUFS \<Rightarrow> 105
    | ENOTSUP \<Rightarrow> 134)"

lemma errno_number_pos: "0 < errno_number e"
  by (cases e) (simp_all add: errno_number_def)

end
