(* ===== verification/Kernel_Prelude.thy ===== *)
theory Kernel_Prelude
  imports Errno "HOL-Library.Word" "HOL-Library.Monad_Syntax"
begin

text \<open>
  Shared vocabulary of the development: the fixed-width integer types of the kernel, the error
  numbers of \<^verbatim>\<open>ernno.h\<close>, the alignment helpers of \<^verbatim>\<open>types.h\<close> and the compiler builtin
  that the frame allocator uses, with the generic facts on words, lists and options that the
  component theories rely on.

  Conventions.  A function of the kernel that changes state is a HOL function that takes the state
  and returns the new one next to its C result.  A call that can end in \<^verbatim>\<open>panic\<close> (or that
  dereferences a null pointer) returns an option and \<^term>\<open>None\<close> is the panic.  A function that returns
  \<^verbatim>\<open>-Exxx\<close> returns a sum whose left side is the error number.
\<close>

unbundle bit_operations_syntax

section \<open>Types\<close>

type_synonym u8 = "8 word"
type_synonym u16 = "16 word"
type_synonym u32 = "32 word"
type_synonym u64 = "64 word"
type_synonym physaddr = u64
type_synonym virtaddr = u64

type_synonym 'a result = "errno + 'a"

named_theorems unat_simps \<open>moving word arithmetic to natural numbers\<close>
named_theorems panic_simps \<open>elimination of the option monad from kernel calls\<close>

section \<open>Alignment helpers and bit scans\<close>

definition align_up :: "u64 \<Rightarrow> u64 \<Rightarrow> u64" where
  "align_up value alignment = (value + alignment - 1) AND NOT (alignment - 1)"

definition align_down :: "u64 \<Rightarrow> u64 \<Rightarrow> u64" where
  "align_down value alignment = value AND NOT (alignment - 1)"

text \<open>\<^verbatim>\<open>__builtin_ctzll\<close>: the index of the lowest set bit (undefined in C on zero, where
  the scan below yields the width).\<close>

definition builtin_ctz :: "'a::len word \<Rightarrow> nat" where
  "builtin_ctz w = (case find (bit w) [0..<LENGTH('a)] of Some i \<Rightarrow> i | None \<Rightarrow> LENGTH('a))"

section \<open>Words\<close>

lemma and_not_mask_eq: "w AND NOT (mask n) = push_bit n (drop_bit n (w :: 'a::len word))"
  by (rule bit_word_eqI) (auto simp: bit_and_iff bit_not_iff bit_mask_iff bit_push_bit_iff bit_drop_bit_eq)

lemma unat_push_drop:
  "unat (push_bit n (drop_bit n (w :: 'a::len word))) = unat w div 2 ^ n * 2 ^ n"
proof -
  have "unat w div 2 ^ n * 2 ^ n < 2 ^ LENGTH('a)"
    using unsigned_less [of w] by (metis div_times_less_eq_dividend order_le_less_trans)
  then show ?thesis
    by (simp only: unsigned_push_bit_eq unat_drop_bit_eq take_bit_nat_eq_self push_bit_eq_mult [where 'a = nat]
        drop_bit_eq_div [where 'a = nat])
qed

lemma unat_and_not_mask [unat_simps]:
  "unat (w AND NOT (mask n) :: 'a::len word) = unat w div 2 ^ n * 2 ^ n"
  by (simp add: and_not_mask_eq unat_push_drop)

lemma unat_add_small [unat_simps]:
  "unat a + unat b < 2 ^ LENGTH('a) \<Longrightarrow> unat (a + b :: 'a::len word) = unat a + unat b"
  using unat_add_lem by blast

lemma unat_sub_small [unat_simps]:
  "b \<le> a \<Longrightarrow> unat (a - b :: 'a::len word) = unat a - unat b"
  by (rule unat_sub)

lemma unat_mask_small: "n \<le> LENGTH('a) \<Longrightarrow> unat (mask n :: 'a::len word) = 2 ^ n - 1"
  by (simp flip: nat_uint_eq add: uint_mask_eq mask_eq_exp_minus_1 [where 'a = int]
      nat_diff_distrib nat_power_eq min_def)

lemma unat_of_nat_small [unat_simps]: "n < 2 ^ LENGTH('a) \<Longrightarrow> unat (of_nat n :: 'a::len word) = n"
  by (simp add: unsigned_of_nat take_bit_nat_eq_self)

lemma of_nat_unat_word: "of_nat (unat w) = (w :: 'a::len word)"
  by simp

lemma unat_add_of_nat: "unat (w + of_nat j :: 'a::len word) = (unat w + j) mod 2 ^ LENGTH('a)"
  by (simp add: unat_word_ariths unsigned_of_nat take_bit_eq_mod mod_add_right_eq)

lemma unat_ucast_up [unat_simps]:
  assumes "LENGTH('a) \<le> LENGTH('b)"
  shows "unat (ucast (w :: 'a::len word) :: 'b::len word) = unat w"
proof -
  have "unat w < 2 ^ LENGTH('a)" by (rule unsigned_less)
  also have "\<dots> \<le> (2::nat) ^ LENGTH('b)" using assms by (simp add: power_increasing)
  finally show ?thesis by (simp add: unsigned_ucast_eq take_bit_nat_eq_self)
qed

lemma unat_ucast_down [unat_simps]:
  "unat w < 2 ^ LENGTH('b) \<Longrightarrow> unat (ucast (w :: 'a::len word) :: 'b::len word) = unat w"
  by (simp add: unsigned_ucast_eq take_bit_nat_eq_self)

lemma of_nat_unat_ucast: "of_nat (unat w) = (ucast (w :: 'a::len word) :: 'b::len word)"
  by simp

lemma pow2_minus_1_mask: "2 ^ n - 1 = (mask n :: 'a::len word)"
  by (simp add: mask_eq_exp_minus_1)

lemma align_down_pow2: "unat (align_down v (2 ^ n)) = unat v div 2 ^ n * 2 ^ n"
  unfolding align_down_def by (simp only: pow2_minus_1_mask unat_and_not_mask)

lemma align_up_pow2:
  assumes "n < 64" and "unat v + (2 ^ n - 1) < 2 ^ 64"
  shows "unat (align_up v (2 ^ n)) = (unat v + (2 ^ n - 1)) div 2 ^ n * 2 ^ n"
proof -
  have m: "unat (mask n :: u64) = 2 ^ n - 1"
    using assms(1) by (simp add: unat_mask_small)
  have "v + 2 ^ n - 1 = v + (mask n :: u64)"
    by (simp add: pow2_minus_1_mask [symmetric])
  moreover have "unat (v + (mask n :: u64)) = unat v + (2 ^ n - 1)"
    using assms(2) m by (simp add: unat_add_small)
  ultimately show ?thesis
    unfolding align_up_def by (simp only: pow2_minus_1_mask unat_and_not_mask)
qed

lemma bit_single_iff: "k < LENGTH('a) \<Longrightarrow> bit (2 ^ k :: 'a::len word) n \<longleftrightarrow> n = k"
  by (auto simp: bit_exp_iff possible_bit_word)

lemma builtin_ctz_bit:
  assumes "w \<noteq> 0"
  shows "bit w (builtin_ctz w)" and "builtin_ctz w < LENGTH('a)"
    and "i < builtin_ctz w \<Longrightarrow> \<not> bit (w :: 'a::len word) i"
proof -
  obtain k where k: "bit w k" using assms by (metis bit_word_eqI bit_0_eq bot_apply bot_bool_def)
  then have "k < LENGTH('a)" by (rule bit_imp_le_length)
  with k have "find (bit w) [0..<LENGTH('a)] \<noteq> None" by (auto simp: find_None_iff)
  then obtain j where j: "find (bit w) [0..<LENGTH('a)] = Some j" by auto
  then have "j < LENGTH('a) \<and> bit w j \<and> (\<forall>i<j. \<not> bit w i)"
    by (auto simp: find_Some_iff)
  with j show "bit w (builtin_ctz w)" "builtin_ctz w < LENGTH('a)"
    "i < builtin_ctz w \<Longrightarrow> \<not> bit w i"
    by (auto simp: builtin_ctz_def)
qed

lemma sint_nonneg: "0 \<le> sint w \<Longrightarrow> sint w = int (unat (w :: 'a::len word))"
proof -
  assume a: "0 \<le> sint w"
  have "sint w < 2 ^ (LENGTH('a) - 1)" using sint_less [of w] by simp
  also have "\<dots> \<le> 2 ^ LENGTH('a)" by simp
  finally have "take_bit LENGTH('a) (sint w) = sint w" using a by (simp add: take_bit_int_eq_self)
  moreover have "take_bit LENGTH('a) (sint w) = uint w" by transfer (simp add: take_bit_signed_take_bit)
  ultimately show ?thesis by simp
qed

lemma sint_small: "unat (w :: 'a::len word) < 2 ^ (LENGTH('a) - 1) \<Longrightarrow> sint w = int (unat w)"
proof -
  assume "unat w < 2 ^ (LENGTH('a) - 1)"
  then have "uint w < 2 ^ (LENGTH('a) - 1)" by (metis uint_nat of_nat_less_iff of_nat_numeral of_nat_power)
  then show ?thesis unfolding sint_uint by (simp add: signed_take_bit_int_eq_self order_trans [OF _ uint_ge_0])
qed

section \<open>Rounding to multiples\<close>

lemma round_up_ge:
  assumes "0 < (d::nat)"
  shows "n \<le> (n + (d - 1)) div d * d"
proof -
  have "(n + (d - 1)) div d * d + (n + (d - 1)) mod d = n + (d - 1)" by (rule div_mult_mod_eq)
  moreover have "(n + (d - 1)) mod d \<le> d - 1" using mod_less_divisor [OF assms, of "n + (d - 1)"] by linarith
  ultimately show ?thesis by linarith
qed

lemma round_up_le:
  assumes "0 < (d::nat)" "n \<le> e" "e mod d = 0"
  shows "(n + (d - 1)) div d * d \<le> e"
proof -
  have "e = e div d * d" using assms(3) by auto
  then have "n + (d - 1) < Suc (e div d) * d" using assms(1,2) by simp
  then have "(n + (d - 1)) div d < Suc (e div d)" by (rule less_mult_imp_div_less)
  then have "(n + (d - 1)) div d * d \<le> e div d * d" by (intro mult_le_mono1) simp
  also have "\<dots> \<le> e" by simp
  finally show ?thesis .
qed

lemma aligned_headroom:
  assumes "(e::nat) mod d = 0" "e < m" "m mod d = 0" "0 < d"
  shows "e + (d - 1) < m"
proof -
  obtain k l where kl: "e = d * k" "m = d * l"
    using assms(1,3) by (metis mod_0_imp_dvd dvdE)
  then have "Suc k \<le> l" using assms(2,4) by simp
  then have "d * Suc k \<le> d * l" by (rule mult_le_mono2)
  with kl show ?thesis using assms(4) by simp
qed

text \<open>Splitting an index into a word and a bit, or an address into a page and an offset.\<close>

lemma div_sub_mult:
  assumes "0 < (d::nat)"
  shows "(m - d * k) div d = m div d - k"
proof (cases "d * k \<le> m")
  case True
  then obtain r where "m = r + d * k" by (metis le_add_diff_inverse2)
  with assms show ?thesis by simp
next
  case False
  then have "m div d < k" using assms by (simp add: div_less_iff_less_mult mult.commute)
  with False show ?thesis by simp
qed

lemma split_index_iff:
  assumes "k < (d::nat)"
  shows "g = d * i + k \<longleftrightarrow> g div d = i \<and> g mod d = k"
proof
  assume "g = d * i + k"
  with assms show "g div d = i \<and> g mod d = k" by simp
next
  assume "g div d = i \<and> g mod d = k"
  then show "g = d * i + k" using mult_div_mod_eq [of d g] by simp
qed

lemma mod_add_neq: "\<lbrakk>(v::nat) < n; 0 < k; k < n\<rbrakk> \<Longrightarrow> (v + k) mod n \<noteq> v"
  by (auto simp: mod_if)

lemma div_mod_mult: "0 < b \<Longrightarrow> (a mod (b * c)) div b = a div b mod (c::nat)"
  by (simp add: mod_mult2_eq)

lemma same_index_iff: "(g::nat) = f \<longleftrightarrow> g div d = f div d \<and> g mod d = f mod d"
  by (metis div_mult_mod_eq)

lemma div_eq_range_iff:
  assumes "0 < (d::nat)"
  shows "g div d = i \<longleftrightarrow> g \<in> {d * i..<d * i + d}"
proof -
  have "g div d = i \<longleftrightarrow> i \<le> g div d \<and> g div d < Suc i" by auto
  also have "\<dots> \<longleftrightarrow> i * d \<le> g \<and> g < Suc i * d"
    using assms by (simp only: less_eq_div_iff_mult_less_eq div_less_iff_less_mult)
  finally show ?thesis by (simp add: algebra_simps)
qed

section \<open>Lists and options\<close>

lemma bind_Some_iff [panic_simps]: "(m \<bind> f = Some y) \<longleftrightarrow> (\<exists>x. m = Some x \<and> f x = Some y)"
  by (cases m) auto

lemma find_None_all: "find P xs = None \<longleftrightarrow> (\<forall>x\<in>set xs. \<not> P x)"
  by (auto simp: find_None_iff)

lemma find_distinct:
  assumes "distinct (map f xs)" "x \<in> set xs" shows "find (\<lambda>y. f y = f x) xs = Some x"
  using assms by (induction xs) (auto simp: rev_image_eqI)

lemma find_append: "find P (xs @ ys) = (case find P xs of None \<Rightarrow> find P ys | Some x \<Rightarrow> Some x)"
  by (induction xs) auto

end
