(* ===== verification/Intrusive_List.thy ===== *)
theory Intrusive_List
  imports Kernel_Prelude
begin

text \<open>
  The circular doubly linked lists of \<^verbatim>\<open>kernel/include/libk/list.h\<close>.  Every list of the kernel
  (run queues, wait queues, sleep queues, page lists) is threaded through
  \<^verbatim>\<open>list_node_t\<close> members of its elements, so the model is a heap of links: one
  \<^verbatim>\<open>prev\<close> and one \<^verbatim>\<open>next\<close> field per node address.  The operations below are the
  assignments of the C code in their order, and the lemmas relate them to operations on the
  sequence of nodes; the other theories then use sequences.
\<close>

section \<open>The operations of list.h\<close>

record 'a links =
  prev :: "'a \<Rightarrow> 'a"
  next_node :: "'a \<Rightarrow> 'a"

definition set_prev :: "'a \<Rightarrow> 'a \<Rightarrow> 'a links \<Rightarrow> 'a links" where
  "set_prev n v h = h\<lparr>prev := (prev h)(n := v)\<rparr>"

definition set_next :: "'a \<Rightarrow> 'a \<Rightarrow> 'a links \<Rightarrow> 'a links" where
  "set_next n v h = h\<lparr>next_node := (next_node h)(n := v)\<rparr>"

definition list_node_init :: "'a \<Rightarrow> 'a links \<Rightarrow> 'a links" where
  "list_node_init node h = set_next node node (set_prev node node h)"

definition list_add_between :: "'a \<Rightarrow> 'a \<Rightarrow> 'a \<Rightarrow> 'a links \<Rightarrow> 'a links" where
  "list_add_between node p n h =
     set_next p node (set_prev node p (set_next node n (set_prev n node h)))"

definition list_add :: "'a \<Rightarrow> 'a \<Rightarrow> 'a links \<Rightarrow> 'a links" where
  "list_add head node h = list_add_between node head (next_node h head) h"

definition list_add_tail :: "'a \<Rightarrow> 'a \<Rightarrow> 'a links \<Rightarrow> 'a links" where
  "list_add_tail head node h = list_add_between node (prev h head) head h"

definition list_unlink :: "'a \<Rightarrow> 'a \<Rightarrow> 'a links \<Rightarrow> 'a links" where
  "list_unlink p n h = set_next p n (set_prev n p h)"

definition list_del_entry :: "'a \<Rightarrow> 'a links \<Rightarrow> 'a links" where
  "list_del_entry entry h = list_unlink (prev h entry) (next_node h entry) h"

definition list_del :: "'a \<Rightarrow> 'a links \<Rightarrow> 'a links" where
  "list_del entry h = list_node_init entry (list_del_entry entry h)"

definition list_move :: "'a \<Rightarrow> 'a \<Rightarrow> 'a links \<Rightarrow> 'a links" where
  "list_move head entry h = list_add head entry (list_del_entry entry h)"

definition list_empty :: "'a \<Rightarrow> 'a links \<Rightarrow> bool" where
  "list_empty head h \<longleftrightarrow> head = next_node h head"

definition list_first :: "'a \<Rightarrow> 'a links \<Rightarrow> 'a" where
  "list_first head h = next_node h head"

definition list_take_first :: "'a \<Rightarrow> 'a links \<Rightarrow> 'a \<times> 'a links" where
  "list_take_first head h = (let node = list_first head h in (node, list_del node h))"

text \<open>\<^verbatim>\<open>list_for_each_entry\<close>: the nodes the loop visits, in order; the fuel bounds the
  number of iterations and \<^term>\<open>None\<close> is a walk that did not come back to the head.\<close>

fun walk_from :: "nat \<Rightarrow> 'a \<Rightarrow> 'a \<Rightarrow> 'a links \<Rightarrow> 'a list option" where
  "walk_from fuel head pos h =
     (if pos = head then Some []
      else case fuel of 0 \<Rightarrow> None
        | Suc k \<Rightarrow> map_option (Cons pos) (walk_from k head (next_node h pos) h))"

declare walk_from.simps [simp del]

definition list_for_each_entry :: "nat \<Rightarrow> 'a \<Rightarrow> 'a links \<Rightarrow> 'a list option" where
  "list_for_each_entry fuel head h = walk_from fuel head (next_node h head) h"

section \<open>Chains of nodes\<close>

fun chain :: "'a links \<Rightarrow> 'a \<Rightarrow> 'a list \<Rightarrow> 'a \<Rightarrow> bool" where
  "chain h p [] q \<longleftrightarrow> next_node h p = q \<and> prev h q = p"
| "chain h p (x # xs) q \<longleftrightarrow> next_node h p = x \<and> prev h x = p \<and> chain h x xs q"

definition dlist :: "'a links \<Rightarrow> 'a \<Rightarrow> 'a list \<Rightarrow> bool" where
  "dlist h head xs \<longleftrightarrow> chain h head xs head \<and> distinct (head # xs)"

lemmas link_defs = set_prev_def set_next_def list_node_init_def list_add_between_def
  list_unlink_def list_del_entry_def list_del_def list_add_def list_add_tail_def
  list_move_def list_first_def list_take_first_def list_empty_def

lemma chain_append: "chain h p (xs @ y # ys) q \<longleftrightarrow> chain h p xs y \<and> chain h y ys q"
  by (induction xs arbitrary: p) auto

lemma chain_cong:
  assumes "\<forall>x\<in>insert p (set xs). next_node h' x = next_node h x"
    and "\<forall>x\<in>insert q (set xs). prev h' x = prev h x"
  shows "chain h' p xs q = chain h p xs q"
  using assms by (induction xs arbitrary: p) auto

lemma chain_next: "chain h p xs q \<Longrightarrow> next_node h p = hd (xs @ [q])"
  by (cases xs) auto

lemma chain_prev: "chain h p xs q \<Longrightarrow> prev h q = last (p # xs)"
  by (induction xs arbitrary: p) auto

lemma chain_insert:
  assumes "chain h p (xs @ ys) q" "node \<notin> set (p # q # xs @ ys)" "distinct (p # xs @ ys)"
    and "q \<notin> set (xs @ ys)"
  shows "chain (list_add_between node (last (p # xs)) (hd (ys @ [q])) h) p (xs @ node # ys) q"
  using assms
proof (induction xs arbitrary: p)
  case Nil
  then show ?case
  proof (cases ys)
    case (Cons y zs)
    have "chain (list_add_between node p y h) y zs q = chain h y zs q"
      using Nil Cons by (intro chain_cong) (auto simp: link_defs)
    with Nil Cons show ?thesis by (auto simp: link_defs)
  qed (auto simp: link_defs)
next
  case (Cons x xs)
  have "last (x # xs) \<noteq> p" using Cons.prems(3) last_in_set [of "x # xs"] by auto
  moreover have "hd (ys @ [q]) \<noteq> x" using Cons.prems by (cases ys) auto
  moreover have "chain (list_add_between node (last (x # xs)) (hd (ys @ [q])) h) x (xs @ node # ys) q"
    using Cons.prems by (intro Cons.IH) auto
  ultimately show ?case using Cons.prems by (auto simp: link_defs)
qed

lemma chain_unlink:
  assumes "chain h p (xs @ e # ys) q" "distinct (p # xs @ e # ys)" "q \<notin> set (xs @ e # ys)"
  shows "chain (list_unlink (last (p # xs)) (hd (ys @ [q])) h) p (xs @ ys) q"
  using assms
proof (induction xs arbitrary: p)
  case Nil
  then show ?case
  proof (cases ys)
    case (Cons y zs)
    have "chain (list_unlink p y h) y zs q = chain h y zs q"
      using Nil Cons by (intro chain_cong) (auto simp: link_defs)
    with Nil Cons show ?thesis by (auto simp: link_defs)
  qed (auto simp: link_defs)
next
  case (Cons x xs)
  have "last (x # xs) \<noteq> p" using Cons.prems(2) last_in_set [of "x # xs"] by auto
  moreover have "hd (ys @ [q]) \<noteq> x" using Cons.prems by (cases ys) auto
  moreover have "chain (list_unlink (last (x # xs)) (hd (ys @ [q])) h) x (xs @ ys) q"
    using Cons.prems by (intro Cons.IH) auto
  ultimately show ?case using Cons.prems by (auto simp: link_defs)
qed

section \<open>The operations on sequences\<close>

lemma dlist_insert:
  assumes "dlist h head (xs @ ys)" "node \<notin> set (head # xs @ ys)"
  shows "dlist (list_add_between node (last (head # xs)) (hd (ys @ [head])) h) head (xs @ node # ys)"
  using assms chain_insert [of h head xs ys head node] by (auto simp: dlist_def)

lemma dlist_next: "dlist h head xs \<Longrightarrow> next_node h head = hd (xs @ [head])"
  by (auto simp: dlist_def chain_next)

lemma dlist_prev: "dlist h head xs \<Longrightarrow> prev h head = last (head # xs)"
  unfolding dlist_def using chain_prev by fast

lemma dlist_node_init: "dlist (list_node_init n h) n []"
  by (simp add: dlist_def link_defs)

lemma dlist_add:
  "\<lbrakk>dlist h head xs; node \<notin> set (head # xs)\<rbrakk> \<Longrightarrow> dlist (list_add head node h) head (node # xs)"
  using dlist_insert [of h head "[]" xs node] by (simp add: list_add_def dlist_next)

lemma dlist_add_tail:
  "\<lbrakk>dlist h head xs; node \<notin> set (head # xs)\<rbrakk> \<Longrightarrow> dlist (list_add_tail head node h) head (xs @ [node])"
  using dlist_insert [of h head xs "[]" node] by (simp add: list_add_tail_def dlist_prev)

lemma dlist_neighbours:
  assumes "dlist h head (xs @ e # ys)"
  shows "prev h e = last (head # xs)" "next_node h e = hd (ys @ [head])"
proof -
  have "chain h head xs e" "chain h e ys head"
    using assms by (auto simp: dlist_def chain_append)
  then show "prev h e = last (head # xs)" "next_node h e = hd (ys @ [head])"
    by (auto dest: chain_prev chain_next)
qed

lemma dlist_del_entry:
  assumes "dlist h head (xs @ e # ys)"
  shows "dlist (list_del_entry e h) head (xs @ ys)"
proof -
  have "chain (list_unlink (last (head # xs)) (hd (ys @ [head])) h) head (xs @ ys) head"
    using assms by (intro chain_unlink [of h head xs e ys head]) (auto simp: dlist_def)
  then show ?thesis
    unfolding list_del_entry_def dlist_neighbours [OF assms] using assms by (simp add: dlist_def)
qed

text \<open>A write to the links of nodes outside a list leaves the list alone.\<close>

lemma dlist_frame:
  assumes "dlist h head xs"
    and "\<forall>x\<in>set (head # xs). next_node h' x = next_node h x \<and> prev h' x = prev h x"
  shows "dlist h' head xs"
  using assms chain_cong [of head xs h' h head] by (auto simp: dlist_def)

lemma dlist_init_other:
  "\<lbrakk>dlist h head xs; n \<notin> set (head # xs)\<rbrakk> \<Longrightarrow> dlist (list_node_init n h) head xs"
  by (rule dlist_frame) (auto simp: link_defs)

lemma dlist_del:
  assumes "dlist h head (xs @ e # ys)"
  shows "dlist (list_del e h) head (xs @ ys)" "dlist (list_del e h) e []"
proof -
  have "e \<notin> set (head # xs @ ys)" using assms by (auto simp: dlist_def)
  with dlist_del_entry [OF assms] show "dlist (list_del e h) head (xs @ ys)"
    by (simp add: list_del_def dlist_init_other)
  show "dlist (list_del e h) e []" by (simp add: list_del_def dlist_node_init)
qed

lemma unlink_frame:
  "\<lbrakk>p \<notin> S; n \<notin> S\<rbrakk> \<Longrightarrow>
    \<forall>x\<in>S. next_node (list_unlink p n h) x = next_node h x \<and> prev (list_unlink p n h) x = prev h x"
  by (auto simp: list_unlink_def set_prev_def set_next_def)

lemma last_in_segment: "last (p # xs) \<in> set (p # xs @ ys)"
  by (cases "xs = []") auto

lemma hd_in_segment: "hd (ys @ [p]) \<in> set (p # xs @ e # ys)"
  by (cases ys) auto

text \<open>The links of an element's neighbours are inside the list the element is in.\<close>

lemma dlist_del_entry_other:
  assumes "dlist h head (xs @ e # ys)" "dlist h head' zs"
    and "set (head # xs @ e # ys) \<inter> set (head' # zs) = {}"
  shows "dlist (list_del_entry e h) head' zs"
proof (rule dlist_frame [OF assms(2)])
  have "prev h e \<in> set (head # xs @ e # ys)" "next_node h e \<in> set (head # xs @ e # ys)"
    unfolding dlist_neighbours [OF assms(1)] by (rule last_in_segment, rule hd_in_segment)
  then have "prev h e \<notin> set (head' # zs)" "next_node h e \<notin> set (head' # zs)"
    using assms(3) by blast+
  then show "\<forall>x\<in>set (head' # zs). next_node (list_del_entry e h) x = next_node h x \<and>
      prev (list_del_entry e h) x = prev h x"
    unfolding list_del_entry_def by (rule unlink_frame)
qed

lemma list_move_other:
  assumes "dlist h head (xs @ e # ys)" "dlist h head' zs"
    and "set (head # xs @ e # ys) \<inter> set (head' # zs) = {}"
  shows "dlist (list_move head' e h) head' (e # zs)" "dlist (list_move head' e h) head (xs @ ys)"
proof -
  let ?h = "list_del_entry e h"
  have d: "dlist ?h head' zs" using dlist_del_entry_other [OF assms] .
  have "e \<notin> set (head' # zs)" using assms(3) by auto
  with d show "dlist (list_move head' e h) head' (e # zs)"
    by (simp add: list_move_def dlist_add)
  have "next_node ?h head' \<in> set (head' # zs)" using dlist_next [OF d] by (cases zs) auto
  moreover have "e \<notin> set (head # xs @ ys)" using assms(1) by (auto simp: dlist_def)
  ultimately show "dlist (list_move head' e h) head (xs @ ys)"
    unfolding list_move_def list_add_def
    using assms(3) by (intro dlist_frame [OF dlist_del_entry [OF assms(1)]]) (auto simp: list_add_between_def set_prev_def set_next_def)
qed

lemma list_empty_iff: "dlist h head xs \<Longrightarrow> list_empty head h \<longleftrightarrow> xs = []"
  using dlist_next [of h head xs] by (cases xs) (auto simp: list_empty_def dlist_def)

lemma walk_from_head [simp]: "walk_from fuel head head h = Some []"
  by (simp add: walk_from.simps)

lemma walk_from_step [simp]:
  "head \<noteq> pos \<Longrightarrow> walk_from (Suc k) head pos h = map_option (Cons pos) (walk_from k head (next_node h pos) h)"
  by (subst walk_from.simps) simp

lemma walk_chain:
  "\<lbrakk>chain h p xs head; head \<notin> set xs; length xs \<le> fuel\<rbrakk>
    \<Longrightarrow> walk_from fuel head (next_node h p) h = Some xs"
proof (induction xs arbitrary: p fuel)
  case (Cons x xs)
  then obtain k where k: "fuel = Suc k" by (cases fuel) auto
  with Cons.prems have "walk_from k head (next_node h x) h = Some xs" by (intro Cons.IH) simp_all
  with k Cons.prems show ?case by simp
qed simp

lemma list_for_each_dlist:
  "\<lbrakk>dlist h head xs; length xs \<le> fuel\<rbrakk> \<Longrightarrow> list_for_each_entry fuel head h = Some xs"
  unfolding list_for_each_entry_def dlist_def by (auto intro: walk_chain)

lemma list_take_first_dlist:
  assumes "dlist h head (x # xs)"
  shows "fst (list_take_first head h) = x" "dlist (snd (list_take_first head h)) head xs"
proof -
  have "list_first head h = x" using assms by (simp add: list_first_def dlist_def)
  then show "fst (list_take_first head h) = x" "dlist (snd (list_take_first head h)) head xs"
    using dlist_del(1) [of h head "[]" x xs] assms by (simp_all add: list_take_first_def)
qed

section \<open>Queues of nodes\<close>

text \<open>The contract the wait queues and run queues rely on: nodes leave a list in the order in
  which \<^verbatim>\<open>list_add_tail\<close> put them there.  The loop that empties a queue runs
  \<^verbatim>\<open>list_take_first\<close> until \<^verbatim>\<open>list_empty\<close> holds.\<close>

fun drain :: "('h \<Rightarrow> bool) \<Rightarrow> ('h \<Rightarrow> 'a \<times> 'h) \<Rightarrow> nat \<Rightarrow> 'h \<Rightarrow> 'a list \<times> 'h" where
  "drain emp deq 0 h = ([], h)"
| "drain emp deq (Suc k) h =
     (if emp h then ([], h)
      else let (x, h') = deq h; (xs, h'') = drain emp deq k h' in (x # xs, h''))"

locale node_queue =
  fixes rep :: "'h \<Rightarrow> 'a list \<Rightarrow> bool"
    and valid :: "'a \<Rightarrow> bool"
    and emp :: "'h \<Rightarrow> bool"
    and enq :: "'a \<Rightarrow> 'h \<Rightarrow> 'h"
    and deq :: "'h \<Rightarrow> 'a \<times> 'h"
  assumes emp_law: "rep h xs \<Longrightarrow> emp h \<longleftrightarrow> xs = []"
    and enq_law: "\<lbrakk>rep h xs; valid x; x \<notin> set xs\<rbrakk> \<Longrightarrow> rep (enq x h) (xs @ [x])"
    and deq_law: "rep h (x # xs) \<Longrightarrow> fst (deq h) = x \<and> rep (snd (deq h)) xs"
begin

lemma enq_all:
  "\<lbrakk>rep h xs; distinct (xs @ ys); \<forall>y\<in>set ys. valid y\<rbrakk> \<Longrightarrow> rep (fold enq ys h) (xs @ ys)"
proof (induction ys arbitrary: h xs)
  case (Cons y ys)
  have "rep (enq y h) (xs @ [y])" using Cons.prems by (intro enq_law) auto
  then have "rep (fold enq ys (enq y h)) ((xs @ [y]) @ ys)" using Cons.prems by (intro Cons.IH) auto
  then show ?case by simp
qed simp

lemma drain_all:
  "\<lbrakk>rep h xs; length xs \<le> k\<rbrakk> \<Longrightarrow> fst (drain emp deq k h) = xs \<and> rep (snd (drain emp deq k h)) []"
proof (induction xs arbitrary: h k)
  case Nil
  then show ?case using emp_law by (cases k) auto
next
  case (Cons x xs)
  obtain j where k: "k = Suc j" using Cons.prems(2) by (cases k) auto
  obtain y h' where d: "deq h = (y, h')" by (cases "deq h")
  have "y = x" "rep h' xs" using deq_law [OF Cons.prems(1)] d by auto
  moreover have "\<not> emp h" using emp_law [OF Cons.prems(1)] by simp
  ultimately show ?case using Cons.IH [of h' j] Cons.prems(2) k d by (auto split: prod.split)
qed

lemma fifo:
  assumes "rep h []" "distinct ys" "\<forall>y\<in>set ys. valid y" "length ys \<le> k"
  shows "fst (drain emp deq k (fold enq ys h)) = ys"
  using drain_all [OF enq_all [of h "[]" ys]] assms by simp

end

interpretation list_queue:
  node_queue "\<lambda>h. dlist h head" "\<lambda>x. x \<noteq> head" "list_empty head" "list_add_tail head" "list_take_first head"
  for head :: 'a
  by unfold_locales (simp_all add: list_empty_iff dlist_add_tail list_take_first_dlist)

end
