(* ===== verification/Memory_Map.thy ===== *)
theory Memory_Map
  imports Kernel_Prelude
begin

text \<open>
  The boot memory map: the translation of the boot loader's table into the kernel's regions
  (\<^verbatim>\<open>parse_memory_map\<close> in \<^verbatim>\<open>arch/x86_64/memmap.c\<close>) and the early allocator that carves a
  block out of a usable region (\<^verbatim>\<open>memmap_reserve\<close> in \<^verbatim>\<open>mm/memory_map.c\<close>).  The region array with
  its element count is a list whose length is the count.
\<close>

section \<open>Regions\<close>

definition CONFIG_PAGE_SIZE :: u64 where "CONFIG_PAGE_SIZE = 0x1000"
definition VM_DMAP_BASE :: u64 where "VM_DMAP_BASE = 0xffff800000000000"
definition max_memmap_regions :: nat where "max_memmap_regions = 64"

datatype mem_region_type =
    MEM_REGION_USABLE | MEM_REGION_ACPI_TABLES | MEM_REGION_ACPI_NVS | MEM_REGION_RESERVED
  | MEM_REGION_ALLOCATED

record mem_region =
  region_begin :: physaddr
  region_end :: physaddr
  region_type :: mem_region_type

record memory_map =
  regions :: "mem_region list"
  memory_top :: physaddr

record limine_memmap_entry =
  entry_base :: u64
  entry_length :: u64
  entry_type :: u64

section \<open>parse\_memory\_map\<close>

definition LIMINE_MEMMAP_USABLE :: u64 where "LIMINE_MEMMAP_USABLE = 0"
definition LIMINE_MEMMAP_ACPI_RECLAIMABLE :: u64 where "LIMINE_MEMMAP_ACPI_RECLAIMABLE = 2"
definition LIMINE_MEMMAP_ACPI_NVS :: u64 where "LIMINE_MEMMAP_ACPI_NVS = 3"
definition LIMINE_MEMMAP_BOOTLOADER_RECLAIMABLE :: u64 where "LIMINE_MEMMAP_BOOTLOADER_RECLAIMABLE = 5"
definition LIMINE_MEMMAP_FRAMEBUFFER :: u64 where "LIMINE_MEMMAP_FRAMEBUFFER = 7"

lemmas limine_types = LIMINE_MEMMAP_USABLE_def LIMINE_MEMMAP_ACPI_RECLAIMABLE_def
  LIMINE_MEMMAP_ACPI_NVS_def LIMINE_MEMMAP_BOOTLOADER_RECLAIMABLE_def LIMINE_MEMMAP_FRAMEBUFFER_def

definition region_type_of :: "u64 \<Rightarrow> mem_region_type" where
  "region_type_of t =
     (if t = LIMINE_MEMMAP_USABLE then MEM_REGION_USABLE
      else if t = LIMINE_MEMMAP_ACPI_RECLAIMABLE then MEM_REGION_ACPI_TABLES
      else if t = LIMINE_MEMMAP_ACPI_NVS then MEM_REGION_ACPI_NVS
      else if t = LIMINE_MEMMAP_BOOTLOADER_RECLAIMABLE \<or> t = LIMINE_MEMMAP_FRAMEBUFFER
        then MEM_REGION_ALLOCATED
      else MEM_REGION_RESERVED)"

definition parse_entry :: "memory_map \<Rightarrow> limine_memmap_entry \<Rightarrow> memory_map" where
  "parse_entry out entry =
     (let b = entry_base entry;
          e = entry_base entry + entry_length entry;
          b' = (if b = 0 then 0x2000 else b);
          t = region_type_of (entry_type entry);
          top = (if t = MEM_REGION_USABLE \<and> memory_top out < e then e else memory_top out)
      in out\<lparr>regions := regions out @ [\<lparr>region_begin = b', region_end = e, region_type = t\<rparr>],
             memory_top := top\<rparr>)"

fun parse_memory_map :: "memory_map \<Rightarrow> limine_memmap_entry list \<Rightarrow> memory_map" where
  "parse_memory_map out [] = out"
| "parse_memory_map out (entry # entries) =
     (let out' = parse_entry out entry
      in if max_memmap_regions \<le> length (regions out') then out' else parse_memory_map out' entries)"

section \<open>memmap\_reserve\<close>

definition region_fits :: "u64 \<Rightarrow> mem_region \<Rightarrow> bool" where
  "region_fits len r \<longleftrightarrow>
     region_type r = MEM_REGION_USABLE \<and> region_begin r < region_end r \<and>
     len \<le> region_end r - region_begin r"

text \<open>The scan stops at the first region that fits, whether or not it can be split; the null
  pointer is 0.\<close>

definition memmap_reserve :: "memory_map \<Rightarrow> u64 \<Rightarrow> virtaddr \<times> memory_map" where
  "memmap_reserve memmap len =
     (case find (\<lambda>i. region_fits len (regions memmap ! i)) [0..<length (regions memmap)] of
        None \<Rightarrow> (0, memmap)
      | Some i \<Rightarrow>
          if length (regions memmap) = max_memmap_regions then (0, memmap)
          else
            let r = regions memmap ! i;
                mid = align_up (region_begin r + len) CONFIG_PAGE_SIZE;
                new = \<lparr>region_begin = region_begin r, region_end = mid, region_type = MEM_REGION_ALLOCATED\<rparr>
            in (region_begin r + VM_DMAP_BASE,
                memmap\<lparr>regions := (regions memmap)[i := r\<lparr>region_begin := mid\<rparr>] @ [new]\<rparr>))"

section \<open>The memory a map describes\<close>

definition span :: "mem_region \<Rightarrow> nat set" where
  "span r = {unat (region_begin r)..<unat (region_end r)}"

definition usable :: "mem_region list \<Rightarrow> nat set" where
  "usable rs = (\<Union>r\<in>{r\<in>set rs. region_type r = MEM_REGION_USABLE}. span r)"

definition page_aligned :: "u64 \<Rightarrow> bool" where
  "page_aligned a \<longleftrightarrow> unat a mod 4096 = 0"

text \<open>What the boot protocol promises of the table: usable entries are page aligned and not
  inverted, and no two entries overlap.\<close>

definition regions_disjoint :: "mem_region list \<Rightarrow> bool" where
  "regions_disjoint rs \<longleftrightarrow>
     (\<forall>i<length rs. \<forall>j<length rs. i \<noteq> j \<longrightarrow> region_type (rs ! i) = MEM_REGION_USABLE
        \<longrightarrow> region_type (rs ! j) \<in> {MEM_REGION_USABLE, MEM_REGION_ALLOCATED}
        \<longrightarrow> span (rs ! i) \<inter> span (rs ! j) = {})"

definition region_ok :: "mem_region \<Rightarrow> bool" where
  "region_ok r \<longleftrightarrow> (region_type r = MEM_REGION_USABLE \<longrightarrow>
     page_aligned (region_begin r) \<and> page_aligned (region_end r) \<and> region_begin r \<le> region_end r)"

definition tops_ok :: "memory_map \<Rightarrow> bool" where
  "tops_ok m \<longleftrightarrow>
     (\<forall>r\<in>set (regions m). region_type r = MEM_REGION_USABLE \<longrightarrow> region_end r \<le> memory_top m)"

definition map_ok :: "memory_map \<Rightarrow> bool" where
  "map_ok m \<longleftrightarrow> length (regions m) \<le> max_memmap_regions \<and> list_all region_ok (regions m)
     \<and> regions_disjoint (regions m)
     \<and> tops_ok m"

lemma parse_entry_tops_ok: "tops_ok out \<Longrightarrow> tops_ok (parse_entry out e)"
  unfolding tops_ok_def parse_entry_def Let_def by (auto dest: order_trans [OF _ less_imp_le])

lemma parse_tops_ok: "tops_ok out \<Longrightarrow> tops_ok (parse_memory_map out entries)"
  by (induction out entries rule: parse_memory_map.induct) (auto simp: Let_def parse_entry_tops_ok)

lemma parse_entry_length [simp]: "length (regions (parse_entry out e)) = Suc (length (regions out))"
  by (simp add: parse_entry_def Let_def)

lemma parse_length:
  "length (regions out) < max_memmap_regions \<Longrightarrow>
   length (regions (parse_memory_map out es)) = min max_memmap_regions (length (regions out) + length es)"
  by (induction out es rule: parse_memory_map.induct) (auto simp: Let_def min_def)

lemma page_aligned_add:
  assumes "page_aligned a" "page_aligned b"
  shows "page_aligned (a + b)"
proof -
  have "unat (a + b) mod 4096 = (unat a + unat b) mod 4096"
    by (simp add: unat_word_ariths mod_mod_cancel)
  also have "\<dots> = 0" using assms unfolding page_aligned_def by (metis add_0 mod_0 mod_add_eq)
  finally show ?thesis unfolding page_aligned_def .
qed

section \<open>What memmap\_reserve carves out\<close>

lemma align_up_page:
  assumes "unat v + 4095 < 2 ^ 64"
  shows "unat (align_up v CONFIG_PAGE_SIZE) = (unat v + 4095) div 4096 * 4096"
proof -
  have "CONFIG_PAGE_SIZE = 2 ^ 12" by (simp add: CONFIG_PAGE_SIZE_def)
  then show ?thesis using align_up_pow2 [of 12 v] assms by simp
qed

text \<open>The mid of a fitting, aligned region lies between the end of the block and the end of the
  region.\<close>

lemma cut_bounds:
  assumes "region_ok r" "region_fits len r"
  defines "mid \<equiv> align_up (region_begin r + len) CONFIG_PAGE_SIZE"
  shows "unat (region_begin r) + unat len \<le> unat mid" "mid \<le> region_end r" "page_aligned mid"
proof -
  let ?b = "unat (region_begin r)" and ?e = "unat (region_end r)"
  have "unat len \<le> unat (region_end r - region_begin r)"
    using assms(2) by (simp add: region_fits_def word_le_nat_alt)
  also have "\<dots> = ?e - ?b" using assms(2) by (intro unat_sub_small) (auto simp: region_fits_def)
  finally have s: "?b + unat len \<le> ?e"
    using assms(2) by (auto simp: region_fits_def word_less_nat_alt)
  have al: "?e mod 4096 = 0" using assms(1,2) by (simp add: region_ok_def region_fits_def page_aligned_def)
  have lt: "?e < 2 ^ 64" using unsigned_less [of "region_end r"] by simp
  have e: "?e + 4095 < 2 ^ 64" using aligned_headroom [OF al lt] by simp
  have sum: "unat (region_begin r + len) = ?b + unat len" using s lt by (intro unat_add_small) simp
  have c: "unat mid = (?b + unat len + 4095) div 4096 * 4096"
    using align_up_page [of "region_begin r + len"] sum s e by (simp add: mid_def)
  show "?b + unat len \<le> unat mid" unfolding c using round_up_ge [of 4096] by simp
  show "mid \<le> region_end r"
    unfolding word_le_nat_alt c using round_up_le [OF _ s al] by simp
  show "page_aligned mid" unfolding page_aligned_def c by simp
qed

lemma regions_disjointD:
  "\<lbrakk>regions_disjoint rs; i < length rs; j < length rs; i \<noteq> j; region_type (rs ! i) = MEM_REGION_USABLE;
    region_type (rs ! j) \<in> {MEM_REGION_USABLE, MEM_REGION_ALLOCATED}\<rbrakk> \<Longrightarrow> span (rs ! i) \<inter> span (rs ! j) = {}"
  unfolding regions_disjoint_def by blast

text \<open>Cutting a region at a page boundary, on the level of the region array: the shortened
  region stays in place and the new one is appended.\<close>

lemma cut_disjoint:
  assumes "regions_disjoint rs" "i < length rs" "region_type (rs ! i) = MEM_REGION_USABLE"
    and "region_begin (rs ! i) \<le> mid" "mid \<le> region_end (rs ! i)"
  shows "regions_disjoint (rs[i := (rs ! i)\<lparr>region_begin := mid\<rparr>] @
      [\<lparr>region_begin = region_begin (rs ! i), region_end = mid, region_type = MEM_REGION_ALLOCATED\<rparr>])"
    (is "regions_disjoint ?rs'")
  unfolding regions_disjoint_def
proof (intro allI impI)
  fix j k
  assume jk: "j < length ?rs'" "k < length ?rs'" "j \<noteq> k" "region_type (?rs' ! j) = MEM_REGION_USABLE"
    "region_type (?rs' ! k) \<in> {MEM_REGION_USABLE, MEM_REGION_ALLOCATED}"
  define src where "src = (\<lambda>j. if j = length rs then i else j)"
  have sub: "span (?rs' ! j) \<subseteq> span (rs ! src j)" if "j < length ?rs'" for j
    using that assms by (auto simp: span_def src_def nth_append nth_list_update word_le_nat_alt)
  have ty: "region_type (rs ! src j) = region_type (?rs' ! j) \<or> region_type (rs ! src j) = MEM_REGION_USABLE"
    if "j < length ?rs'" for j
    using that assms by (auto simp: src_def nth_append nth_list_update)
  have "j \<noteq> length rs" using jk(4) by (auto simp: nth_append)
  show "span (?rs' ! j) \<inter> span (?rs' ! k) = {}"
  proof (cases "src j = src k")
    case True
    then have "j = i" "k = length rs" using jk \<open>j \<noteq> length rs\<close> by (auto simp: src_def split: if_splits)
    then show ?thesis using assms by (auto simp: span_def nth_append)
  next
    case False
    have "span (rs ! src j) \<inter> span (rs ! src k) = {}"
      using False jk ty [of j] ty [of k] assms(2)
      by (intro regions_disjointD [OF assms(1)]) (auto simp: src_def)
    then show ?thesis using sub jk(1,2) by blast
  qed
qed

lemma usable_Nil [simp]: "usable [] = {}"
  by (simp add: usable_def)

lemma usable_Cons [simp]:
  "usable (r # rs) = (if region_type r = MEM_REGION_USABLE then span r else {}) \<union> usable rs"
  by (auto simp: usable_def)

lemma usable_append [simp]: "usable (xs @ ys) = usable xs \<union> usable ys"
  by (auto simp: usable_def)

lemma usable_cut:
  assumes "i < length rs" "region_type (rs ! i) = MEM_REGION_USABLE"
    and "region_begin (rs ! i) \<le> mid" "mid \<le> region_end (rs ! i)"
    and "region_type new = MEM_REGION_ALLOCATED"
  shows "usable rs = usable (rs[i := (rs ! i)\<lparr>region_begin := mid\<rparr>] @ [new])
    \<union> {unat (region_begin (rs ! i))..<unat mid}"
proof -
  have "usable rs = usable (take i rs @ rs ! i # drop (Suc i) rs)"
    using id_take_nth_drop [OF assms(1)] by simp
  moreover have "span (rs ! i) = span ((rs ! i)\<lparr>region_begin := mid\<rparr>) \<union> {unat (region_begin (rs ! i))..<unat mid}"
    using assms(3,4) by (auto simp: span_def word_le_nat_alt)
  ultimately show ?thesis
    using assms(1,2,5) by (simp add: upd_conv_take_nth_drop) blast
qed

lemma usable_disjoint_allocated:
  assumes "regions_disjoint (rs @ [new])" "region_type new = MEM_REGION_ALLOCATED"
  shows "usable (rs @ [new]) \<inter> span new = {}"
proof -
  have "span r \<inter> span new = {}" if "r \<in> set rs" "region_type r = MEM_REGION_USABLE" for r
  proof -
    obtain j where "j < length rs" "r = rs ! j" using \<open>r \<in> set rs\<close> by (auto simp: in_set_conv_nth)
    then show ?thesis
      using assms that(2) regions_disjointD [of "rs @ [new]" j "length rs"] by (simp add: nth_append)
  qed
  then show ?thesis using assms(2) by (auto simp: usable_def)
qed

text \<open>The result of a successful reservation, as one case analysis the later theorems share.\<close>

lemma memmap_reserve_cases:
  assumes "map_ok m" "memmap_reserve m len = (p, m')"
  obtains (null) "p = 0" "m' = m"
  | (carved) i r mid where "i < length (regions m)" "r = regions m ! i" "region_fits len r"
      "length (regions m) < max_memmap_regions" "p = region_begin r + VM_DMAP_BASE"
      "mid = align_up (region_begin r + len) CONFIG_PAGE_SIZE"
      "region_begin r \<le> mid" "mid \<le> region_end r" "page_aligned mid"
      "unat (region_begin r) + unat len \<le> unat mid"
      "m' = m\<lparr>regions := (regions m)[i := r\<lparr>region_begin := mid\<rparr>] @
        [\<lparr>region_begin = region_begin r, region_end = mid, region_type = MEM_REGION_ALLOCATED\<rparr>]\<rparr>"
proof (cases "find (\<lambda>i. region_fits len (regions m ! i)) [0..<length (regions m)]")
  case None
  with assms(2) null show ?thesis by (simp add: memmap_reserve_def)
next
  case (Some i)
  then have i: "i < length (regions m)" "region_fits len (regions m ! i)"
    by (auto simp: find_Some_iff)
  have ok: "region_ok (regions m ! i)" using assms(1) i(1) by (simp add: map_ok_def list_all_length)
  note b = cut_bounds [OF ok i(2)]
  show ?thesis
  proof (cases "length (regions m) = max_memmap_regions")
    case True
    with assms(2) Some null show ?thesis by (simp add: memmap_reserve_def)
  next
    case False
    with assms(1) have "length (regions m) < max_memmap_regions" by (simp add: map_ok_def)
    then show ?thesis
      using assms(2) Some i b carved [OF i(1) refl i(2)] False
      by (simp add: memmap_reserve_def Let_def word_le_nat_alt)
  qed
qed

lemma memmap_reserve_map_ok:
  assumes "map_ok m" "memmap_reserve m len = (p, m')"
  shows "map_ok m'"
  using assms
proof (cases rule: memmap_reserve_cases)
  case (carved i r mid)
  have us: "region_type (regions m ! i) = MEM_REGION_USABLE" using carved by (simp add: region_fits_def)
  have ok: "region_ok r" using assms(1) carved by (simp add: map_ok_def list_all_length)
  have top: "tops_ok m" "list_all region_ok (regions m)" using assms(1) by (simp_all add: map_ok_def)
  have "regions_disjoint (regions m')"
    using cut_disjoint [of "regions m" i mid] assms(1) carved us by (simp add: map_ok_def)
  moreover have "list_all region_ok (regions m')"
    using carved top(2) ok us
    by (auto simp: list_all_length nth_append nth_list_update region_ok_def)
  moreover have "tops_ok m'"
    using top(1) carved nth_mem [OF carved(1)] us
    by (auto simp: tops_ok_def dest!: set_update_subset_insert [THEN subsetD])
  ultimately show ?thesis using carved by (simp add: map_ok_def)
qed (use assms in simp)

lemma memmap_reserve_block:
  assumes "map_ok m" "memmap_reserve m len = (p, m')" "p \<noteq> 0"
  obtains b e where "p = b + VM_DMAP_BASE" "unat b + unat len \<le> unat e" "page_aligned b" "page_aligned e"
    "usable (regions m) = usable (regions m') \<union> {unat b..<unat e}"
    "usable (regions m') \<inter> {unat b..<unat e} = {}" "memory_top m' = memory_top m"
  using assms(1,2)
proof (cases rule: memmap_reserve_cases)
  case (carved i r mid)
  let ?new = "\<lparr>region_begin = region_begin r, region_end = mid, region_type = MEM_REGION_ALLOCATED\<rparr>"
  have us: "region_type (regions m ! i) = MEM_REGION_USABLE" using carved by (simp add: region_fits_def)
  have al: "page_aligned (region_begin r)"
    using assms(1) carved us by (simp add: map_ok_def list_all_length region_ok_def)
  have "usable (regions m') \<inter> span ?new = {}"
    using usable_disjoint_allocated [of "(regions m)[i := r\<lparr>region_begin := mid\<rparr>]" ?new]
      memmap_reserve_map_ok [OF assms(1,2)] carved(11) by (simp add: map_ok_def)
  moreover have "usable (regions m) = usable (regions m') \<union> {unat (region_begin r)..<unat mid}"
    using usable_cut [of i "regions m" mid ?new] carved us by simp
  ultimately show ?thesis
    using that [of "region_begin r" mid] carved(5,9,10,11) al by (simp add: span_def)
qed (use assms(3) in simp)

end
