(* ===== verification/Pmm.thy ===== *)
theory Pmm
  imports Memory_Map
begin

text \<open>
  The physical frame allocator of \<^verbatim>\<open>mm/pmm.c\<close>: a bitmap with one bit per page frame (set when the
  frame is free) and two page counters.  The bitmap is the list of its 64-bit words; an access
  outside it is outside the block that was reserved for it, and the model answers
  \<^term>\<open>None\<close>, as it does for the panic of an exhausted allocator.  The calls run under one lock
  (the locks are treated in their own theory), so each of them is one step here.
\<close>

section \<open>State and operations\<close>

record pmm =
  pmm_bitmap :: "u64 list"
  physmem_available :: u64
  physmem_used :: u64

definition bitmap_write :: "nat \<Rightarrow> (u64 \<Rightarrow> u64) \<Rightarrow> pmm \<Rightarrow> pmm option" where
  "bitmap_write i f s =
     (if i < length (pmm_bitmap s) then Some (s\<lparr>pmm_bitmap := (pmm_bitmap s)[i := f (pmm_bitmap s ! i)]\<rparr>)
      else None)"

lemma page_size_simps: "unat CONFIG_PAGE_SIZE = 4096" "unat (64 * CONFIG_PAGE_SIZE) = 262144"
  "0 < CONFIG_PAGE_SIZE" "CONFIG_PAGE_SIZE \<noteq> 0"
  by (simp_all add: CONFIG_PAGE_SIZE_def)

function mark_loop :: "u64 \<Rightarrow> u64 \<Rightarrow> pmm \<Rightarrow> pmm option" where
  "mark_loop rlen rbegin s =
     (if CONFIG_PAGE_SIZE \<le> rlen then
        let bmp_offset = unat (rbegin div CONFIG_PAGE_SIZE div 64);
            bit_offset = unat (rbegin div CONFIG_PAGE_SIZE mod 64)
        in if 64 * CONFIG_PAGE_SIZE \<le> rlen \<and> bit_offset = 0 then do {
             s \<leftarrow> bitmap_write bmp_offset (\<lambda>_. NOT 0) s;
             mark_loop (rlen - 64 * CONFIG_PAGE_SIZE) (rbegin + 64 * CONFIG_PAGE_SIZE) s
           } else do {
             s \<leftarrow> bitmap_write bmp_offset (\<lambda>w. w OR push_bit bit_offset 1) s;
             mark_loop (rlen - CONFIG_PAGE_SIZE) (rbegin + CONFIG_PAGE_SIZE) s
           }
      else Some s)"
  by pat_completeness auto

termination
  by (relation "measure (\<lambda>(rlen, rbegin, s). unat rlen)")
     (auto simp: unat_sub_small page_size_simps word_le_nat_alt)

declare mark_loop.simps [simp del]

definition pmm_mark_range_free :: "physaddr \<Rightarrow> physaddr \<Rightarrow> pmm \<Rightarrow> pmm option" where
  "pmm_mark_range_free b e s =
     (let rlen = e - b
      in mark_loop rlen b (s\<lparr>physmem_available := physmem_available s + rlen div CONFIG_PAGE_SIZE\<rparr>))"

fun pmm_init_regions :: "mem_region list \<Rightarrow> pmm \<Rightarrow> pmm option" where
  "pmm_init_regions [] s = Some s"
| "pmm_init_regions (r # rs) s =
     (if region_type r = MEM_REGION_USABLE then do {
        s \<leftarrow> pmm_mark_range_free (region_begin r) (region_end r) s;
        pmm_init_regions rs s
      } else if region_type r = MEM_REGION_ALLOCATED then
        pmm_init_regions rs
          (s\<lparr>physmem_used := physmem_used s + (region_end r - region_begin r) div CONFIG_PAGE_SIZE\<rparr>)
      else pmm_init_regions rs s)"

definition required_u64 :: "physaddr \<Rightarrow> u64" where
  "required_u64 mem_top = (align_up mem_top CONFIG_PAGE_SIZE div CONFIG_PAGE_SIZE + 63) div 64"

definition pmm_init :: "memory_map \<Rightarrow> (memory_map \<times> pmm) option" where
  "pmm_init memmap =
     (let words = required_u64 (memory_top memmap);
          (pmm_block, memmap') = memmap_reserve memmap (words * 8)
      in if pmm_block = 0 then None
         else do {
           s \<leftarrow> pmm_init_regions (regions memmap')
                 \<lparr>pmm_bitmap = replicate (unat words) 0, physmem_available = 0, physmem_used = 0\<rparr>;
           Some (memmap', s)
         })"

definition pmm_allocate :: "pmm \<Rightarrow> (physaddr \<times> pmm) option" where
  "pmm_allocate s =
     (case find (\<lambda>i. pmm_bitmap s ! i \<noteq> 0) [0..<length (pmm_bitmap s)] of
        None \<Rightarrow> None
      | Some i \<Rightarrow>
          let index = builtin_ctz (pmm_bitmap s ! i)
          in Some ((of_nat i * 64 + of_nat index) * CONFIG_PAGE_SIZE,
               s\<lparr>pmm_bitmap := (pmm_bitmap s)[i := pmm_bitmap s ! i AND NOT (push_bit index 1)],
                 physmem_available := physmem_available s - 1,
                 physmem_used := physmem_used s + 1\<rparr>))"

definition pmm_free :: "physaddr \<Rightarrow> pmm \<Rightarrow> pmm option" where
  "pmm_free addr s = do {
     s \<leftarrow> bitmap_write (unat (addr div CONFIG_PAGE_SIZE div 64))
           (\<lambda>w. w OR push_bit (unat (addr div CONFIG_PAGE_SIZE mod 64)) 1) s;
     Some (s\<lparr>physmem_used := physmem_used s - 1, physmem_available := physmem_available s + 1\<rparr>)
   }"

definition pmm_free_pages_count :: "pmm \<Rightarrow> u64" where
  "pmm_free_pages_count s = physmem_available s"

definition pmm_used_pages_count :: "pmm \<Rightarrow> u64" where
  "pmm_used_pages_count s = physmem_used s"

section \<open>The set of free frames\<close>

definition bitmap_frames :: "u64 list \<Rightarrow> nat set" where
  "bitmap_frames ws = {f. f div 64 < length ws \<and> bit (ws ! (f div 64)) (f mod 64)}"

abbreviation free_frames :: "pmm \<Rightarrow> nat set" where
  "free_frames s \<equiv> bitmap_frames (pmm_bitmap s)"

text \<open>A frame number as an address, and the frame an address lies in.\<close>

definition frame_addr :: "nat \<Rightarrow> physaddr" where
  "frame_addr f = of_nat f * CONFIG_PAGE_SIZE"

definition frame_of :: "physaddr \<Rightarrow> nat" where
  "frame_of a = unat a div 4096"

lemma in_frames_update:
  "i < length ws \<Longrightarrow>
   g \<in> bitmap_frames (ws[i := w]) \<longleftrightarrow> (if g div 64 = i then bit w (g mod 64) else g \<in> bitmap_frames ws)"
  by (simp add: bitmap_frames_def nth_list_update)

lemma in_frames_same: "g div 64 < length ws \<Longrightarrow> g \<in> bitmap_frames ws \<longleftrightarrow> bit (ws ! (g div 64)) (g mod 64)"
  by (simp add: bitmap_frames_def)

lemma bitmap_frames_set:
  assumes "f div 64 < length ws"
  shows "bitmap_frames (ws[f div 64 := ws ! (f div 64) OR push_bit (f mod 64) 1]) = insert f (bitmap_frames ws)"
proof (rule set_eqI)
  fix g
  have "bit (push_bit (f mod 64) 1 :: u64) n \<longleftrightarrow> n = f mod 64" for n by (simp add: bit_single_iff)
  then show "g \<in> bitmap_frames (ws[f div 64 := ws ! (f div 64) OR push_bit (f mod 64) 1]) \<longleftrightarrow>
      g \<in> insert f (bitmap_frames ws)"
    unfolding in_frames_update [OF assms] insert_iff bit_or_iff same_index_iff [of g f 64]
    using in_frames_same [of g ws] assms by (cases "g div 64 = f div 64") auto
qed

lemma bitmap_frames_clear:
  assumes "i < length ws" "k < 64"
  shows "bitmap_frames (ws[i := ws ! i AND NOT (push_bit k 1)]) = bitmap_frames ws - {64 * i + k}"
proof (rule set_eqI)
  fix g
  have "bit (push_bit k 1 :: u64) n \<longleftrightarrow> n = k" for n using assms(2) by (simp add: bit_single_iff)
  moreover have "bit (NOT w) (g mod 64) \<longleftrightarrow> \<not> bit w (g mod 64)" for w :: u64 by (simp add: bit_not_iff)
  ultimately show "g \<in> bitmap_frames (ws[i := ws ! i AND NOT (push_bit k 1)]) \<longleftrightarrow>
      g \<in> bitmap_frames ws - {64 * i + k}"
    unfolding in_frames_update [OF assms(1)] Diff_iff singleton_iff bit_and_iff split_index_iff [OF assms(2)]
    using in_frames_same [of g ws] assms(1) by (cases "g div 64 = i") auto
qed

lemma bitmap_frames_fill:
  assumes "i < length ws"
  shows "bitmap_frames (ws[i := NOT 0]) = bitmap_frames ws \<union> {64 * i..<64 * i + 64}"
proof (rule set_eqI)
  fix g
  have "bit (NOT 0 :: u64) (g mod 64)" by (simp add: bit_not_iff)
  then show "g \<in> bitmap_frames (ws[i := NOT 0]) \<longleftrightarrow> g \<in> bitmap_frames ws \<union> {64 * i..<64 * i + 64}"
    unfolding in_frames_update [OF assms] Un_iff div_eq_range_iff [of 64 g i, OF zero_less_numeral, symmetric]
    by (cases "g div 64 = i") simp_all
qed

lemma finite_bitmap_frames [simp]: "finite (bitmap_frames ws)"
  by (rule finite_subset [of _ "{f. f div 64 < length ws}"])
     (auto simp: bitmap_frames_def div_less_iff_less_mult)

lemma bitmap_frames_empty: "bitmap_frames (replicate n 0) = {}"
  by (auto simp: bitmap_frames_def)

section \<open>Marking a range\<close>

lemma unat_page_index:
  assumes "unat a = 4096 * p"
  shows "unat (a div CONFIG_PAGE_SIZE div 64) = p div 64" "unat (a div CONFIG_PAGE_SIZE mod 64) = p mod 64"
proof -
  have "unat (a div CONFIG_PAGE_SIZE) = p" using assms by (simp add: unat_div_distrib page_size_simps)
  then show "unat (a div CONFIG_PAGE_SIZE div 64) = p div 64" "unat (a div CONFIG_PAGE_SIZE mod 64) = p mod 64"
    by (simp_all add: unat_div_distrib unat_mod_distrib)
qed

lemma unat_page_add:
  assumes "unat a = 4096 * p" "4096 * (p + k) < (2::nat) ^ 64" "unat b = 4096 * k"
  shows "unat (a + b :: u64) = 4096 * (p + k)"
proof -
  have "unat a + unat b = 4096 * (p + k)" using assms(1,3) by simp
  then show ?thesis using assms(2) unat_add_small [of a b] by simp
qed

lemma bitmap_write_Some:
  "i < length (pmm_bitmap s) \<Longrightarrow>
   bitmap_write i f s = Some (s\<lparr>pmm_bitmap := (pmm_bitmap s)[i := f (pmm_bitmap s ! i)]\<rparr>)"
  by (simp add: bitmap_write_def)

text \<open>One iteration of the loop: a whole word when the cursor is word aligned and enough of the
  range is left, a single bit otherwise.\<close>

lemma mark_loop_word:
  assumes "unat rbegin = 4096 * p" "p mod 64 = 0" "262144 \<le> unat rlen" "p div 64 < length (pmm_bitmap s)"
  shows "mark_loop rlen rbegin s =
    mark_loop (rlen - 64 * CONFIG_PAGE_SIZE) (rbegin + 64 * CONFIG_PAGE_SIZE)
      (s\<lparr>pmm_bitmap := (pmm_bitmap s)[p div 64 := NOT 0]\<rparr>)"
  using assms(2-4)
  by (subst mark_loop.simps)
     (simp add: word_le_nat_alt page_size_simps unat_page_index [OF assms(1)] Let_def bitmap_write_Some)

lemma mark_loop_bit:
  assumes "unat rbegin = 4096 * p" "4096 \<le> unat rlen" "p mod 64 \<noteq> 0 \<or> unat rlen < 262144"
    and "p div 64 < length (pmm_bitmap s)"
  shows "mark_loop rlen rbegin s =
    mark_loop (rlen - CONFIG_PAGE_SIZE) (rbegin + CONFIG_PAGE_SIZE)
      (s\<lparr>pmm_bitmap := (pmm_bitmap s)[p div 64 := pmm_bitmap s ! (p div 64) OR push_bit (p mod 64) 1]\<rparr>)"
  using assms(2-4)
  by (subst mark_loop.simps)
     (auto simp: word_le_nat_alt page_size_simps unat_page_index [OF assms(1)] Let_def bitmap_write_Some)

lemma mark_loop_done: "unat rlen < 4096 \<Longrightarrow> mark_loop rlen rbegin s = Some s"
  by (subst mark_loop.simps) (simp add: word_le_nat_alt page_size_simps)

definition range_marked :: "nat \<Rightarrow> nat \<Rightarrow> pmm \<Rightarrow> pmm \<Rightarrow> bool" where
  "range_marked p n s s' \<longleftrightarrow>
     free_frames s' = free_frames s \<union> {p..<p + n} \<and> length (pmm_bitmap s') = length (pmm_bitmap s)
     \<and> physmem_available s' = physmem_available s \<and> physmem_used s' = physmem_used s"

lemma mark_loop_spec:
  assumes "unat rbegin = 4096 * p" "unat rlen div 4096 = n" "p + n \<le> 64 * length (pmm_bitmap s)"
    and "4096 * (p + n) < 2 ^ 64"
  shows "\<exists>s'. mark_loop rlen rbegin s = Some s' \<and> range_marked p n s s'"
  using assms
proof (induction n arbitrary: rbegin rlen p s rule: less_induct)
  case (less n)
  have idx: "p div 64 < length (pmm_bitmap s)" if "0 < n"
    using less.prems(3) that by (simp add: div_less_iff_less_mult)
  consider (stop) "n = 0" | (word) "64 \<le> n" "p mod 64 = 0" | (single) "0 < n" "p mod 64 \<noteq> 0 \<or> n < 64" by fastforce
  then show ?case
  proof cases
    case stop
    then show ?thesis using less.prems(2) by (simp add: mark_loop_done range_marked_def div_eq_0_iff)
  next
    case word
    let ?s = "s\<lparr>pmm_bitmap := (pmm_bitmap s)[p div 64 := NOT 0]\<rparr>"
    have len: "262144 \<le> unat rlen" using less.prems(2) word(1) by (simp add: less_eq_div_iff_mult_less_eq [symmetric])
    have "64 * (p div 64) = p" using word(2) by auto
    then have fr: "free_frames ?s = free_frames s \<union> {p..<p + 64}" using idx word bitmap_frames_fill [of "p div 64"] by simp
    have "\<exists>s'. mark_loop (rlen - 64 * CONFIG_PAGE_SIZE) (rbegin + 64 * CONFIG_PAGE_SIZE) ?s = Some s' \<and>
        range_marked (p + 64) (n - 64) ?s s'"
    proof (rule less.IH)
      show "unat (rbegin + 64 * CONFIG_PAGE_SIZE) = 4096 * (p + 64)"
        using less.prems(1,4) word by (intro unat_page_add) (simp_all add: page_size_simps)
      show "unat (rlen - 64 * CONFIG_PAGE_SIZE) div 4096 = n - 64"
        using len less.prems(2) by (subst unat_sub_small) (simp_all add: word_le_nat_alt page_size_simps div_sub_mult [of 4096 _ 64, simplified] div_sub_mult [of 4096 _ 1, simplified])
    qed (use word less.prems in auto)
    with fr word show ?thesis
      by (auto simp: mark_loop_word [OF less.prems(1) word(2) len idx] range_marked_def)
  next
    case single
    let ?s = "s\<lparr>pmm_bitmap := (pmm_bitmap s)[p div 64 := pmm_bitmap s ! (p div 64) OR push_bit (p mod 64) 1]\<rparr>"
    have len: "4096 \<le> unat rlen" "p mod 64 \<noteq> 0 \<or> unat rlen < 262144"
      using less.prems(2) single by (auto simp: div_less_iff_less_mult less_eq_div_iff_mult_less_eq [symmetric])
    have fr: "free_frames ?s = insert p (free_frames s)" using bitmap_frames_set [OF idx [OF single(1)]] by simp
    have "\<exists>s'. mark_loop (rlen - CONFIG_PAGE_SIZE) (rbegin + CONFIG_PAGE_SIZE) ?s = Some s' \<and>
        range_marked (p + 1) (n - 1) ?s s'"
    proof (rule less.IH)
      show "unat (rbegin + CONFIG_PAGE_SIZE) = 4096 * (p + 1)"
        using less.prems(1,4) single by (intro unat_page_add) (simp_all add: page_size_simps)
      show "unat (rlen - CONFIG_PAGE_SIZE) div 4096 = n - 1"
        using len less.prems(2) by (subst unat_sub_small) (simp_all add: word_le_nat_alt page_size_simps div_sub_mult [of 4096 _ 64, simplified] div_sub_mult [of 4096 _ 1, simplified])
    qed (use single less.prems in auto)
    with fr single show ?thesis
      by (auto simp: mark_loop_bit [OF less.prems(1) len idx] range_marked_def)
  qed
qed

section \<open>Allocation and release\<close>

definition pmm_inv :: "pmm \<Rightarrow> bool" where
  "pmm_inv s \<longleftrightarrow> physmem_available s = of_nat (card (free_frames s)) \<and> 64 * length (pmm_bitmap s) \<le> 2 ^ 52"

lemma frame_less: "f \<in> bitmap_frames ws \<Longrightarrow> f < 64 * length ws"
  by (simp add: bitmap_frames_def div_less_iff_less_mult mult.commute)

lemma unat_frame_addr: "f < 2 ^ 52 \<Longrightarrow> unat (frame_addr f) = 4096 * f"
  using unat_of_nat_small [where 'a = 64, of "f * 4096"] by (simp add: frame_addr_def CONFIG_PAGE_SIZE_def)

lemma frame_of_addr [simp]: "f < 2 ^ 52 \<Longrightarrow> frame_of (frame_addr f) = f"
  by (simp add: frame_of_def unat_frame_addr)

lemma first_free_word:
  assumes "find (\<lambda>i. ws ! i \<noteq> 0) [0..<length ws] = Some i"
  shows "i < length ws" "ws ! i \<noteq> 0" "Min (bitmap_frames ws) = 64 * i + builtin_ctz (ws ! i)"
    "64 * i + builtin_ctz (ws ! i) \<in> bitmap_frames ws"
proof -
  let ?k = "builtin_ctz (ws ! i)"
  show i: "i < length ws" "ws ! i \<noteq> 0" using assms by (auto simp: find_Some_iff)
  note ctz = builtin_ctz_bit [OF i(2)]
  have k: "?k < 64" using ctz(2) by simp
  then have "(64 * i + ?k) div 64 = i" "(64 * i + ?k) mod 64 = ?k" by simp_all
  with i ctz(1) show mem: "64 * i + ?k \<in> bitmap_frames ws" by (simp add: bitmap_frames_def)
  have "64 * i + ?k \<le> g" if "g \<in> bitmap_frames ws" for g
  proof -
    have g: "g = 64 * (g div 64) + g mod 64" "bit (ws ! (g div 64)) (g mod 64)" "g div 64 < length ws"
      using that by (simp_all add: bitmap_frames_def)
    then have "ws ! (g div 64) \<noteq> 0" by auto
    then have "i \<le> g div 64" using assms g(3) by (auto simp: find_Some_iff not_less [symmetric])
    then consider "i < g div 64" | "i = g div 64" by linarith
    then show ?thesis
    proof cases
      case 1 then show ?thesis using k g(1) by linarith
    next
      case 2 then show ?thesis using ctz(3) g by (metis add_le_cancel_left leI)
    qed
  qed
  then show "Min (bitmap_frames ws) = 64 * i + ?k" using mem by (intro Min_eqI) auto
qed

lemma no_free_word:
  "find (\<lambda>i. ws ! i \<noteq> 0) [0..<length ws] = None \<longleftrightarrow> bitmap_frames ws = {}"
proof
  assume "find (\<lambda>i. ws ! i \<noteq> 0) [0..<length ws] = None"
  then show "bitmap_frames ws = {}" by (auto simp: bitmap_frames_def find_None_all)
next
  assume "bitmap_frames ws = {}"
  then show "find (\<lambda>i. ws ! i \<noteq> 0) [0..<length ws] = None"
    using first_free_word(4) by (cases "find (\<lambda>i. ws ! i \<noteq> 0) [0..<length ws]") auto
qed

text \<open>The allocator returns the lowest free frame and panics exactly when there is none.\<close>

lemma pmm_allocate_None: "pmm_allocate s = None \<longleftrightarrow> free_frames s = {}"
  using no_free_word [of "pmm_bitmap s"] by (auto simp: pmm_allocate_def Let_def split: option.split)

lemma pmm_allocate_Some:
  assumes "pmm_allocate s = Some (a, s')"
  shows "a = frame_addr (Min (free_frames s))" "Min (free_frames s) \<in> free_frames s"
    "free_frames s' = free_frames s - {Min (free_frames s)}"
    "length (pmm_bitmap s') = length (pmm_bitmap s)"
    "physmem_available s' = physmem_available s - 1" "physmem_used s' = physmem_used s + 1"
proof -
  obtain i where i: "find (\<lambda>i. pmm_bitmap s ! i \<noteq> 0) [0..<length (pmm_bitmap s)] = Some i"
    using assms by (auto simp: pmm_allocate_def split: option.splits)
  note f = first_free_word [OF i]
  have "builtin_ctz (pmm_bitmap s ! i) < 64" using builtin_ctz_bit(2) [OF f(2)] by simp
  note clear = bitmap_frames_clear [OF f(1) this]
  have res: "a = (of_nat i * 64 + of_nat (builtin_ctz (pmm_bitmap s ! i))) * CONFIG_PAGE_SIZE"
    "s' = s\<lparr>pmm_bitmap := (pmm_bitmap s)[i := pmm_bitmap s ! i AND NOT (push_bit (builtin_ctz (pmm_bitmap s ! i)) 1)],
       physmem_available := physmem_available s - 1, physmem_used := physmem_used s + 1\<rparr>"
    using assms i by (simp_all add: pmm_allocate_def Let_def)
  show "a = frame_addr (Min (free_frames s))" "Min (free_frames s) \<in> free_frames s"
    "free_frames s' = free_frames s - {Min (free_frames s)}"
    "length (pmm_bitmap s') = length (pmm_bitmap s)"
    "physmem_available s' = physmem_available s - 1" "physmem_used s' = physmem_used s + 1"
    unfolding f(3) using res f(4) clear by (simp_all add: frame_addr_def mult.commute [of 64])
qed

lemma unat_frame_index:
  "unat (a div CONFIG_PAGE_SIZE div 64) = frame_of a div 64"
  "unat (a div CONFIG_PAGE_SIZE mod 64) = frame_of a mod 64"
  by (simp_all add: unat_div_distrib unat_mod_distrib page_size_simps frame_of_def)

lemma pmm_free_outside: "\<not> frame_of a div 64 < length (pmm_bitmap s) \<Longrightarrow> pmm_free a s = None"
  by (simp add: pmm_free_def bitmap_write_def unat_frame_index)

lemma pmm_free_spec:
  assumes "frame_of a div 64 < length (pmm_bitmap s)"
  obtains s' where "pmm_free a s = Some s'" "free_frames s' = insert (frame_of a) (free_frames s)"
    "length (pmm_bitmap s') = length (pmm_bitmap s)"
    "physmem_available s' = physmem_available s + 1" "physmem_used s' = physmem_used s - 1"
  using that bitmap_frames_set [OF assms] assms
  by (simp add: pmm_free_def bitmap_write_Some unat_frame_index)

lemma pmm_allocate_inv:
  assumes "pmm_inv s" "pmm_allocate s = Some (a, s')"
  shows "pmm_inv s'"
proof -
  note a = pmm_allocate_Some [OF assms(2)]
  then have "0 < card (free_frames s)" by (auto simp: card_gt_0_iff)
  with assms(1) a show ?thesis by (simp add: pmm_inv_def card_Diff_singleton of_nat_diff)
qed

lemma pmm_free_inv:
  assumes "pmm_inv s" "pmm_free a s = Some s'" "frame_of a \<notin> free_frames s"
  shows "pmm_inv s'"
proof -
  have "frame_of a div 64 < length (pmm_bitmap s)" using pmm_free_outside [of a s] assms(2) by fastforce
  then obtain s'' where "pmm_free a s = Some s''" "free_frames s'' = insert (frame_of a) (free_frames s)"
    "length (pmm_bitmap s'') = length (pmm_bitmap s)" "physmem_available s'' = physmem_available s + 1"
    by (rule pmm_free_spec)
  with assms show ?thesis by (simp add: pmm_inv_def)
qed

section \<open>Initialisation\<close>

definition usable_frames :: "mem_region list \<Rightarrow> nat set" where
  "usable_frames rs = {f. 4096 * f \<in> usable rs}"

lemma usable_frames_Nil [simp]: "usable_frames [] = {}"
  by (simp add: usable_frames_def)

lemma usable_frames_skip:
  "region_type r \<noteq> MEM_REGION_USABLE \<Longrightarrow> usable_frames (r # rs) = usable_frames rs"
  by (simp add: usable_frames_def)

lemma mult_range_iff:
  assumes "(b::nat) mod 4096 = 0" "e mod 4096 = 0"
  shows "4096 * f \<in> {b..<e} \<longleftrightarrow> f \<in> {b div 4096..<e div 4096}"
proof -
  obtain x y where "b = 4096 * x" "e = 4096 * y" using assms by (metis mod_0_imp_dvd dvdE)
  then show ?thesis by simp
qed

lemma usable_frames_Cons:
  assumes "region_type r = MEM_REGION_USABLE" "region_ok r"
  shows "usable_frames (r # rs) =
    {frame_of (region_begin r)..<frame_of (region_end r)} \<union> usable_frames rs"
proof -
  have "4096 * f \<in> span r \<longleftrightarrow> f \<in> {frame_of (region_begin r)..<frame_of (region_end r)}" for f
    unfolding span_def frame_of_def
    by (rule mult_range_iff) (use assms in \<open>unfold region_ok_def page_aligned_def, blast\<close>)+
  then show ?thesis
    by (intro set_eqI) (simp only: usable_frames_def usable_Cons assms(1) mem_Collect_eq Un_iff if_True simp_thms)
qed

lemma regions_disjoint_Cons:
  assumes "regions_disjoint (r # rs)"
  shows "regions_disjoint rs" "region_type r = MEM_REGION_USABLE \<Longrightarrow> span r \<inter> usable rs = {}"
proof -
  show "regions_disjoint rs" unfolding regions_disjoint_def
    using regions_disjointD [OF assms, of "Suc _" "Suc _"] by auto
  assume "region_type r = MEM_REGION_USABLE"
  then show "span r \<inter> usable rs = {}"
    using regions_disjointD [OF assms, of 0 "Suc _"] unfolding usable_def by (fastforce simp: in_set_conv_nth)
qed

lemma pmm_mark_range_free_spec:
  assumes "region_ok r" "region_type r = MEM_REGION_USABLE"
    and "unat (region_end r) \<le> 4096 * (64 * length (pmm_bitmap s))" "unat (region_end r) < 2 ^ 64"
  defines "b \<equiv> frame_of (region_begin r)" and "e \<equiv> frame_of (region_end r)"
  obtains s' where "pmm_mark_range_free (region_begin r) (region_end r) s = Some s'"
    "free_frames s' = free_frames s \<union> {b..<e}" "length (pmm_bitmap s') = length (pmm_bitmap s)"
    "physmem_available s' = physmem_available s + of_nat (e - b)"
proof -
  have al: "unat (region_begin r) = 4096 * b" "unat (region_end r) = 4096 * e"
    using assms(1,2) by (auto simp: region_ok_def page_aligned_def b_def e_def frame_of_def)
  have le: "b \<le> e" using assms(1,2) al by (simp add: region_ok_def word_le_nat_alt)
  let ?rlen = "region_end r - region_begin r"
  have "unat ?rlen = 4096 * (e - b)"
    using al assms(1,2) by (subst unat_sub_small) (simp_all add: region_ok_def diff_mult_distrib2)
  then have n: "unat ?rlen div 4096 = e - b" by simp
  then have w: "?rlen div CONFIG_PAGE_SIZE = of_nat (e - b)"
    using of_nat_unat_word [of "?rlen div CONFIG_PAGE_SIZE"] by (simp only: unat_div_distrib page_size_simps)
  define t where "t = s\<lparr>physmem_available := physmem_available s + ?rlen div CONFIG_PAGE_SIZE\<rparr>"
  have "\<exists>s'. mark_loop ?rlen (region_begin r) t = Some s' \<and> range_marked b (e - b) t s'"
    using al n le assms(3,4) by (intro mark_loop_spec) (simp_all add: t_def)
  with le w that show ?thesis
    by (auto simp: pmm_mark_range_free_def t_def range_marked_def Let_def)
qed

lemma pmm_init_regions_spec:
  assumes "list_all region_ok rs" "regions_disjoint rs" "pmm_inv s"
    and "\<forall>r\<in>set rs. region_type r = MEM_REGION_USABLE \<longrightarrow> unat (region_end r) \<le> 4096 * (64 * length (pmm_bitmap s))"
    and "free_frames s \<inter> usable_frames rs = {}"
  shows "\<exists>s'. pmm_init_regions rs s = Some s' \<and> free_frames s' = free_frames s \<union> usable_frames rs \<and>
    pmm_inv s' \<and> length (pmm_bitmap s') = length (pmm_bitmap s)"
  using assms
proof (induction rs arbitrary: s)
  case (Cons r rs)
  note dis = regions_disjoint_Cons [OF Cons.prems(2)]
  show ?case
  proof (cases "region_type r = MEM_REGION_USABLE")
    case True
    let ?I = "{frame_of (region_begin r)..<frame_of (region_end r)}"
    have ok: "region_ok r" using Cons.prems(1) by simp
    note uf = usable_frames_Cons [OF True ok, of rs]
    have sep: "?I \<inter> usable_frames rs = {}"
      using dis(2) [OF True] usable_frames_Cons [OF True ok, of "[]"] True unfolding usable_frames_def by auto
    have lt: "unat (region_end r) < 2 ^ 64" using unsigned_less [of "region_end r"] by simp
    obtain s1 where s1: "pmm_mark_range_free (region_begin r) (region_end r) s = Some s1"
      "free_frames s1 = free_frames s \<union> ?I" "length (pmm_bitmap s1) = length (pmm_bitmap s)"
      "physmem_available s1 = physmem_available s + of_nat (frame_of (region_end r) - frame_of (region_begin r))"
      using pmm_mark_range_free_spec [OF ok True _ lt] Cons.prems(4) True by (metis list.set_intros(1))
    have "pmm_inv s1"
      using Cons.prems(3,5) s1 uf by (simp add: pmm_inv_def card_Un_disjoint Int_Un_distrib)
    moreover have "free_frames s1 \<inter> usable_frames rs = {}"
      using Cons.prems(5) sep s1(2) uf by auto
    ultimately obtain s' where "pmm_init_regions rs s1 = Some s'" "free_frames s' = free_frames s1 \<union> usable_frames rs"
      "pmm_inv s'" "length (pmm_bitmap s') = length (pmm_bitmap s1)"
      using Cons.IH [of s1] Cons.prems(1,4) dis(1) s1(3) by auto
    then show ?thesis using True s1 uf by (simp add: Un_assoc)
  next
    case False
    define t where "t = (if region_type r = MEM_REGION_ALLOCATED
      then s\<lparr>physmem_used := physmem_used s + (region_end r - region_begin r) div CONFIG_PAGE_SIZE\<rparr> else s)"
    have t: "pmm_bitmap t = pmm_bitmap s" "pmm_inv t" using Cons.prems(3) by (simp_all add: t_def pmm_inv_def)
    have "pmm_init_regions (r # rs) s = pmm_init_regions rs t" using False by (simp add: t_def)
    with Cons.IH [of t] Cons.prems dis(1) False t show ?thesis by (simp add: usable_frames_skip)
  qed
qed simp

text \<open>The bitmap has a bit for every frame below the top of memory.\<close>

lemma required_u64_enough:
  assumes "unat m \<le> 2 ^ 52"
  shows "unat m \<le> 4096 * (64 * unat (required_u64 m))" "64 * unat (required_u64 m) \<le> 2 ^ 52"
proof -
  define u where "u = (unat m + 4095) div 4096"
  have up: "unat (align_up m CONFIG_PAGE_SIZE) = u * 4096"
    using assms align_up_page [of m] by (simp add: u_def)
  have ge: "unat m \<le> u * 4096" using round_up_ge [of 4096 "unat m"] by (simp add: u_def)
  have u: "u \<le> 2 ^ 40" using assms unfolding u_def by (simp add: div_le_mono [of _ "2 ^ 52 + 4095" 4096, simplified])
  have "unat (align_up m CONFIG_PAGE_SIZE div CONFIG_PAGE_SIZE) = u"
    using up by (simp add: unat_div_distrib page_size_simps)
  moreover from this have "unat (align_up m CONFIG_PAGE_SIZE div CONFIG_PAGE_SIZE + 63) = u + 63"
    using u by (subst unat_add_small) simp_all
  ultimately have r: "unat (required_u64 m) = (u + 63) div 64"
    by (simp add: required_u64_def unat_div_distrib)
  have "u \<le> (u + 63) div 64 * 64" using round_up_ge [of 64 u] by simp
  with ge r show "unat m \<le> 4096 * (64 * unat (required_u64 m))" by simp
  have "(u + 63) div 64 * 64 \<le> 2 ^ 40" using round_up_le [of 64 u "2 ^ 40"] u by simp
  with r show "64 * unat (required_u64 m) \<le> 2 ^ 52" by simp
qed

lemma pmm_init_spec:
  assumes "map_ok m" "unat (memory_top m) \<le> 2 ^ 52"
    and "memmap_reserve m (required_u64 (memory_top m) * 8) = (p, m')" "p \<noteq> 0"
  obtains s where "pmm_init m = Some (m', s)" "free_frames s = usable_frames (regions m')" "pmm_inv s"
    "length (pmm_bitmap s) = unat (required_u64 (memory_top m))"
proof -
  let ?n = "unat (required_u64 (memory_top m))"
  let ?s = "\<lparr>pmm_bitmap = replicate ?n 0, physmem_available = 0, physmem_used = 0\<rparr>"
  note enough = required_u64_enough [OF assms(2)]
  have ok: "map_ok m'" using memmap_reserve_map_ok assms(1,3) by blast
  have top: "memory_top m' = memory_top m"
    using memmap_reserve_block [OF assms(1,3,4)] by metis
  have "\<exists>s. pmm_init_regions (regions m') ?s = Some s \<and> free_frames s = free_frames ?s \<union> usable_frames (regions m') \<and>
      pmm_inv s \<and> length (pmm_bitmap s) = length (pmm_bitmap ?s)"
  proof (rule pmm_init_regions_spec)
    show "list_all region_ok (regions m')" "regions_disjoint (regions m')" using ok by (simp_all add: map_ok_def)
    show "pmm_inv ?s" using enough(2) by (simp add: pmm_inv_def bitmap_frames_empty)
    show "\<forall>r\<in>set (regions m'). region_type r = MEM_REGION_USABLE \<longrightarrow>
        unat (region_end r) \<le> 4096 * (64 * length (pmm_bitmap ?s))"
      using ok enough(1) top by (auto simp: map_ok_def tops_ok_def word_le_nat_alt intro: order_trans)
    show "free_frames ?s \<inter> usable_frames (regions m') = {}" by (simp add: bitmap_frames_empty)
  qed
  then show ?thesis
    using that assms(3,4) by (auto simp: pmm_init_def Let_def bitmap_frames_empty)
qed

section \<open>The contract of a page source\<close>

text \<open>What the slab allocator, the page tables and the address spaces rely on: a page that is handed
  out was free and is no longer free, and a returned page can be handed out again.\<close>

fun allocate_many :: "('s \<Rightarrow> ('p \<times> 's) option) \<Rightarrow> nat \<Rightarrow> 's \<Rightarrow> ('p list \<times> 's) option" where
  "allocate_many alloc 0 s = Some ([], s)"
| "allocate_many alloc (Suc n) s = do {
     (p, s) \<leftarrow> alloc s;
     (ps, s) \<leftarrow> allocate_many alloc n s;
     Some (p # ps, s)
   }"

fun release_many :: "('p \<Rightarrow> 's \<Rightarrow> 's option) \<Rightarrow> 'p list \<Rightarrow> 's \<Rightarrow> 's option" where
  "release_many rel [] s = Some s"
| "release_many rel (p # ps) s = do { s \<leftarrow> rel p s; release_many rel ps s }"

locale page_source =
  fixes inv :: "'s \<Rightarrow> bool"
    and managed :: "'s \<Rightarrow> 'p set"
    and free :: "'s \<Rightarrow> 'p set"
    and alloc :: "'s \<Rightarrow> ('p \<times> 's) option"
    and rel :: "'p \<Rightarrow> 's \<Rightarrow> 's option"
  assumes free_managed: "inv s \<Longrightarrow> free s \<subseteq> managed s \<and> finite (free s)"
    and alloc_fails: "inv s \<Longrightarrow> alloc s = None \<longleftrightarrow> free s = {}"
    and alloc_law: "\<lbrakk>inv s; alloc s = Some (p, s')\<rbrakk> \<Longrightarrow>
      p \<in> free s \<and> free s' = free s - {p} \<and> managed s' = managed s \<and> inv s'"
    and rel_law: "\<lbrakk>inv s; p \<in> managed s; p \<notin> free s\<rbrakk> \<Longrightarrow>
      \<exists>s'. rel p s = Some s' \<and> free s' = insert p (free s) \<and> managed s' = managed s \<and> inv s'"
begin

lemma allocate_many_distinct:
  assumes "inv s" "allocate_many alloc n s = Some (ps, s')"
  shows "distinct ps \<and> length ps = n \<and> set ps \<subseteq> free s \<and> free s' = free s - set ps \<and>
    managed s' = managed s \<and> inv s'"
  using assms
proof (induction n arbitrary: s ps)
  case (Suc n)
  then obtain p s1 qs where step: "alloc s = Some (p, s1)" "allocate_many alloc n s1 = Some (qs, s')" "ps = p # qs"
    by (auto split: bind_splits)
  note a = alloc_law [OF Suc.prems(1) step(1)]
  with Suc.IH [OF _ step(2)] step(3) show ?case by auto
qed simp

lemma allocate_many_total:
  assumes "inv s" "n \<le> card (free s)"
  shows "\<exists>ps s'. allocate_many alloc n s = Some (ps, s')"
  using assms
proof (induction n arbitrary: s)
  case (Suc n)
  then have "alloc s \<noteq> None" using alloc_fails by (metis card.empty not_less_eq_eq zero_le)
  then obtain p s1 where a: "alloc s = Some (p, s1)" by auto
  note l = alloc_law [OF Suc.prems(1) a]
  then have "n \<le> card (free s1)" using Suc.prems(2) free_managed [OF Suc.prems(1)] by simp
  with Suc.IH l a show ?case by fastforce
qed simp

lemma release_many_restores:
  assumes "inv s" "distinct ps" "set ps \<subseteq> managed s" "set ps \<inter> free s = {}"
  shows "\<exists>s'. release_many rel ps s = Some s' \<and> free s' = free s \<union> set ps \<and> inv s'"
  using assms
proof (induction ps arbitrary: s)
  case (Cons p ps)
  then obtain s1 where r: "rel p s = Some s1" "free s1 = insert p (free s)" "managed s1 = managed s" "inv s1"
    using rel_law [of s p] by auto
  with Cons.IH [of s1] Cons.prems show ?case by auto
qed simp

lemma allocate_release:
  assumes "inv s" "allocate_many alloc n s = Some (ps, s')"
  shows "\<exists>s''. release_many rel ps s' = Some s'' \<and> free s'' = free s \<and> inv s''"
proof -
  note a = allocate_many_distinct [OF assms]
  then have "set ps \<subseteq> managed s'" using free_managed [OF assms(1)] by auto
  with a release_many_restores [of s' ps] show ?thesis by auto
qed

end

text \<open>The frame allocator is a page source; its pages are the addresses of the frames.\<close>

definition managed_pages :: "pmm \<Rightarrow> physaddr set" where
  "managed_pages s = frame_addr ` {f. f div 64 < length (pmm_bitmap s)}"

definition free_pages :: "pmm \<Rightarrow> physaddr set" where
  "free_pages s = frame_addr ` free_frames s"

lemma managed_frame_less: "\<lbrakk>pmm_inv s; f div 64 < length (pmm_bitmap s)\<rbrakk> \<Longrightarrow> f < 2 ^ 52"
  by (simp add: pmm_inv_def div_less_iff_less_mult)

lemma frame_addr_inj: "inj_on frame_addr {..<2 ^ 52}"
  by (rule inj_on_inverseI [where g = frame_of]) simp

lemma free_frames_bound: "pmm_inv s \<Longrightarrow> free_frames s \<subseteq> {..<2 ^ 52}"
  using managed_frame_less by (auto simp: bitmap_frames_def)

interpretation pmm_pages: page_source pmm_inv managed_pages free_pages pmm_allocate pmm_free
proof
  fix s :: pmm assume inv: "pmm_inv s"
  show "free_pages s \<subseteq> managed_pages s \<and> finite (free_pages s)"
    by (auto simp: free_pages_def managed_pages_def bitmap_frames_def [of "pmm_bitmap s"])
  show "pmm_allocate s = None \<longleftrightarrow> free_pages s = {}"
    by (simp add: pmm_allocate_None free_pages_def)
next
  fix s a s' assume h: "pmm_inv s" "pmm_allocate s = Some (a, s')"
  note al = pmm_allocate_Some [OF h(2)]
  have "frame_addr ` (free_frames s - {Min (free_frames s)}) = free_pages s - {a}"
    unfolding free_pages_def al(1)
    using inj_on_image_set_diff [OF frame_addr_inj _ , of "free_frames s" "{Min (free_frames s)}"]
      al(2) free_frames_bound [OF h(1)] by (simp add: subset_iff)
  with al pmm_allocate_inv [OF h] show "a \<in> free_pages s \<and> free_pages s' = free_pages s - {a} \<and>
      managed_pages s' = managed_pages s \<and> pmm_inv s'"
    by (simp add: free_pages_def managed_pages_def)
next
  fix s a assume h: "pmm_inv s" "a \<in> managed_pages s" "a \<notin> free_pages s"
  then obtain f where f: "a = frame_addr f" "f div 64 < length (pmm_bitmap s)" by (auto simp: managed_pages_def)
  then have fa: "frame_of a = f" using managed_frame_less [OF h(1)] by simp
  obtain s' where s': "pmm_free a s = Some s'" "free_frames s' = insert f (free_frames s)"
    "length (pmm_bitmap s') = length (pmm_bitmap s)"
    using pmm_free_spec [of a s] f(2) fa by metis
  have "f \<notin> free_frames s" using h(3) f(1) by (auto simp: free_pages_def)
  then have "pmm_inv s'" using pmm_free_inv [OF h(1) s'(1)] fa by simp
  with s' f show "\<exists>s'. pmm_free a s = Some s' \<and> free_pages s' = insert a (free_pages s) \<and>
      managed_pages s' = managed_pages s \<and> pmm_inv s'"
    by (simp add: free_pages_def managed_pages_def)
qed

section \<open>Properties\<close>

lemma frame_avoids_block:
  assumes "b mod 4096 = (0::nat)" "e mod 4096 = 0" "4096 * f \<notin> {b..<e}" "n \<le> e"
  shows "{4096 * f..<4096 * f + 4096} \<inter> {b..<n} = {}"
proof -
  obtain x y where xy: "b = 4096 * x" "e = 4096 * y" using assms(1,2) by (metis mod_0_imp_dvd dvdE)
  with assms(3) have "f < x \<or> y \<le> f" by auto
  then have "4096 * f + 4096 \<le> b \<or> e \<le> 4096 * f" using xy by auto
  with assms(4) show ?thesis by auto
qed

text \<open>C1: The frame allocator hands out the lowest free frame, marks exactly that frame used, keeps the
  page counters in step, and panics if and only if no frame is free.\<close>

theorem pmm_allocate_lowest:
  "(pmm_allocate s = None \<longleftrightarrow> free_frames s = {}) \<and>
   (\<forall>a s'. pmm_allocate s = Some (a, s') \<longrightarrow>
      a = frame_addr (Min (free_frames s)) \<and> Min (free_frames s) \<in> free_frames s \<and>
      free_frames s' = free_frames s - {Min (free_frames s)} \<and>
      physmem_available s' = physmem_available s - 1 \<and> physmem_used s' = physmem_used s + 1)"
proof (intro conjI allI impI)
  show "pmm_allocate s = None \<longleftrightarrow> free_frames s = {}" by (rule pmm_allocate_None)
qed (fact pmm_allocate_Some(1-3,5,6))+

text \<open>The allocator with frames 3 and 5 free.\<close>

definition demo_pmm :: pmm where
  "demo_pmm = \<lparr>pmm_bitmap = [40], physmem_available = 2, physmem_used = 6\<rparr>"

lemma demo_allocate:
  "pmm_allocate demo_pmm = Some (0x3000, \<lparr>pmm_bitmap = [32], physmem_available = 1, physmem_used = 7\<rparr>)"
  by (simp add: pmm_allocate_def demo_pmm_def builtin_ctz_def upt_rec CONFIG_PAGE_SIZE_def)

theorem pmm_allocate_lowest_witness:
  "free_frames demo_pmm \<noteq> {} \<and> frame_addr (Min (free_frames demo_pmm)) = 0x3000"
  using pmm_allocate_lowest [of demo_pmm] by (simp add: demo_allocate)

text \<open>C2: Successive allocations return pairwise distinct pages that were all free before, they succeed as
  long as enough pages are free, and returning the pages restores the set of free pages.\<close>

theorem pmm_allocations_distinct:
  assumes "pmm_inv s" "n \<le> card (free_pages s)"
  shows "\<exists>ps s' s''. allocate_many pmm_allocate n s = Some (ps, s') \<and> length ps = n \<and> distinct ps \<and>
    set ps \<subseteq> free_pages s \<and> free_pages s' = free_pages s - set ps \<and> pmm_inv s' \<and>
    release_many pmm_free ps s' = Some s'' \<and> free_pages s'' = free_pages s \<and> pmm_inv s''"
proof -
  obtain ps s' where a: "allocate_many pmm_allocate n s = Some (ps, s')"
    using pmm_pages.allocate_many_total [OF assms] by blast
  then show ?thesis
    using pmm_pages.allocate_many_distinct [OF assms(1) a] pmm_pages.allocate_release [OF assms(1) a] by auto
qed

lemma demo_frames: "free_frames demo_pmm = {3, 5}"
  using bitmap_frames_set [of 3 "[0]"] bitmap_frames_set [of 5 "[8]"] bitmap_frames_empty [of 1]
  by (simp add: demo_pmm_def insert_commute)

lemma demo_inv: "pmm_inv demo_pmm"
  unfolding pmm_inv_def demo_frames by (simp add: demo_pmm_def)

lemma demo_pages: "free_pages demo_pmm = {0x3000, 0x5000}"
  by (simp add: free_pages_def demo_frames frame_addr_def CONFIG_PAGE_SIZE_def)

theorem pmm_allocations_distinct_witness:
  "\<exists>ps s'. allocate_many pmm_allocate 2 demo_pmm = Some (ps, s') \<and> set ps \<subseteq> {0x3000, 0x5000} \<and>
    distinct ps \<and> length ps = 2"
proof -
  have "2 \<le> card (free_pages demo_pmm)" by (simp add: demo_pages)
  from pmm_allocations_distinct [OF demo_inv this] show ?thesis by (auto simp: demo_pages)
qed

text \<open>C3: After initialisation from a well-formed memory map the free frames are exactly the frames of the
  usable regions that remain after the bitmap was carved out; no free frame overlaps the bitmap, and
  the available counter is the number of free frames.\<close>

theorem pmm_init_frames:
  assumes "map_ok m" "unat (memory_top m) \<le> 2 ^ 52"
    and "memmap_reserve m (required_u64 (memory_top m) * 8) = (p, m')" "p \<noteq> 0"
  shows "\<exists>s b. pmm_init m = Some (m', s) \<and> p = b + VM_DMAP_BASE \<and>
    free_frames s = {f. 4096 * f \<in> usable (regions m')} \<and> usable (regions m') \<subseteq> usable (regions m) \<and>
    (\<forall>f\<in>free_frames s. {4096 * f..<4096 * f + 4096} \<inter> {unat b..<unat b + 8 * length (pmm_bitmap s)} = {}) \<and>
    physmem_available s = of_nat (card (free_frames s))"
proof -
  obtain s where s: "pmm_init m = Some (m', s)" "free_frames s = usable_frames (regions m')" "pmm_inv s"
    "length (pmm_bitmap s) = unat (required_u64 (memory_top m))"
    by (rule pmm_init_spec [OF assms])
  obtain b e where be: "p = b + VM_DMAP_BASE" "unat b + unat (required_u64 (memory_top m) * 8) \<le> unat e"
    "page_aligned b" "page_aligned e" "usable (regions m) = usable (regions m') \<union> {unat b..<unat e}"
    "usable (regions m') \<inter> {unat b..<unat e} = {}"
    by (rule memmap_reserve_block [OF assms(1,3,4)])
  have "unat (required_u64 (memory_top m)) * 8 < 2 ^ 64" using required_u64_enough(2) [OF assms(2)] by simp
  then have "unat (required_u64 (memory_top m) * 8) = 8 * length (pmm_bitmap s)"
    using s(4) by (simp add: unat_mult_lem [THEN iffD1] mult.commute)
  then have "{4096 * f..<4096 * f + 4096} \<inter> {unat b..<unat b + 8 * length (pmm_bitmap s)} = {}"
    if "4096 * f \<in> usable (regions m')" for f
    using that be by (intro frame_avoids_block [of _ "unat e"]) (auto simp: page_aligned_def)
  then have "\<forall>f\<in>free_frames s. {4096 * f..<4096 * f + 4096} \<inter> {unat b..<unat b + 8 * length (pmm_bitmap s)} = {}"
    using s(2) unfolding usable_frames_def by blast
  then show ?thesis
    using s be(1,5) unfolding usable_frames_def pmm_inv_def by blast
qed

definition demo_map :: memory_map where
  "demo_map = \<lparr>regions = [\<lparr>region_begin = 0x1000, region_end = 0x4000, region_type = MEM_REGION_USABLE\<rparr>],
    memory_top = 0x4000\<rparr>"

theorem pmm_init_frames_witness:
  "\<exists>m' s. pmm_init demo_map = Some (m', s) \<and> free_frames s \<subseteq> {f. 4096 * f \<in> usable (regions demo_map)}"
proof -
  have "map_ok demo_map"
    by (simp add: map_ok_def demo_map_def max_memmap_regions_def region_ok_def page_aligned_def regions_disjoint_def tops_ok_def)
  moreover have "fst (memmap_reserve demo_map (required_u64 (memory_top demo_map) * 8)) = 0x1000 + VM_DMAP_BASE"
    by (simp add: memmap_reserve_def demo_map_def region_fits_def required_u64_def align_up_def
        CONFIG_PAGE_SIZE_def max_memmap_regions_def Let_def)
  then obtain m' where "memmap_reserve demo_map (required_u64 (memory_top demo_map) * 8) = (0x1000 + VM_DMAP_BASE, m')"
    by (metis prod.collapse)
  ultimately show ?thesis
    using pmm_init_frames [of demo_map "0x1000 + VM_DMAP_BASE" m']
    by (auto simp: demo_map_def VM_DMAP_BASE_def)
qed

end
