(* ===== verification/Slab.thy ===== *)
theory Slab
  imports Pmm
begin

text \<open>
  The object allocator of \<^verbatim>\<open>mm/slab.c\<close>: eight caches of fixed block size, each a list of
  one-page slabs.  A slab starts with its header (\<^verbatim>\<open>struct slab\<close>, 32 bytes) and is followed by its
  blocks; the free blocks of a slab form a list threaded through the first 32-bit word of each
  block.  Headers are kept in a map from page addresses to records; the rest of memory is a map
  from (4-byte aligned) addresses to 32-bit words.  The singly linked list of a cache
  (\<^verbatim>\<open>cache->slabs\<close> and \<^verbatim>\<open>next\<close>) is the list of its page addresses.
\<close>

section \<open>State and operations\<close>

record slab =
  slab_memory :: virtaddr
  slab_cache_of :: nat
  in_use :: u32
  slab_free_index :: u32

record slab_cache =
  cache_slabs :: "virtaddr list"
  block_size :: u16
  obj_per_slab :: u16

record slab_heap =
  km_caches :: "slab_cache list"
  slab_at :: "virtaddr \<Rightarrow> slab option"
  word_at :: "virtaddr \<Rightarrow> u32"
  frames :: pmm

definition sizeof_slab :: u64 where "sizeof_slab = 32"

definition km_block_sizes :: "u16 list" where
  "km_block_sizes = [8, 16, 32, 64, 128, 256, 512, 1024]"

definition cache_init :: "u16 \<Rightarrow> slab_cache" where
  "cache_init bs = \<lparr>cache_slabs = [], block_size = bs,
     obj_per_slab = ucast ((4096 - align_up sizeof_slab (ucast bs)) div ucast bs :: u64)\<rparr>"

definition slab_init :: "slab_cache list" where
  "slab_init = map cache_init km_block_sizes"

definition cache_set_slabs :: "nat \<Rightarrow> virtaddr list \<Rightarrow> slab_heap \<Rightarrow> slab_heap" where
  "cache_set_slabs c ps s = s\<lparr>km_caches := (km_caches s)[c := (km_caches s ! c)\<lparr>cache_slabs := ps\<rparr>]\<rparr>"

text \<open>The initialising loop of a new slab: block \<^term>\<open>i\<close> gets the index \<^term>\<open>i + 1\<close>.\<close>

fun thread_blocks :: "virtaddr \<Rightarrow> u16 \<Rightarrow> nat list \<Rightarrow> (virtaddr \<Rightarrow> u32) \<Rightarrow> virtaddr \<Rightarrow> u32" where
  "thread_blocks mem bs [] m = m"
| "thread_blocks mem bs (i # is) m =
     thread_blocks mem bs is (m(mem + of_nat (i * unat bs) := of_nat (i + 1)))"

definition slab_new :: "nat \<Rightarrow> slab_heap \<Rightarrow> (virtaddr \<times> slab_heap) option" where
  "slab_new c s = do {
     (alloc_phys, f) \<leftarrow> pmm_allocate (frames s);
     let cache = km_caches s ! c;
         p = alloc_phys + VM_DMAP_BASE;
         mem = p + align_up sizeof_slab (ucast (block_size cache));
         h = \<lparr>slab_memory = mem, slab_cache_of = c, in_use = 1, slab_free_index = 1\<rparr>;
         s' = cache_set_slabs c (cache_slabs cache @ [p]) (s\<lparr>frames := f\<rparr>)
     in Some (mem, s'\<lparr>slab_at := (slab_at s')(p := Some h),
                     word_at := thread_blocks mem (block_size cache) [1..<unat (obj_per_slab cache)] (word_at s')\<rparr>)
   }"

text \<open>The walk over the slabs of a cache: the first slab with a free block serves the request; a
  free index outside the slab is the panic.\<close>

fun slab_scan :: "nat \<Rightarrow> virtaddr list \<Rightarrow> slab_heap \<Rightarrow> (virtaddr \<times> slab_heap) option" where
  "slab_scan c [] s = slab_new c s"
| "slab_scan c (p # ps) s = do {
     h \<leftarrow> slab_at s p;
     let cache = km_caches s ! c
     in if unat (in_use h) < unat (obj_per_slab cache) then
          if unat (obj_per_slab cache) \<le> unat (slab_free_index h) then None
          else
            let mem = slab_memory h + ucast (ucast (block_size cache) * slab_free_index h)
            in Some (mem, s\<lparr>slab_at := (slab_at s)(p \<mapsto>
                 h\<lparr>slab_free_index := word_at s mem, in_use := in_use h + 1\<rparr>)\<rparr>)
        else slab_scan c ps s
   }"

definition slab_alloc :: "nat \<Rightarrow> slab_heap \<Rightarrow> (virtaddr \<times> slab_heap) option" where
  "slab_alloc c s = slab_scan c (cache_slabs (km_caches s ! c)) s"

definition fill_block :: "virtaddr \<Rightarrow> u16 \<Rightarrow> (virtaddr \<Rightarrow> u32) \<Rightarrow> virtaddr \<Rightarrow> u32" where
  "fill_block addr bs m = (\<lambda>a. if addr \<le> a \<and> unat a < unat addr + unat bs then 0x6b6b6b6b else m a)"

definition slab_free :: "virtaddr \<Rightarrow> slab_heap \<Rightarrow> slab_heap option" where
  "slab_free addr s = do {
     h \<leftarrow> slab_at s (addr AND NOT 0xFFF);
     if in_use h = 0 then None
     else if addr < (addr AND NOT 0xFFF) + sizeof_slab then None
     else
       let bs = block_size (km_caches s ! slab_cache_of h);
           obj_index = (addr - slab_memory h) div ucast bs
       in Some (s\<lparr>word_at := (fill_block addr bs (word_at s))(addr := slab_free_index h),
                  slab_at := (slab_at s)((addr AND NOT 0xFFF) \<mapsto>
                     h\<lparr>in_use := in_use h - 1, slab_free_index := ucast obj_index\<rparr>)\<rparr>)
   }"

definition kmalloc :: "u64 \<Rightarrow> slab_heap \<Rightarrow> (virtaddr \<times> slab_heap) option" where
  "kmalloc len s =
     (case find (\<lambda>i. len \<le> ucast (block_size (km_caches s ! i))) [0..<length (km_caches s)] of
        Some i \<Rightarrow> slab_alloc i s
      | None \<Rightarrow> None)"

definition kfree :: "virtaddr \<Rightarrow> slab_heap \<Rightarrow> slab_heap option" where
  "kfree addr s = slab_free addr s"

section \<open>Geometry of the caches\<close>

text \<open>Offset of the first block and number of blocks of the cache \<^term>\<open>c\<close>.\<close>

definition bsize :: "nat \<Rightarrow> nat" where "bsize c = 8 * 2 ^ c"
definition hdr :: "nat \<Rightarrow> nat" where "hdr c = (if c \<le> 2 then 32 else bsize c)"
definition nobj :: "nat \<Rightarrow> nat" where "nobj c = (4096 - hdr c) div bsize c"

definition cache_shape :: "slab_heap \<Rightarrow> bool" where
  "cache_shape s \<longleftrightarrow> map (\<lambda>x. (block_size x, obj_per_slab x)) (km_caches s) =
     map (\<lambda>x. (block_size x, obj_per_slab x)) slab_init"

lemma slab_init_simps: "map (\<lambda>x. (block_size x, obj_per_slab x)) slab_init =
  [(8, 508), (16, 254), (32, 127), (64, 63), (128, 31), (256, 15), (512, 7), (1024, 3)]"
  by (simp add: slab_init_def km_block_sizes_def cache_init_def align_up_def sizeof_slab_def)

lemma cache_index_cases:
  assumes "c < 8"
  obtains "c = 0" | "c = 1" | "c = 2" | "c = 3" | "c = 4" | "c = 5" | "c = 6" | "c = (7::nat)"
  using assms by linarith

lemma cache_shapeD:
  assumes "cache_shape s" "c < 8"
  shows "unat (block_size (km_caches s ! c)) = bsize c" "unat (obj_per_slab (km_caches s ! c)) = nobj c"
    "unat (align_up sizeof_slab (ucast (block_size (km_caches s ! c)))) = hdr c"
proof -
  have len: "length (km_caches s) = 8"
    using arg_cong [OF assms(1) [unfolded cache_shape_def slab_init_simps], of length] by simp
  have eq: "(block_size (km_caches s ! c), obj_per_slab (km_caches s ! c)) =
      [(8, 508), (16, 254), (32, 127), (64, 63), (128, 31), (256, 15), (512, 7), (1024, 3)] ! c"
    using arg_cong [OF assms(1) [unfolded cache_shape_def slab_init_simps], of "\<lambda>l. l ! c"] assms(2) len by simp
  show "unat (block_size (km_caches s ! c)) = bsize c" "unat (obj_per_slab (km_caches s ! c)) = nobj c"
    "unat (align_up sizeof_slab (ucast (block_size (km_caches s ! c)))) = hdr c"
    using assms(2) eq
    by (cases rule: cache_index_cases;
        simp add: bsize_def nobj_def hdr_def align_up_def sizeof_slab_def)+
qed

lemma geometry:
  assumes "c < 8"
  shows "8 \<le> bsize c" "32 \<le> hdr c" "hdr c + bsize c * nobj c \<le> 4096" "2 \<le> nobj c" "bsize c \<le> 1024" "nobj c \<le> 508"
  using assms by (cases rule: cache_index_cases; simp add: bsize_def nobj_def hdr_def)+

section \<open>Blocks and free lists\<close>

definition blk :: "virtaddr \<Rightarrow> nat \<Rightarrow> nat \<Rightarrow> virtaddr" where
  "blk p c i = p + of_nat (hdr c + bsize c * i)"

lemma page_room: "page_aligned p \<Longrightarrow> unat p + 4095 < 2 ^ 64"
  using aligned_headroom [of "unat p" 4096 "2 ^ 64"] unsigned_less [of p] by (simp add: page_aligned_def)

lemma block_end:
  assumes "c < 8" "i < nobj c"
  shows "hdr c + bsize c * i + bsize c \<le> 4096"
proof -
  have "bsize c * i + bsize c = bsize c * Suc i" by simp
  also have "\<dots> \<le> bsize c * nobj c" using assms(2) by (intro mult_le_mono2) simp
  finally show ?thesis using geometry(3) [OF assms(1)] by linarith
qed

lemma unat_blk:
  assumes "page_aligned p" "c < 8" "i < nobj c"
  shows "unat (blk p c i) = unat p + (hdr c + bsize c * i)"
proof -
  have "hdr c + bsize c * i \<le> 4095" using block_end [OF assms(2,3)] geometry(1) [OF assms(2)] by linarith
  moreover from this have "unat (of_nat (hdr c + bsize c * i) :: u64) = hdr c + bsize c * i"
    by (intro unat_of_nat_small) simp
  ultimately have "unat (of_nat (hdr c + bsize c * i) :: u64) = hdr c + bsize c * i"
    and "unat p + (hdr c + bsize c * i) < 2 ^ 64"
    using page_room [OF assms(1)] by linarith+
  then show ?thesis unfolding blk_def using unat_add_small [of p "of_nat (hdr c + bsize c * i)"] by simp
qed

lemma page_offset_down:
  assumes "page_aligned p" "unat a = unat p + k" "k < 4096"
  shows "a AND NOT 0xFFF = p" "frame_of a = frame_of p"
proof -
  obtain n where n: "unat p = 4096 * n" using assms(1) by (auto simp: page_aligned_def mod_eq_0_iff_dvd elim: dvdE)
  then have d: "unat a div 4096 = n" using assms(2,3) by simp
  then show "frame_of a = frame_of p" using n by (simp add: frame_of_def)
  have "(0xFFF :: u64) = mask 12" by (simp add: mask_eq_exp_minus_1)
  then have "unat (a AND NOT 0xFFF) = unat a div 4096 * 4096" using unat_and_not_mask [of a 12] by simp
  then show "a AND NOT 0xFFF = p" using d n by (simp add: word_unat_eq_iff)
qed

lemma page_of_blk:
  assumes "page_aligned p" "c < 8" "i < nobj c"
  shows "blk p c i AND NOT 0xFFF = p" "frame_of (blk p c i) = frame_of p"
proof -
  have "hdr c + bsize c * i < 4096" using block_end [OF assms(2,3)] geometry(1) [OF assms(2)] by linarith
  with page_offset_down [OF assms(1) unat_blk [OF assms]]
  show "blk p c i AND NOT 0xFFF = p" "frame_of (blk p c i) = frame_of p" by simp_all
qed

lemma page_eqI: "\<lbrakk>page_aligned p; page_aligned q; frame_of p = frame_of q\<rbrakk> \<Longrightarrow> p = q"
  by (auto simp: page_aligned_def frame_of_def word_unat_eq_iff mod_eq_0_iff_dvd elim!: dvdE)

text \<open>Two blocks of the kernel heap do not overlap.\<close>

lemma blocks_disjoint:
  assumes "page_aligned p" "c < 8" "i < nobj c" "page_aligned q" "d < 8" "j < nobj d"
    and "p \<noteq> q \<or> c = d \<and> i \<noteq> j"
  shows "{unat (blk p c i)..<unat (blk p c i) + bsize c} \<inter> {unat (blk q d j)..<unat (blk q d j) + bsize d} = {}"
proof (cases "p = q")
  case False
  obtain n m where nm: "unat p = 4096 * n" "unat q = 4096 * m"
    using assms(1,4) by (auto simp: page_aligned_def mod_eq_0_iff_dvd elim!: dvdE)
  with False have "n < m \<or> m < n" by (auto simp: word_unat_eq_iff)
  then have "unat p + 4096 \<le> unat q \<or> unat q + 4096 \<le> unat p" using nm by auto
  then show ?thesis
    using block_end [OF assms(2,3)] block_end [OF assms(5,6)]
    unfolding unat_blk [OF assms(1-3)] unat_blk [OF assms(4-6)] by auto
next
  case True
  with assms(7) have "c = d" "i < j \<or> j < i" by auto
  then have "bsize c * Suc i \<le> bsize c * j \<or> bsize c * Suc j \<le> bsize c * i"
    by (metis Suc_leI mult_le_mono2)
  then show ?thesis
    using True \<open>c = d\<close> unfolding unat_blk [OF assms(1-3)] unat_blk [OF assms(4-6)] by auto
qed

lemma blk_eq_iff:
  assumes "page_aligned p" "c < 8" "i < nobj c" "j < nobj c"
  shows "blk p c i = blk p c j \<longleftrightarrow> i = j"
  using unat_blk [OF assms(1,2)] assms(3,4) geometry(1) [OF assms(2)] by (auto simp: word_unat_eq_iff)

fun follow :: "(virtaddr \<Rightarrow> u32) \<Rightarrow> virtaddr \<Rightarrow> nat \<Rightarrow> nat \<Rightarrow> nat \<Rightarrow> nat list" where
  "follow w p c 0 f = []"
| "follow w p c (Suc k) f = f # follow w p c k (unat (w (blk p c f)))"

lemma follow_cong:
  "(\<And>i. i \<in> set (follow w p c k f) \<Longrightarrow> w' (blk p c i) = w (blk p c i)) \<Longrightarrow> follow w' p c k f = follow w p c k f"
  by (induction k arbitrary: f) auto

definition slab_list :: "(virtaddr \<Rightarrow> u32) \<Rightarrow> nat \<Rightarrow> virtaddr \<Rightarrow> slab \<Rightarrow> nat list" where
  "slab_list w c p h = follow w p c (nobj c - unat (in_use h)) (unat (slab_free_index h))"

definition slab_ok :: "(virtaddr \<Rightarrow> u32) \<Rightarrow> nat \<Rightarrow> virtaddr \<Rightarrow> slab \<Rightarrow> bool" where
  "slab_ok w c p h \<longleftrightarrow> slab_memory h = blk p c 0 \<and> slab_cache_of h = c \<and> unat (in_use h) \<le> nobj c \<and>
     distinct (slab_list w c p h) \<and> set (slab_list w c p h) \<subseteq> {..<nobj c}"

definition slab_pages :: "slab_heap \<Rightarrow> nat \<Rightarrow> virtaddr set" where
  "slab_pages s c = set (cache_slabs (km_caches s ! c))"

definition slab_inv :: "slab_heap \<Rightarrow> bool" where
  "slab_inv s \<longleftrightarrow> cache_shape s \<and> pmm_inv (frames s) \<and>
     (\<forall>c<8. \<forall>p\<in>slab_pages s c. page_aligned p \<and> p - VM_DMAP_BASE \<notin> free_pages (frames s) \<and>
        (\<exists>h. slab_at s p = Some h \<and> slab_ok (word_at s) c p h))"

text \<open>The blocks that are in use, as cache, page and index.\<close>

definition live :: "slab_heap \<Rightarrow> (nat \<times> virtaddr \<times> nat) set" where
  "live s = {(c, p, i). c < 8 \<and> p \<in> slab_pages s c \<and> i < nobj c \<and>
     (\<exists>h. slab_at s p = Some h \<and> i \<notin> set (slab_list (word_at s) c p h))}"

lemma slab_invD:
  assumes "slab_inv s" "c < 8" "p \<in> slab_pages s c"
  obtains h where "slab_at s p = Some h" "slab_ok (word_at s) c p h" "page_aligned p"
    "p - VM_DMAP_BASE \<notin> free_pages (frames s)"
  using assms unfolding slab_inv_def by blast

section \<open>One slab at a time\<close>

lemma slab_list_frame:
  assumes "slab_ok w c p h" "\<And>j. j < nobj c \<Longrightarrow> w' (blk p c j) = w (blk p c j)"
  shows "slab_list w' c p h = slab_list w c p h" "slab_ok w' c p h"
proof -
  show "slab_list w' c p h = slab_list w c p h"
    unfolding slab_list_def using assms by (intro follow_cong) (auto simp: slab_ok_def slab_list_def)
  then show "slab_ok w' c p h" using assms(1) by (simp add: slab_ok_def)
qed

lemma slab_page_cache:
  assumes "slab_inv s" "c < 8" "p \<in> slab_pages s c" "d < 8" "p \<in> slab_pages s d"
  shows "c = d"
  using slab_invD [OF assms(1-3)] slab_invD [OF assms(1,4,5)] by (metis option.inject slab_ok_def)

text \<open>Replacing the header of one slab and writing to memory outside the other slabs' blocks.\<close>

lemma slab_update:
  assumes inv: "slab_inv s" and c: "c < 8" "p \<in> slab_pages s c" and ok: "slab_ok w' c p h'"
    and frame: "\<And>q d j. \<lbrakk>d < 8; q \<in> slab_pages s d; q \<noteq> p; j < nobj d\<rbrakk> \<Longrightarrow> w' (blk q d j) = word_at s (blk q d j)"
  defines "s' \<equiv> s\<lparr>word_at := w', slab_at := (slab_at s)(p \<mapsto> h')\<rparr>"
  shows "slab_inv s'"
    "live s' = {x \<in> live s. fst (snd x) \<noteq> p} \<union> {(c, p, i) |i. i < nobj c \<and> i \<notin> set (slab_list w' c p h')}"
proof -
  have pages: "slab_pages s' d = slab_pages s d" for d by (simp add: slab_pages_def s'_def)
  have other: "slab_at s' q = slab_at s q \<and> (\<forall>h. slab_at s q = Some h \<longrightarrow>
      slab_ok w' d q h \<and> slab_list w' d q h = slab_list (word_at s) d q h)"
    if q: "d < 8" "q \<in> slab_pages s d" "q \<noteq> p" for d q
  proof -
    obtain h where "slab_at s q = Some h" "slab_ok (word_at s) d q h" using slab_invD [OF inv q(1,2)] by blast
    with slab_list_frame [of "word_at s" d q h w'] frame [OF q] q(3) show ?thesis by (simp add: s'_def)
  qed
  show "slab_inv s'"
    unfolding slab_inv_def
  proof (intro conjI allI impI ballI)
    show "cache_shape s'" "pmm_inv (frames s')" using inv by (simp_all add: slab_inv_def s'_def cache_shape_def)
    fix d q assume q: "d < 8" "q \<in> slab_pages s' d"
    then obtain h where h: "slab_at s q = Some h" "slab_ok (word_at s) d q h" "page_aligned q"
      "q - VM_DMAP_BASE \<notin> free_pages (frames s)" using slab_invD [OF inv q(1)] pages by metis
    then show "page_aligned q" "q - VM_DMAP_BASE \<notin> free_pages (frames s')" by (simp_all add: s'_def)
    show "\<exists>h. slab_at s' q = Some h \<and> slab_ok (word_at s') d q h"
    proof (cases "q = p")
      case True
      then have "d = c" using slab_page_cache [OF inv c] q pages by simp
      with True ok show ?thesis by (simp add: s'_def)
    next
      case False
      with other [of d q] q pages h show ?thesis by (simp add: s'_def)
    qed
  qed
  show "live s' = {x \<in> live s. fst (snd x) \<noteq> p} \<union> {(c, p, i) |i. i < nobj c \<and> i \<notin> set (slab_list w' c p h')}"
    (is "_ = ?R")
  proof (rule set_eqI, clarify)
    fix d q i
    show "(d, q, i) \<in> live s' \<longleftrightarrow> (d, q, i) \<in> ?R"
    proof (cases "d < 8 \<and> q \<in> slab_pages s d")
      case True
      show ?thesis
      proof (cases "q = p")
        case qp: True
        then have "d = c" using slab_page_cache [OF inv c] True by blast
        with qp True show ?thesis by (simp add: live_def pages) (simp add: s'_def)
      next
        case False
        obtain h where "slab_at s q = Some h" using slab_invD [OF inv] True by blast
        with False True other [of d q] show ?thesis by (simp add: live_def pages) (simp add: s'_def)
      qed
    next
      case False
      with c show ?thesis by (auto simp: live_def pages)
    qed
  qed
qed

lemma live_same_page:
  assumes "slab_inv s" "c < 8" "p \<in> slab_pages s c" "slab_at s p = Some h"
  shows "live s = {x \<in> live s. fst (snd x) \<noteq> p} \<union> {(c, p, i) |i. i < nobj c \<and> i \<notin> set (slab_list (word_at s) c p h)}"
proof -
  obtain h' where "slab_at s p = Some h'" "slab_ok (word_at s) c p h'" using slab_invD [OF assms(1-3)] .
  with assms(4) have "slab_ok (word_at s) c p h" by simp
  moreover have "s\<lparr>word_at := word_at s, slab_at := (slab_at s)(p \<mapsto> h)\<rparr> = s" using assms(4) by (simp add: fun_upd_idem)
  ultimately show ?thesis using slab_update(2) [OF assms(1-3), of "word_at s" h] by simp
qed

section \<open>Allocation\<close>

text \<open>The address computed from the free index, with the 32-bit product of the C expression.\<close>

lemma block_address:
  assumes "cache_shape s" "c < 8" "page_aligned p" "f = unat (fi :: u32)" "f < nobj c"
  shows "blk p c 0 + ucast (ucast (block_size (km_caches s ! c)) * fi) = blk p c f"
proof -
  let ?bs = "block_size (km_caches s ! c)"
  have bs: "unat ?bs = bsize c" by (rule cache_shapeD [OF assms(1,2)])
  have le: "bsize c * f \<le> 4096" using block_end [OF assms(2,5)] by linarith
  have "unat (ucast ?bs :: u32) = bsize c" using bs by (simp add: unat_ucast_up)
  then have "unat (ucast ?bs * fi :: u32) = bsize c * f"
    using le assms(4) by (subst unat_mult_lem [THEN iffD1]) simp_all
  then have "ucast (ucast ?bs * fi :: u32) = (of_nat (bsize c * f) :: u64)"
    using of_nat_unat_ucast [of "ucast ?bs * fi :: u32", where 'b = 64] by (simp only:)
  then show ?thesis by (simp add: blk_def algebra_simps)
qed

lemma slab_take:
  assumes inv: "slab_inv s" and c: "c < 8" "p \<in> slab_pages s c" and h: "slab_at s p = Some h"
    and room: "unat (in_use h) < nobj c"
  defines "f \<equiv> unat (slab_free_index h)"
  defines "s' \<equiv> s\<lparr>slab_at := (slab_at s)(p \<mapsto> h\<lparr>slab_free_index := word_at s (blk p c f), in_use := in_use h + 1\<rparr>)\<rparr>"
  shows "f < nobj c" "slab_inv s'" "(c, p, f) \<notin> live s" "live s' = insert (c, p, f) (live s)"
proof -
  let ?w = "word_at s" and ?h' = "h\<lparr>slab_free_index := word_at s (blk p c f), in_use := in_use h + 1\<rparr>"
  have ok: "slab_ok ?w c p h" "page_aligned p" using slab_invD [OF inv c] h by auto
  obtain k where k: "nobj c - unat (in_use h) = Suc k" using room by (metis Suc_diff_Suc)
  have iu: "unat (in_use h + 1) = Suc (unat (in_use h))"
    using room geometry(6) [OF c(1)] by (subst unat_add_small) simp_all
  then have k': "nobj c - unat (in_use ?h') = k" using k by simp
  have list: "slab_list ?w c p h = f # slab_list ?w c p ?h'"
    unfolding slab_list_def k k' by (simp add: f_def)
  then show f: "f < nobj c" using ok(1) by (simp add: slab_ok_def)
  have ok': "slab_ok ?w c p ?h'"
    using ok(1) list iu room by (auto simp: slab_ok_def)
  have s': "s' = s\<lparr>word_at := ?w, slab_at := (slab_at s)(p \<mapsto> ?h')\<rparr>" by (simp add: s'_def)
  show "slab_inv s'" unfolding s' by (rule slab_update(1) [OF inv c ok']) simp
  show "(c, p, f) \<notin> live s" using h list by (simp add: live_def)
  have d: "f \<notin> set (slab_list ?w c p ?h')" using ok(1) list by (simp add: slab_ok_def)
  have "live s' = {x \<in> live s. fst (snd x) \<noteq> p} \<union> {(c, p, i) |i. i < nobj c \<and> i \<notin> set (slab_list ?w c p ?h')}"
    unfolding s' by (rule slab_update(2) [OF inv c ok']) simp
  moreover have "{(c, p, i) |i. i < nobj c \<and> i \<notin> set (slab_list ?w c p ?h')} =
      insert (c, p, f) {(c, p, i) |i. i < nobj c \<and> i \<notin> set (slab_list ?w c p h)}"
    using list d f by auto
  ultimately show "live s' = insert (c, p, f) (live s)"
    using live_same_page [OF inv c h] by simp
qed

lemma thread_blocks_frame:
  "(\<And>i. i \<in> set is \<Longrightarrow> a \<noteq> mem + of_nat (i * unat bs)) \<Longrightarrow> thread_blocks mem bs is m a = m a"
  by (induction "is" arbitrary: m) auto

lemma thread_blocks_at:
  assumes "distinct is" "i \<in> set is" "inj_on (\<lambda>i. mem + of_nat (i * unat bs) :: u64) (set is)"
  shows "thread_blocks mem bs is m (mem + of_nat (i * unat bs)) = of_nat (i + 1)"
  using assms
proof (induction "is" arbitrary: m)
  case (Cons j js)
  show ?case
  proof (cases "i = j")
    case True
    have "mem + of_nat (i * unat bs) \<noteq> mem + of_nat (k * unat bs)" if "k \<in> set js" for k
      using Cons.prems that True by (auto simp: inj_on_def)
    with True show ?thesis by (simp add: thread_blocks_frame)
  qed (use Cons in \<open>auto simp: inj_on_def\<close>)
qed simp

lemma follow_threaded:
  assumes "\<And>i. i < n \<Longrightarrow> a \<le> i \<Longrightarrow> unat (w (blk p c i)) = Suc i"
  shows "follow w p c (n - a) a = [a..<n]"
  using assms
proof (induction "n - a" arbitrary: a)
  case (Suc k)
  then have "a < n" by simp
  then have "n - a = Suc (n - Suc a)" by simp
  moreover have "follow w p c (n - Suc a) (Suc a) = [Suc a..<n]"
    using Suc.hyps(2) Suc.prems by (intro Suc.hyps(1)) auto
  ultimately show ?case using Suc.prems [of a] \<open>a < n\<close> by (simp add: upt_rec)
qed simp

lemma dmap_aligned: "page_aligned VM_DMAP_BASE"
  by (simp add: page_aligned_def VM_DMAP_BASE_def)

lemma frame_addr_aligned: "page_aligned (frame_addr f)"
proof -
  have "unat (frame_addr f) mod 4096 = (f * 4096) mod 4096"
    by (simp add: frame_addr_def CONFIG_PAGE_SIZE_def unat_word_ariths unsigned_of_nat take_bit_eq_mod mod_mod_cancel mod_mult_left_eq)
  then show ?thesis by (simp add: page_aligned_def)
qed

lemma first_block:
  assumes "cache_shape s" "c < 8"
  shows "p + align_up sizeof_slab (ucast (block_size (km_caches s ! c))) = blk p c 0"
    "blk p c 0 + of_nat (i * unat (block_size (km_caches s ! c))) = blk p c i"
proof -
  have "align_up sizeof_slab (ucast (block_size (km_caches s ! c))) = of_nat (hdr c)"
    using cache_shapeD(3) [OF assms] by (metis of_nat_unat_word)
  then show "p + align_up sizeof_slab (ucast (block_size (km_caches s ! c))) = blk p c 0" by (simp add: blk_def)
  show "blk p c 0 + of_nat (i * unat (block_size (km_caches s ! c))) = blk p c i"
    using cache_shapeD(1) [OF assms] by (simp add: blk_def algebra_simps)
qed

text \<open>A fresh page becomes a slab whose first block is in use.\<close>

lemma thread_new:
  fixes w :: "virtaddr \<Rightarrow> u32"
  assumes "cache_shape s" "c < 8" "page_aligned p"
  defines "w' \<equiv> thread_blocks (blk p c 0) (block_size (km_caches s ! c)) [1..<nobj c] w"
  shows "\<And>q d j. \<lbrakk>page_aligned q; d < 8; q \<noteq> p; j < nobj d\<rbrakk> \<Longrightarrow> w' (blk q d j) = w (blk q d j)"
    "follow w' p c (nobj c - 1) 1 = [1..<nobj c]"
proof -
  note fb = first_block(2) [OF assms(1,2), of p]
  have inj: "inj_on (\<lambda>i. blk p c 0 + of_nat (i * unat (block_size (km_caches s ! c))) :: u64) (set [1..<nobj c])"
    unfolding fb inj_on_def using blk_eq_iff [OF assms(3,2)] by auto
  show "w' (blk q d j) = w (blk q d j)" if "page_aligned q" "d < 8" "q \<noteq> p" "j < nobj d" for q d j
  proof -
    have "blk q d j \<noteq> blk p c i" if "i < nobj c" for i
      using page_of_blk(1) [OF \<open>page_aligned q\<close> \<open>d < 8\<close> \<open>j < nobj d\<close>] page_of_blk(1) [OF assms(3,2) that] \<open>q \<noteq> p\<close> by metis
    then show ?thesis unfolding w'_def by (intro thread_blocks_frame) (unfold fb, simp)
  qed
  have "unat (w' (blk p c i)) = Suc i" if "i < nobj c" "1 \<le> i" for i
  proof -
    have "w' (blk p c i) = of_nat (i + 1)"
      using thread_blocks_at [OF _ _ inj, of i w] that unfolding w'_def fb by simp
    then show ?thesis using that geometry(6) [OF assms(2)] unat_of_nat_small [where 'a = 32, of "i + 1"] by simp
  qed
  then show "follow w' p c (nobj c - 1) 1 = [1..<nobj c]" by (intro follow_threaded)
qed

lemma slab_grow:
  assumes inv: "slab_inv s" and c: "c < 8" and p: "page_aligned p" and fresh: "\<And>d. d < 8 \<Longrightarrow> p \<notin> slab_pages s d"
    and keep: "cache_shape s'" "pmm_inv (frames s')" "free_pages (frames s') \<subseteq> free_pages (frames s)"
    and used: "p - VM_DMAP_BASE \<notin> free_pages (frames s')"
    and pages: "\<And>d. d < 8 \<Longrightarrow> slab_pages s' d = (if d = c then insert p (slab_pages s c) else slab_pages s d)"
    and hdrs: "slab_at s' = (slab_at s)(p \<mapsto> h)" and ok: "slab_ok (word_at s') c p h"
    and frame: "\<And>q d j. \<lbrakk>page_aligned q; d < 8; q \<noteq> p; j < nobj d\<rbrakk> \<Longrightarrow> word_at s' (blk q d j) = word_at s (blk q d j)"
  shows "slab_inv s'"
    "live s' = live s \<union> {(c, p, i) |i. i < nobj c \<and> i \<notin> set (slab_list (word_at s') c p h)}"
proof -
  have old: "q \<noteq> p \<and> page_aligned q \<and> q - VM_DMAP_BASE \<notin> free_pages (frames s') \<and>
      (\<exists>k. slab_at s q = Some k \<and> slab_ok (word_at s') d q k \<and>
           slab_list (word_at s') d q k = slab_list (word_at s) d q k)"
    if q: "d < 8" "q \<in> slab_pages s d" for d q
  proof -
    obtain k where k: "slab_at s q = Some k" "slab_ok (word_at s) d q k" "page_aligned q"
      "q - VM_DMAP_BASE \<notin> free_pages (frames s)" using slab_invD [OF inv q] .
    moreover have "q \<noteq> p" using fresh q by blast
    ultimately show ?thesis
      using slab_list_frame [OF k(2)] frame [OF k(3) q(1)] keep(3) by blast
  qed
  have cases: "d = c \<and> q = p \<or> q \<in> slab_pages s d" if "d < 8" "q \<in> slab_pages s' d" for d q
    using that pages by (auto split: if_splits)
  show "slab_inv s'" unfolding slab_inv_def
  proof (intro conjI allI impI ballI keep(1,2))
    fix d q assume q: "d < 8" "q \<in> slab_pages s' d"
    from cases [OF q] have "page_aligned q \<and> q - VM_DMAP_BASE \<notin> free_pages (frames s') \<and>
        (\<exists>k. slab_at s' q = Some k \<and> slab_ok (word_at s') d q k)"
      using old [OF q(1), of q] p used ok unfolding hdrs by auto
    then show "page_aligned q" "q - VM_DMAP_BASE \<notin> free_pages (frames s')"
      "\<exists>k. slab_at s' q = Some k \<and> slab_ok (word_at s') d q k" by blast+
  qed
  show "live s' = live s \<union> {(c, p, i) |i. i < nobj c \<and> i \<notin> set (slab_list (word_at s') c p h)}" (is "_ = ?R")
  proof (rule set_eqI, clarify)
    fix d q i
    consider "d < 8" "q \<in> slab_pages s d" | "d = c" "q = p" | "d < 8 \<longrightarrow> q \<notin> slab_pages s' d" using cases by blast
    then show "(d, q, i) \<in> live s' \<longleftrightarrow> (d, q, i) \<in> ?R"
    proof cases
      case 1 with old [OF 1] pages [OF 1(1)] show ?thesis by (auto simp: live_def hdrs)
    next
      case 2 with c fresh [OF c] pages [OF c] show ?thesis by (simp add: live_def hdrs)
    next
      case 3 with pages c show ?thesis by (auto simp: live_def split: if_splits)
    qed
  qed
qed

lemma slab_new_unfold:
  assumes "cache_shape s" "c < 8" "pmm_allocate (frames s) = Some (ph, f)"
  defines "p \<equiv> ph + VM_DMAP_BASE"
  shows "slab_new c s = Some (blk p c 0,
    (cache_set_slabs c (cache_slabs (km_caches s ! c) @ [p]) (s\<lparr>frames := f\<rparr>))
      \<lparr>slab_at := (slab_at s)(p \<mapsto> \<lparr>slab_memory = blk p c 0, slab_cache_of = c, in_use = 1, slab_free_index = 1\<rparr>),
       word_at := thread_blocks (blk p c 0) (block_size (km_caches s ! c)) [1..<nobj c] (word_at s)\<rparr>)"
  using assms(3) first_block(1) [OF assms(1,2)] cache_shapeD(2) [OF assms(1,2)]
  by (simp add: slab_new_def Let_def p_def cache_set_slabs_def)

lemma cache_set_shape:
  assumes "cache_shape s" "c < 8"
  shows "cache_shape (cache_set_slabs c ps s)"
    "d < 8 \<Longrightarrow> slab_pages (cache_set_slabs c ps s) d = (if d = c then set ps else slab_pages s d)"
proof -
  have len: "length (km_caches s) = 8"
    using arg_cong [OF assms(1) [unfolded cache_shape_def slab_init_simps], of length] by simp
  have "map (\<lambda>x. (block_size x, obj_per_slab x)) ((km_caches s)[c := (km_caches s ! c)\<lparr>cache_slabs := ps\<rparr>]) =
      map (\<lambda>x. (block_size x, obj_per_slab x)) (km_caches s)"
    using assms(2) len by (intro nth_equalityI) (simp_all add: nth_list_update)
  then show "cache_shape (cache_set_slabs c ps s)"
    using assms(1) unfolding cache_shape_def cache_set_slabs_def by simp
  show "slab_pages (cache_set_slabs c ps s) d = (if d = c then set ps else slab_pages s d)" if "d < 8"
    using assms(2) that len by (simp add: slab_pages_def cache_set_slabs_def nth_list_update)
qed

lemma slab_new_spec:
  assumes inv: "slab_inv s" and c: "c < 8" and new: "slab_new c s = Some (a, s')"
  obtains p where "a = blk p c 0" "page_aligned p" "slab_inv s'" "(c, p, 0) \<notin> live s" "live s' = insert (c, p, 0) (live s)"
proof -
  obtain ph f where al: "pmm_allocate (frames s) = Some (ph, f)"
    using new by (cases "pmm_allocate (frames s)") (auto simp: slab_new_def)
  define p where "p = ph + VM_DMAP_BASE"
  define h where "h = \<lparr>slab_memory = blk p c 0, slab_cache_of = c, in_use = 1, slab_free_index = 1\<rparr>"
  have sh: "cache_shape s" and pm: "pmm_inv (frames s)" using inv by (simp_all add: slab_inv_def)
  note new' = new [unfolded slab_new_unfold [OF sh c al], folded p_def, folded h_def]
  note law = pmm_pages.alloc_law [OF pm al]
  have pal: "page_aligned p"
    unfolding p_def using pmm_allocate_Some(1) [OF al] by (simp add: page_aligned_add dmap_aligned frame_addr_aligned)
  have fresh: "p \<notin> slab_pages s d" if "d < 8" for d
  proof
    assume "p \<in> slab_pages s d"
    then have "p - VM_DMAP_BASE \<notin> free_pages (frames s)" using slab_invD [OF inv that] by blast
    then show False using law by (simp add: p_def)
  qed
  have sh': "cache_shape (s\<lparr>frames := f\<rparr>)" using sh by (simp add: cache_shape_def)
  have at: "a = blk p c 0" and hdrs: "slab_at s' = (slab_at s)(p \<mapsto> h)" and fr: "frames s' = f"
    and w: "word_at s' = thread_blocks (blk p c 0) (block_size (km_caches s ! c)) [1..<nobj c] (word_at s)"
    and km: "km_caches s' = km_caches (cache_set_slabs c (cache_slabs (km_caches s ! c) @ [p]) (s\<lparr>frames := f\<rparr>))"
    using new' by (auto simp: cache_set_slabs_def)
  have list: "slab_list (word_at s') c p h = [1..<nobj c]"
    using thread_new(2) [OF sh c pal] by (simp add: slab_list_def h_def w del: One_nat_def)
  have ok: "slab_ok (word_at s') c p h"
    unfolding slab_ok_def list using geometry(4) [OF c] by (auto simp: h_def)
  have shape: "cache_shape s'" using cache_set_shape(1) [OF sh' c] unfolding cache_shape_def km .
  have pages: "slab_pages s' d = (if d = c then insert p (slab_pages s c) else slab_pages s d)" if "d < 8" for d
    using cache_set_shape(2) [OF sh' c that] unfolding slab_pages_def km by simp
  have frame: "word_at s' (blk q d j) = word_at s (blk q d j)"
    if "page_aligned q" "d < 8" "q \<noteq> p" "j < nobj d" for q d j
    unfolding w by (rule thread_new(1) [OF sh c pal that])
  have "pmm_inv (frames s')" "free_pages (frames s') \<subseteq> free_pages (frames s)" "p - VM_DMAP_BASE \<notin> free_pages (frames s')"
    unfolding fr using law by (auto simp: p_def)
  note g = slab_grow [OF inv c pal fresh shape this pages hdrs ok frame]
  have "{(c, p, i) |i. i < nobj c \<and> i \<notin> set (slab_list (word_at s') c p h)} = {(c, p, 0)}"
    unfolding list using geometry(4) [OF c] by auto
  then have "live s' = insert (c, p, 0) (live s)" using g(2) by simp
  moreover have "(c, p, 0) \<notin> live s" using fresh [OF c] by (simp add: live_def)
  ultimately show ?thesis using that at pal g(1) by blast
qed

lemma slab_scan_spec:
  assumes inv: "slab_inv s" and c: "c < 8" and ps: "set ps \<subseteq> slab_pages s c" and scan: "slab_scan c ps s = Some (a, s')"
  obtains p i where "a = blk p c i" "page_aligned p" "i < nobj c" "slab_inv s'" "(c, p, i) \<notin> live s"
    "live s' = insert (c, p, i) (live s)"
  using ps scan
proof (induction ps)
  case Nil
  have "0 < nobj c" using geometry(4) [OF c] by simp
  with Nil show ?case using slab_new_spec [OF inv c, of a s'] by (metis slab_scan.simps(1))
next
  case (Cons p ps)
  have sh: "cache_shape s" using inv by (simp add: slab_inv_def)
  have p: "p \<in> slab_pages s c" using Cons.prems(2) by simp
  obtain h where h: "slab_at s p = Some h" "slab_ok (word_at s) c p h" "page_aligned p" using slab_invD [OF inv c p] .
  show ?case
  proof (cases "unat (in_use h) < nobj c")
    case True
    note t = slab_take [OF inv c p h(1) True]
    have "slab_memory h + ucast (ucast (block_size (km_caches s ! c)) * slab_free_index h) =
        blk p c (unat (slab_free_index h))"
      using block_address [OF sh c h(3) refl t(1)] h(2) by (simp add: slab_ok_def)
    then have "a = blk p c (unat (slab_free_index h))"
      "s' = s\<lparr>slab_at := (slab_at s)(p \<mapsto> h\<lparr>slab_free_index := word_at s (blk p c (unat (slab_free_index h))), in_use := in_use h + 1\<rparr>)\<rparr>"
      using Cons.prems(3) h(1) True t(1) cache_shapeD(2) [OF sh c] by (auto simp: Let_def)
    then show ?thesis using Cons.prems(1) h(3) t by blast
  next
    case False
    then show ?thesis
      using Cons.IH Cons.prems h(1) cache_shapeD(2) [OF sh c] by (simp add: Let_def)
  qed
qed

lemma slab_alloc_spec:
  assumes "slab_inv s" "c < 8" "slab_alloc c s = Some (a, s')"
  obtains p i where "a = blk p c i" "page_aligned p" "i < nobj c" "slab_inv s'" "(c, p, i) \<notin> live s"
    "live s' = insert (c, p, i) (live s)"
  using slab_scan_spec [OF assms(1,2), of "cache_slabs (km_caches s ! c)"] assms(3)
  unfolding slab_alloc_def slab_pages_def by blast

text \<open>The panic on a corrupted free list is unreachable: an allocation fails only when a new slab is
  needed and no frame is free.\<close>

lemma slab_scan_total:
  assumes inv: "slab_inv s" and c: "c < 8" and ps: "set ps \<subseteq> slab_pages s c" and room: "free_frames (frames s) \<noteq> {}"
  shows "\<exists>r. slab_scan c ps s = Some r"
  using ps
proof (induction ps)
  case Nil
  have "pmm_allocate (frames s) \<noteq> None" using room pmm_allocate_None by blast
  then show ?case by (auto simp: slab_new_def Let_def)
next
  case (Cons p ps)
  have sh: "cache_shape s" using inv by (simp add: slab_inv_def)
  have p: "p \<in> slab_pages s c" using Cons.prems by simp
  obtain h where h: "slab_at s p = Some h" using slab_invD [OF inv c p] .
  show ?case
    using Cons.IH Cons.prems h slab_take(1) [OF inv c p h] cache_shapeD(2) [OF sh c]
    by (cases "unat (in_use h) < nobj c") (auto simp: Let_def)
qed

section \<open>Release\<close>

lemma fill_block_frame:
  assumes "page_aligned p" "c < 8" "i < nobj c" "page_aligned q" "d < 8" "j < nobj d"
    and "p \<noteq> q \<or> c = d \<and> i \<noteq> j" "unat bs = bsize c"
  shows "((fill_block (blk p c i) bs w)(blk p c i := x)) (blk q d j) = w (blk q d j)"
proof -
  have "unat (blk q d j) \<notin> {unat (blk p c i)..<unat (blk p c i) + bsize c}"
    using blocks_disjoint [OF assms(1-7)] geometry(1) [OF assms(5)] by fastforce
  moreover have "blk q d j \<noteq> blk p c i" using calculation geometry(1) [OF assms(2)] by auto
  ultimately show ?thesis using assms(8) by (auto simp: fill_block_def word_le_nat_alt)
qed

lemma obj_index:
  assumes "cache_shape s" "c < 8" "page_aligned p" "i < nobj c"
  shows "unat (ucast ((blk p c i - blk p c 0) div ucast (block_size (km_caches s ! c)) :: u64) :: u32) = i"
proof -
  have bs: "unat (ucast (block_size (km_caches s ! c)) :: u64) = bsize c"
    using cache_shapeD(1) [OF assms(1,2)] by (simp add: unat_ucast_up)
  have "0 < nobj c" using assms(4) by simp
  then have "unat (blk p c i - blk p c 0) = bsize c * i"
    using unat_blk [OF assms(3,2)] assms(4) by (subst unat_sub_small) (simp_all add: word_le_nat_alt)
  then have "unat ((blk p c i - blk p c 0) div ucast (block_size (km_caches s ! c))) = i"
    using bs geometry(1) [OF assms(2)] by (simp add: unat_div_distrib)
  then show ?thesis using assms(4) geometry(6) [OF assms(2)] by (subst unat_ucast_down) simp_all
qed

lemma slab_in_use_pos:
  assumes "slab_ok w c p h" "i < nobj c" "i \<notin> set (slab_list w c p h)"
  shows "0 < unat (in_use h)"
proof (rule ccontr)
  assume z: "\<not> 0 < unat (in_use h)"
  have len: "length (follow w p c k f) = k" for k f by (induction k arbitrary: f) auto
  have "card (set (slab_list w c p h)) = nobj c"
    using assms(1) z by (simp add: slab_ok_def distinct_card) (simp add: slab_list_def len)
  then have "set (slab_list w c p h) = {..<nobj c}"
    using assms(1) by (intro card_subset_eq) (simp_all add: slab_ok_def)
  with assms(2,3) show False by simp
qed

lemma slab_free_unfold:
  assumes "cache_shape s" "c < 8" "page_aligned p" "i < nobj c" "slab_at s p = Some h" "slab_ok (word_at s) c p h"
    and "0 < unat (in_use h)"
  shows "slab_free (blk p c i) s = Some (s\<lparr>
    word_at := (fill_block (blk p c i) (block_size (km_caches s ! c)) (word_at s))(blk p c i := slab_free_index h),
    slab_at := (slab_at s)(p \<mapsto> h\<lparr>in_use := in_use h - 1,
      slab_free_index := ucast ((blk p c i - blk p c 0) div ucast (block_size (km_caches s ! c)) :: u64)\<rparr>)\<rparr>)"
proof -
  have "unat (p + sizeof_slab) = unat p + 32"
    using page_room [OF assms(3)] by (subst unat_add_small) (simp_all add: sizeof_slab_def)
  then have "\<not> blk p c i < p + sizeof_slab"
    using geometry(2) [OF assms(2)] by (simp add: word_less_nat_alt unat_blk [OF assms(3,2,4)])
  moreover have "in_use h \<noteq> 0" using assms(7) by auto
  ultimately show ?thesis
    using assms(5,6) page_of_blk(1) [OF assms(3,2,4)]
    by (simp add: slab_free_def Let_def slab_ok_def)
qed

lemma slab_free_spec:
  assumes inv: "slab_inv s" and l: "(c, p, i) \<in> live s"
  obtains s' where "slab_free (blk p c i) s = Some s'" "slab_inv s'" "live s' = live s - {(c, p, i)}"
proof -
  have c: "c < 8" "p \<in> slab_pages s c" and i: "i < nobj c" using l by (simp_all add: live_def)
  have sh: "cache_shape s" using inv by (simp add: slab_inv_def)
  obtain h where h: "slab_at s p = Some h" "slab_ok (word_at s) c p h" "page_aligned p" using slab_invD [OF inv c] .
  have nin: "i \<notin> set (slab_list (word_at s) c p h)" using l h(1) by (simp add: live_def)
  let ?bs = "block_size (km_caches s ! c)"
  define w' where "w' = (fill_block (blk p c i) ?bs (word_at s))(blk p c i := slab_free_index h)"
  define h' where "h' = h\<lparr>in_use := in_use h - 1,
      slab_free_index := ucast ((blk p c i - blk p c 0) div ucast ?bs :: u64)\<rparr>"
  have pos: "0 < unat (in_use h)" using slab_in_use_pos [OF h(2) i nin] .
  have iu: "unat (in_use h - 1) = unat (in_use h) - 1"
    using pos by (subst unat_sub_small) (simp_all add: word_le_nat_alt Suc_le_eq)
  have le: "unat (in_use h) \<le> nobj c" using h(2) by (simp add: slab_ok_def)
  have frame: "w' (blk q d j) = word_at s (blk q d j)"
    if "page_aligned q" "d < 8" "j < nobj d" "p \<noteq> q \<or> c = d \<and> i \<noteq> j" for q d j
    unfolding w'_def using fill_block_frame [OF h(3) c(1) i that] cache_shapeD(1) [OF sh c(1)] by blast
  have same: "follow w' p c (nobj c - unat (in_use h)) (unat (slab_free_index h)) = slab_list (word_at s) c p h"
    unfolding slab_list_def using h(2) nin frame [OF h(3) c(1)]
    by (intro follow_cong) (auto simp: slab_ok_def slab_list_def)
  have k: "nobj c - unat (in_use h') = Suc (nobj c - unat (in_use h))"
    using iu pos le by (simp add: h'_def Suc_diff_le)
  have list: "slab_list w' c p h' = i # slab_list (word_at s) c p h"
    unfolding slab_list_def k using same obj_index [OF sh c(1) h(3) i] by (simp add: h'_def w'_def slab_list_def)
  have ok: "slab_ok w' c p h'"
    using h(2) list nin i iu le by (auto simp: slab_ok_def h'_def)
  note u = slab_update [OF inv c ok]
  have fr: "w' (blk q d j) = word_at s (blk q d j)" if "d < 8" "q \<in> slab_pages s d" "q \<noteq> p" "j < nobj d" for q d j
    using frame [OF _ that(1,4)] slab_invD [OF inv that(1,2)] that(3) by metis
  have "live (s\<lparr>word_at := w', slab_at := (slab_at s)(p \<mapsto> h')\<rparr>) = live s - {(c, p, i)}"
    using u(2) [OF fr] live_same_page [OF inv c h(1)] list by auto
  then show ?thesis
    using that slab_free_unfold [OF sh c(1) h(3) i h(1,2) pos] u(1) [OF fr] unfolding w'_def h'_def by blast
qed

section \<open>kmalloc and kfree\<close>

lemma cache_count: "cache_shape s \<Longrightarrow> length (km_caches s) = 8"
  using arg_cong [where f = length] unfolding cache_shape_def slab_init_simps by fastforce

lemma size_class:
  assumes "cache_shape s" "c < 8"
  shows "(len :: u64) \<le> ucast (block_size (km_caches s ! c)) \<longleftrightarrow> unat len \<le> bsize c"
  using cache_shapeD(1) [OF assms] by (simp add: word_le_nat_alt unat_ucast_up)

lemma kmalloc_class:
  assumes "cache_shape s" "kmalloc len s = Some r"
  obtains c where "c < 8" "unat len \<le> bsize c" "\<forall>d<c. bsize d < unat len" "slab_alloc c s = Some r"
proof -
  obtain c where c: "find (\<lambda>i. len \<le> ucast (block_size (km_caches s ! i))) [0..<length (km_caches s)] = Some c"
    "slab_alloc c s = Some r"
    using assms(2) by (auto simp: kmalloc_def split: option.splits)
  then have "c < 8" "len \<le> ucast (block_size (km_caches s ! c))"
    "\<forall>d<c. \<not> len \<le> ucast (block_size (km_caches s ! d))"
    using cache_count [OF assms(1)] by (auto simp: find_Some_iff)
  moreover have "bsize d < unat len" if "d < c" for d
    using calculation(1,3) that size_class [OF assms(1), of d len] by (metis not_le order.strict_trans)
  ultimately show ?thesis using that c(2) size_class [OF assms(1)] by blast
qed

lemma bsize_mono: "c \<le> 7 \<Longrightarrow> bsize c \<le> 1024"
  using geometry(5) [of c] by simp

text \<open>The initial heap over a frame allocator.\<close>

definition heap_init :: "pmm \<Rightarrow> slab_heap" where
  "heap_init f = \<lparr>km_caches = slab_init, slab_at = \<lambda>_. None, word_at = \<lambda>_. 0, frames = f\<rparr>"

lemma slab_inv_init: "pmm_inv f \<Longrightarrow> slab_inv (heap_init f)"
  by (simp add: slab_inv_def heap_init_def cache_shape_def slab_pages_def slab_init_def km_block_sizes_def
      cache_init_def nth_Cons' less_Suc_eq)

text \<open>C4: kmalloc returns a block of the smallest size class that fits; the block was not in use, it lies
  inside one page behind the slab header, it overlaps no block in use, and the heap invariant is
  kept.\<close>

theorem kmalloc_block:
  assumes "slab_inv s" "kmalloc len s = Some (a, s')"
  shows "\<exists>c p i. a = blk p c i \<and> c < 8 \<and> i < nobj c \<and> unat len \<le> bsize c \<and> (\<forall>d<c. bsize d < unat len) \<and>
    (c, p, i) \<notin> live s \<and> live s' = insert (c, p, i) (live s) \<and> slab_inv s' \<and>
    unat p + 32 \<le> unat a \<and> unat a + bsize c \<le> unat p + 4096 \<and>
    (\<forall>(d, q, j)\<in>live s. {unat a..<unat a + bsize c} \<inter> {unat (blk q d j)..<unat (blk q d j) + bsize d} = {})"
proof -
  have sh: "cache_shape s" using assms(1) by (simp add: slab_inv_def)
  obtain c where c: "c < 8" "unat len \<le> bsize c" "\<forall>d<c. bsize d < unat len" "slab_alloc c s = Some (a, s')"
    by (rule kmalloc_class [OF sh assms(2)])
  obtain p i where pi: "a = blk p c i" "page_aligned p" "i < nobj c" "slab_inv s'" "(c, p, i) \<notin> live s"
    "live s' = insert (c, p, i) (live s)"
    by (rule slab_alloc_spec [OF assms(1) c(1,4)])
  have "{unat a..<unat a + bsize c} \<inter> {unat (blk q d j)..<unat (blk q d j) + bsize d} = {}"
    if "(d, q, j) \<in> live s" for d q j
  proof -
    have q: "d < 8" "q \<in> slab_pages s d" "j < nobj d" using that by (simp_all add: live_def)
    have "(d, q, j) \<in> live s'" "(c, p, i) \<in> live s'" using pi(6) that by auto
    then have "q = p \<Longrightarrow> d = c" using slab_page_cache [OF pi(4)] by (auto simp: live_def)
    moreover have "(d, q, j) \<noteq> (c, p, i)" using that pi(5) by blast
    ultimately show ?thesis
      unfolding pi(1) using slab_invD [OF assms(1) q(1,2)] q by (intro blocks_disjoint [OF pi(2) c(1) pi(3)]) auto
  qed
  moreover have "unat p + 32 \<le> unat a" "unat a + bsize c \<le> unat p + 4096"
    using block_end [OF c(1) pi(3)] geometry(2) [OF c(1)] unat_blk [OF pi(2) c(1) pi(3)] pi(1) by simp_all
  ultimately show ?thesis using c pi by blast
qed

text \<open>A request of at most 1024 bytes succeeds while a page frame is free (the free-list corruption
  panic is unreachable), and a larger one panics.\<close>

lemma kmalloc_total:
  assumes "slab_inv s"
  shows "(unat len \<le> 1024 \<and> free_frames (frames s) \<noteq> {} \<longrightarrow> (\<exists>r. kmalloc len s = Some r)) \<and>
    (1024 < unat len \<longrightarrow> kmalloc len s = None)"
proof -
  have sh: "cache_shape s" using assms by (simp add: slab_inv_def)
  let ?f = "find (\<lambda>i. len \<le> ucast (block_size (km_caches s ! i))) [0..<length (km_caches s)]"
  have "kmalloc len s = None" if "1024 < unat len"
  proof -
    have "?f = None"
      unfolding find_None_all cache_count [OF sh]
    proof (intro ballI)
      fix c assume "c \<in> set [0..<8::nat]"
      then have "c < 8" "bsize c \<le> 1024" using bsize_mono [of c] by auto
      then show "\<not> len \<le> ucast (block_size (km_caches s ! c))" using size_class [OF sh, of c len] that by simp
    qed
    then show ?thesis by (simp add: kmalloc_def)
  qed
  moreover have "\<exists>r. kmalloc len s = Some r" if l: "unat len \<le> 1024" and f: "free_frames (frames s) \<noteq> {}"
  proof -
    have "len \<le> ucast (block_size (km_caches s ! 7))" using size_class [OF sh, of 7] l by (simp add: bsize_def)
    then have "?f \<noteq> None" using cache_count [OF sh] by (auto simp: find_None_all)
    then obtain c where c: "?f = Some c" by auto
    then have "c < 8" using cache_count [OF sh] by (auto simp: find_Some_iff)
    then show ?thesis
      using slab_scan_total [OF assms _ _ f] c by (simp add: kmalloc_def slab_alloc_def slab_pages_def)
  qed
  ultimately show ?thesis by blast
qed

text \<open>C5: Freeing a block that is in use succeeds, makes exactly that block available again and keeps the
  heap invariant; in particular kfree undoes kmalloc.\<close>

theorem kfree_block:
  assumes "slab_inv s" "(c, p, i) \<in> live s"
  shows "\<exists>s'. kfree (blk p c i) s = Some s' \<and> slab_inv s' \<and> live s' = live s - {(c, p, i)}"
  using slab_free_spec [OF assms] unfolding kfree_def by blast

lemma demo_heap: "slab_inv (heap_init demo_pmm)" "live (heap_init demo_pmm) = {}"
proof -
  show "slab_inv (heap_init demo_pmm)" by (rule slab_inv_init [OF demo_inv])
  show "live (heap_init demo_pmm) = {}" by (auto simp: live_def heap_init_def)
qed

lemma demo_alloc:
  "\<exists>p i s'. slab_alloc 4 (heap_init demo_pmm) = Some (blk p 4 i, s') \<and> slab_inv s' \<and> (4, p, i) \<in> live s'"
proof -
  have "free_frames (frames (heap_init demo_pmm)) \<noteq> {}" by (simp add: heap_init_def demo_frames)
  then obtain a s' where a: "slab_alloc 4 (heap_init demo_pmm) = Some (a, s')"
    using slab_scan_total [OF demo_heap(1), of 4 "cache_slabs (km_caches (heap_init demo_pmm) ! 4)"]
    by (auto simp: slab_alloc_def slab_pages_def)
  show ?thesis by (rule slab_alloc_spec [OF demo_heap(1) _ a]) (use a in auto)
qed

lemma demo_kmalloc: "kmalloc 100 (heap_init demo_pmm) = slab_alloc 4 (heap_init demo_pmm)"
proof -
  have "find (\<lambda>i. (100::u64) \<le> ucast (block_size (km_caches (heap_init demo_pmm) ! i)))
      [0..<length (km_caches (heap_init demo_pmm))] = Some 4"
    by (simp add: heap_init_def slab_init_def km_block_sizes_def cache_init_def upt_rec)
  then show ?thesis by (simp add: kmalloc_def)
qed

theorem kmalloc_block_witness:
  "\<exists>c p i s'. kmalloc 100 (heap_init demo_pmm) = Some (blk p c i, s') \<and> live s' = {(c, p, i)} \<and> 100 \<le> bsize c"
proof -
  obtain a s' where a: "kmalloc 100 (heap_init demo_pmm) = Some (a, s')" using demo_alloc demo_kmalloc by auto
  then show ?thesis using kmalloc_block [OF demo_heap(1) a] by (auto simp: demo_heap(2))
qed

theorem kfree_block_witness:
  "\<exists>s p i s'. slab_inv s \<and> (4, p, i) \<in> live s \<and> kfree (blk p 4 i) s = Some s' \<and> (4, p, i) \<notin> live s'"
proof -
  obtain p i s where "slab_inv s" "(4, p, i) \<in> live s" using demo_alloc by blast
  then show ?thesis using kfree_block [of s 4 p i] by blast
qed

end
