(* ===== verification/Page_Table.thy ===== *)
theory Page_Table
  imports Pmm
begin

text \<open>
  The four-level page tables of \<^verbatim>\<open>arch/x86_64/mmu.c\<close>.  The memory of the tables is a map from the
  (direct-map) address of a table and an index to a 64-bit entry; table pages come from the frame
  allocator.  A null table pointer is \<^term>\<open>None\<close>, so that dereferencing one is the failure of the
  enclosing call, as the panic of the frame allocator is.

  The correctness argument is by paths: a table is reached from the root by a list of at most three
  indices, and the invariant says that two different paths never reach the same table.
\<close>

section \<open>Constants\<close>

definition PTE_PRESENT :: u64 where "PTE_PRESENT = 2 ^ 0"
definition PTE_WRITABLE :: u64 where "PTE_WRITABLE = 2 ^ 1"
definition PTE_USER :: u64 where "PTE_USER = 2 ^ 2"
definition PTE_WRITECOMBINING :: u64 where "PTE_WRITECOMBINING = 2 ^ 3"
definition PTE_CACHE_DISABLE :: u64 where "PTE_CACHE_DISABLE = 2 ^ 4"
definition PTE_OWNER :: u64 where "PTE_OWNER = 2 ^ 9"
definition PTE_NOEXEC :: u64 where "PTE_NOEXEC = 0x8000000000000000"

definition PROT_READ :: u32 where "PROT_READ = 1"
definition PROT_WRITE :: u32 where "PROT_WRITE = 2"
definition PROT_EXEC :: u32 where "PROT_EXEC = 4"
definition PROT_USER :: u32 where "PROT_USER = 8"
definition PROT_UNCACHED :: u32 where "PROT_UNCACHED = 16"
definition PROT_WRITECOMBINE :: u32 where "PROT_WRITECOMBINE = 32"
definition VM_FLAG_OWNER :: u32 where "VM_FLAG_OWNER = 16"

definition page_mask_4K :: u64 where "page_mask_4K = 0xfff0fffffffff000"

section \<open>State and operations\<close>

record mmu =
  entry_at :: "virtaddr \<Rightarrow> nat \<Rightarrow> u64"
  mmu_frames :: pmm

definition get_pagetable_index :: "virtaddr \<Rightarrow> nat \<Rightarrow> nat" where
  "get_pagetable_index address level =
     (let shift = 12 + (level - 1) * 9 in unat (drop_bit shift (address AND push_bit shift 0x1ff)))"

definition addr_to_pagenum :: "u64 \<Rightarrow> u64" where "addr_to_pagenum address = drop_bit 12 address"
definition pagenum_to_addr :: "u64 \<Rightarrow> virtaddr" where "pagenum_to_addr pagenum = push_bit 12 pagenum"

definition pte_address :: "u64 \<Rightarrow> physaddr" where
  "pte_address raw = raw AND 0x000ffffffffff000"

definition get_pte :: "mmu \<Rightarrow> virtaddr \<Rightarrow> nat \<Rightarrow> virtaddr option" where
  "get_pte m table entry =
     (let raw = entry_at m table entry
      in if raw AND PTE_PRESENT \<noteq> 0 \<and> pte_address raw \<noteq> 0 then Some (pte_address raw + VM_DMAP_BASE) else None)"

definition set_entry :: "virtaddr \<Rightarrow> nat \<Rightarrow> u64 \<Rightarrow> mmu \<Rightarrow> mmu" where
  "set_entry table i raw m = m\<lparr>entry_at := (entry_at m)(table := (entry_at m table)(i := raw))\<rparr>"

definition zero_table :: "virtaddr \<Rightarrow> mmu \<Rightarrow> mmu" where
  "zero_table table m = m\<lparr>entry_at := (entry_at m)(table := (\<lambda>_. 0))\<rparr>"

definition create_pte :: "virtaddr \<Rightarrow> nat \<Rightarrow> u64 \<Rightarrow> mmu \<Rightarrow> (virtaddr \<times> mmu) option" where
  "create_pte table entry flags m = do {
     (pt_phys, f) \<leftarrow> pmm_allocate (mmu_frames m);
     let pt = pt_phys + VM_DMAP_BASE;
         m1 = zero_table pt (m\<lparr>mmu_frames := f\<rparr>)
     in Some (pt, set_entry table entry ((pt_phys AND page_mask_4K) OR flags OR PTE_PRESENT) m1)
   }"

definition get_or_create_pte :: "virtaddr \<Rightarrow> nat \<Rightarrow> u64 \<Rightarrow> mmu \<Rightarrow> (virtaddr \<times> mmu) option" where
  "get_or_create_pte table entry flags m =
     (case get_pte m table entry of Some pte \<Rightarrow> Some (pte, m) | None \<Rightarrow> create_pte table entry flags m)"

definition secflags :: u64 where "secflags = PTE_WRITABLE OR PTE_USER"

definition convert_vm_params :: "u32 \<Rightarrow> u32 \<Rightarrow> u64" where
  "convert_vm_params prot flags =
     (if prot AND PROT_READ \<noteq> 0 then PTE_PRESENT else 0) OR
     (if prot AND PROT_WRITE \<noteq> 0 then PTE_WRITABLE else 0) OR
     (if prot AND PROT_EXEC = 0 then PTE_NOEXEC else 0) OR
     (if prot AND PROT_USER \<noteq> 0 then PTE_USER else 0) OR
     (if prot AND PROT_UNCACHED \<noteq> 0 then PTE_CACHE_DISABLE else 0) OR
     (if prot AND PROT_WRITECOMBINE \<noteq> 0 then PTE_WRITECOMBINING else 0) OR
     (if flags AND VM_FLAG_OWNER \<noteq> 0 then PTE_OWNER else 0)"

definition mmu_map :: "virtaddr \<Rightarrow> physaddr \<Rightarrow> virtaddr \<Rightarrow> u32 \<Rightarrow> u32 \<Rightarrow> mmu \<Rightarrow> mmu option" where
  "mmu_map table phys virt prot flags m = do {
     (pdpt, m) \<leftarrow> get_or_create_pte table (get_pagetable_index virt 4) secflags m;
     (pd, m) \<leftarrow> get_or_create_pte pdpt (get_pagetable_index virt 3) secflags m;
     (pt, m) \<leftarrow> get_or_create_pte pd (get_pagetable_index virt 2) secflags m;
     Some (set_entry pt (get_pagetable_index virt 1) ((phys AND page_mask_4K) OR convert_vm_params prot flags) m)
   }"

function mmu_map_range :: "virtaddr \<Rightarrow> physaddr \<Rightarrow> virtaddr \<Rightarrow> u64 \<Rightarrow> u32 \<Rightarrow> u32 \<Rightarrow> mmu \<Rightarrow> mmu option" where
  "mmu_map_range table phys virt len prot flags m =
     (if 0 < len then do {
        m \<leftarrow> mmu_map table phys virt prot flags m;
        if len \<le> CONFIG_PAGE_SIZE then Some m
        else mmu_map_range table (phys + CONFIG_PAGE_SIZE) (virt + CONFIG_PAGE_SIZE) (len - CONFIG_PAGE_SIZE) prot flags m
      } else Some m)"
  by pat_completeness auto
termination
  by (relation "measure (\<lambda>(_, _, _, len, _). unat len)")
     (auto simp: unat_sub_small page_size_simps word_le_nat_alt)

declare mmu_map_range.simps [simp del]

definition mmu_unmap :: "virtaddr \<Rightarrow> virtaddr \<Rightarrow> mmu \<Rightarrow> mmu option" where
  "mmu_unmap table virt m = do {
     pdpt \<leftarrow> get_pte m table (get_pagetable_index virt 4);
     pd \<leftarrow> get_pte m pdpt (get_pagetable_index virt 3);
     pt \<leftarrow> get_pte m pd (get_pagetable_index virt 2);
     Some (set_entry pt (get_pagetable_index virt 1) 0 m)
   }"

text \<open>The pages a TLB invalidation names, in order.  The loop ends when the length reaches zero
  exactly; \<^term>\<open>None\<close> is a loop that never ends.\<close>

partial_function (option) mmu_invalidate :: "virtaddr \<Rightarrow> u64 \<Rightarrow> virtaddr list option" where
  "mmu_invalidate virt len =
     (if len = 0 then Some []
      else do {
        vs \<leftarrow> mmu_invalidate (virt + CONFIG_PAGE_SIZE) (len - CONFIG_PAGE_SIZE);
        Some (virt # vs)
      })"

record vm_mapping =
  mapping_base :: physaddr
  mapping_prot :: u32
  mapping_flags :: u32
  present :: bool

definition no_mapping :: vm_mapping where
  "no_mapping = \<lparr>mapping_base = 0, mapping_prot = 0, mapping_flags = 0, present = False\<rparr>"

definition decode_entry :: "u64 \<Rightarrow> vm_mapping" where
  "decode_entry entry =
     \<lparr>mapping_base = pte_address entry,
      mapping_prot =
        (if entry AND PTE_PRESENT \<noteq> 0 then PROT_READ else 0) OR
        (if entry AND PTE_WRITABLE \<noteq> 0 then PROT_WRITE else 0) OR
        (if entry AND PTE_NOEXEC = 0 then PROT_EXEC else 0) OR
        (if entry AND PTE_USER \<noteq> 0 then PROT_USER else 0) OR
        (if entry AND PTE_CACHE_DISABLE \<noteq> 0 then PROT_UNCACHED else 0) OR
        (if entry AND PTE_WRITECOMBINING \<noteq> 0 then PROT_WRITECOMBINE else 0),
      mapping_flags = (if entry AND PTE_OWNER \<noteq> 0 then VM_FLAG_OWNER else 0),
      present = (entry AND PTE_PRESENT \<noteq> 0)\<rparr>"

definition mmu_get_phys :: "mmu \<Rightarrow> virtaddr \<Rightarrow> virtaddr \<Rightarrow> vm_mapping" where
  "mmu_get_phys m table virt =
     (case get_pte m table (get_pagetable_index virt 4) of None \<Rightarrow> no_mapping
      | Some pdpt \<Rightarrow>
     (case get_pte m pdpt (get_pagetable_index virt 3) of None \<Rightarrow> no_mapping
      | Some pd \<Rightarrow>
     (case get_pte m pd (get_pagetable_index virt 2) of None \<Rightarrow> no_mapping
      | Some pt \<Rightarrow> decode_entry (entry_at m pt (get_pagetable_index virt 1)))))"

definition mmu_new_pgdir :: "mmu \<Rightarrow> (virtaddr \<times> mmu) option" where
  "mmu_new_pgdir m = do {
     (phys, f) \<leftarrow> pmm_allocate (mmu_frames m);
     Some (phys + VM_DMAP_BASE, zero_table (phys + VM_DMAP_BASE) (m\<lparr>mmu_frames := f\<rparr>))
   }"

definition mmu_clone :: "virtaddr \<Rightarrow> virtaddr \<Rightarrow> u32 \<Rightarrow> mmu \<Rightarrow> mmu" where
  "mmu_clone source dest prot m =
     (let start = (if prot AND PROT_USER \<noteq> 0 then 0 else 256)
      in fold (\<lambda>i m. set_entry dest i (entry_at m source i) m) [start..<512] m)"

text \<open>The three nested loops of \<^verbatim>\<open>mmu_destroy\<close>, one level per value of the depth: the tables below
  a present entry are released before the entry's own table is, and the entry is cleared.\<close>

definition entry_present :: "mmu \<Rightarrow> virtaddr \<Rightarrow> nat \<Rightarrow> bool" where
  "entry_present m t i \<longleftrightarrow> entry_at m t i AND PTE_PRESENT \<noteq> 0"

definition release_entry :: "virtaddr \<Rightarrow> nat \<Rightarrow> mmu \<Rightarrow> mmu option" where
  "release_entry t i m = do {
     f \<leftarrow> pmm_free (pte_address (entry_at m t i)) (mmu_frames m);
     Some (set_entry t i 0 (m\<lparr>mmu_frames := f\<rparr>))
   }"

fun fold_option :: "('a \<Rightarrow> 's \<Rightarrow> 's option) \<Rightarrow> 'a list \<Rightarrow> 's \<Rightarrow> 's option" where
  "fold_option f [] s = Some s"
| "fold_option f (x # xs) s = do { s \<leftarrow> f x s; fold_option f xs s }"

fun destroy_entries :: "nat \<Rightarrow> virtaddr \<Rightarrow> nat list \<Rightarrow> mmu \<Rightarrow> mmu option" where
  "destroy_entries 0 t is m = Some m"
| "destroy_entries (Suc d) t is m = fold_option (\<lambda>i m.
     if entry_present m t i then do {
       m \<leftarrow> destroy_entries d (pte_address (entry_at m t i) + VM_DMAP_BASE) [0..<512] m;
       release_entry t i m
     } else Some m) is m"

definition mmu_destroy :: "virtaddr \<Rightarrow> mmu \<Rightarrow> mmu option" where
  "mmu_destroy root m = do {
     m \<leftarrow> destroy_entries 3 root [0..<256] m;
     f \<leftarrow> pmm_free (root - VM_DMAP_BASE) (mmu_frames m);
     Some (m\<lparr>mmu_frames := f\<rparr>)
   }"

section \<open>Entries and their bits\<close>

lemma test_bit: "(w :: 'a::len word) AND 2 ^ n \<noteq> 0 \<longleftrightarrow> bit w n" "w AND 2 ^ n = 0 \<longleftrightarrow> \<not> bit w n"
  by (simp_all add: and_exp_eq_0_iff_not_bit)

lemma pte_bits:
  "PTE_PRESENT = 2 ^ 0" "PTE_WRITABLE = 2 ^ 1" "PTE_USER = 2 ^ 2" "PTE_WRITECOMBINING = 2 ^ 3"
  "PTE_CACHE_DISABLE = 2 ^ 4" "PTE_OWNER = 2 ^ 9" "PTE_NOEXEC = 2 ^ 63"
  by (simp_all add: PTE_PRESENT_def PTE_WRITABLE_def PTE_USER_def PTE_WRITECOMBINING_def
      PTE_CACHE_DISABLE_def PTE_OWNER_def PTE_NOEXEC_def)

lemma prot_bits:
  "PROT_READ = 2 ^ 0" "PROT_WRITE = 2 ^ 1" "PROT_EXEC = 2 ^ 2" "PROT_USER = 2 ^ 3"
  "PROT_UNCACHED = 2 ^ 4" "PROT_WRITECOMBINE = 2 ^ 5" "VM_FLAG_OWNER = 2 ^ 4"
  by (simp_all add: PROT_READ_def PROT_WRITE_def PROT_EXEC_def PROT_USER_def PROT_UNCACHED_def
      PROT_WRITECOMBINE_def VM_FLAG_OWNER_def)

lemma bit_if_exp: "k < LENGTH('a) \<Longrightarrow> bit (if c then 2 ^ k else (0 :: 'a::len word)) n \<longleftrightarrow> c \<and> n = k"
  by (simp add: bit_single_iff)

lemma bit_convert_vm_params:
  "bit (convert_vm_params prot flags) n \<longleftrightarrow>
     bit prot 0 \<and> n = 0 \<or> bit prot 1 \<and> n = 1 \<or> \<not> bit prot 2 \<and> n = 63 \<or> bit prot 3 \<and> n = 2 \<or>
     bit prot 4 \<and> n = 4 \<or> bit prot 5 \<and> n = 3 \<or> bit flags 4 \<and> n = 9"
  unfolding convert_vm_params_def pte_bits prot_bits test_bit bit_or_iff
  by (subst bit_if_exp, simp)+ simp

text \<open>The mask that keeps the address bits of an entry, and the mask \<^verbatim>\<open>page_mask_4K\<close>, which also
  keeps the upper twelve bits but drops bits 48 to 51.\<close>

lemma bit_pte_address: "bit (pte_address raw) n \<longleftrightarrow> 12 \<le> n \<and> n < 52 \<and> bit raw n"
proof -
  have eq: "(0x000ffffffffff000 :: u64) = mask 52 AND NOT (mask 12)"
    by (simp add: mask_eq_exp_minus_1)
  show ?thesis
    unfolding pte_address_def eq
    by (auto simp: bit_and_iff bit_not_iff bit_mask_iff dest: bit_imp_le_length)
qed

lemma bit_page_mask: "bit page_mask_4K n \<longleftrightarrow> 12 \<le> n \<and> n < 48 \<or> 52 \<le> n \<and> n < 64"
proof -
  have eq: "page_mask_4K = (mask 48 AND NOT (mask 12)) OR NOT (mask 52)"
    by (simp add: page_mask_4K_def mask_eq_exp_minus_1)
  show ?thesis unfolding eq by (auto simp: bit_and_iff bit_not_iff bit_or_iff bit_mask_iff)
qed

lemma low_bits: "unat (w :: u64) < 2 ^ 48 \<Longrightarrow> bit w n \<Longrightarrow> n < 48"
proof (rule ccontr)
  assume w: "unat w < 2 ^ 48" and b: "bit w n" "\<not> n < 48"
  have "bit (unat w) n" using b(1) by (simp add: bit_unsigned_iff)
  then have "(2::nat) ^ n \<le> unat w" by (metis bit_iff_odd div_less even_zero not_le)
  moreover have "(2::nat) ^ 48 \<le> 2 ^ n" using b(2) by (intro power_increasing) auto
  ultimately show False using w by linarith
qed

text \<open>An entry written for a table or a page decodes to what was written.\<close>

lemma pte_address_entry:
  assumes "unat ph < 2 ^ 48" "\<And>n. 12 \<le> n \<Longrightarrow> n < 52 \<Longrightarrow> \<not> bit fl n"
  shows "pte_address ((ph AND page_mask_4K) OR fl) = ph AND NOT (mask 12)"
  using assms(2)
  by (intro bit_word_eqI)
     (auto simp: bit_pte_address bit_or_iff bit_and_iff bit_page_mask bit_not_iff bit_mask_iff
       dest: low_bits [OF assms(1)])

lemma decode_page:
  assumes "unat ph < 2 ^ 48"
  shows "decode_entry ((ph AND page_mask_4K) OR convert_vm_params prot flags) =
    \<lparr>mapping_base = ph AND NOT (mask 12), mapping_prot = prot AND mask 6,
     mapping_flags = flags AND VM_FLAG_OWNER, present = bit prot 0\<rparr>"
proof -
  let ?e = "(ph AND page_mask_4K) OR convert_vm_params prot flags"
  have hi: "\<not> bit (ph AND page_mask_4K) n" if "n < 12 \<or> 48 \<le> n" for n
    using that by (auto simp: bit_and_iff bit_page_mask dest: low_bits [OF assms])
  have e: "bit ?e n \<longleftrightarrow> bit (convert_vm_params prot flags) n" if "n < 12 \<or> 48 \<le> n" for n
    using hi [OF that] by (simp add: bit_or_iff)
  have b: "bit ?e 0 = bit prot 0" "bit ?e 1 = bit prot 1" "bit ?e 63 = (\<not> bit prot 2)" "bit ?e 2 = bit prot 3"
    "bit ?e 4 = bit prot 4" "bit ?e 3 = bit prot 5" "bit ?e 9 = bit flags 4"
    by (simp_all add: e bit_convert_vm_params)
  have "pte_address ?e = ph AND NOT (mask 12)"
    by (rule pte_address_entry [OF assms]) (auto simp: bit_convert_vm_params)
  moreover have "(if bit prot 0 then 2 ^ 0 else 0) OR (if bit prot 1 then 2 ^ 1 else 0) OR
      (if \<not> \<not> bit prot 2 then 2 ^ 2 else 0) OR (if bit prot 3 then 2 ^ 3 else 0) OR
      (if bit prot 4 then 2 ^ 4 else 0) OR (if bit prot 5 then 2 ^ 5 else (0::u32)) = prot AND mask 6"
  proof (rule bit_word_eqI)
    fix n
    have "n < 6 \<longleftrightarrow> n = 0 \<or> n = 1 \<or> n = 2 \<or> n = 3 \<or> n = 4 \<or> n = (5::nat)" by auto
    then show "bit ((if bit prot 0 then 2 ^ 0 else 0) OR (if bit prot 1 then 2 ^ 1 else 0) OR
      (if \<not> \<not> bit prot 2 then 2 ^ 2 else 0) OR (if bit prot 3 then 2 ^ 3 else 0) OR
      (if bit prot 4 then 2 ^ 4 else 0) OR (if bit prot 5 then 2 ^ 5 else (0::u32))) n = bit (prot AND mask 6) n"
      unfolding bit_or_iff by (subst bit_if_exp, simp)+ (auto simp: bit_and_iff bit_mask_iff)
  qed
  moreover have "(if bit flags 4 then 2 ^ 4 else 0) = flags AND 2 ^ 4"
    by (rule bit_word_eqI, unfold bit_and_iff, (subst bit_if_exp bit_single_iff, simp)+) blast
  ultimately show ?thesis
    unfolding decode_entry_def pte_bits prot_bits test_bit b by simp
qed

section \<open>Paths through the tables\<close>

fun table_at :: "mmu \<Rightarrow> virtaddr \<Rightarrow> nat list \<Rightarrow> virtaddr option" where
  "table_at m root [] = Some root"
| "table_at m root (i # p) = do { t \<leftarrow> table_at m root p; get_pte m t i }"

abbreviation valid_path :: "nat list \<Rightarrow> bool" where
  "valid_path p \<equiv> length p \<le> 3 \<and> set p \<subseteq> {..<512}"

definition frames_ok :: "pmm \<Rightarrow> bool" where
  "frames_ok f \<longleftrightarrow> pmm_inv f \<and> (\<forall>a\<in>free_pages f. a \<noteq> 0 \<and> unat a < 2 ^ 48)"

definition pt_inv :: "mmu \<Rightarrow> virtaddr \<Rightarrow> bool" where
  "pt_inv m root \<longleftrightarrow> frames_ok (mmu_frames m) \<and>
     (\<forall>p t. valid_path p \<longrightarrow> table_at m root p = Some t \<longrightarrow> t - VM_DMAP_BASE \<notin> free_pages (mmu_frames m)) \<and>
     (\<forall>p q t. valid_path p \<longrightarrow> valid_path q \<longrightarrow> table_at m root p = Some t \<longrightarrow> table_at m root q = Some t \<longrightarrow> p = q)"

lemma pt_inv_unique:
  "\<lbrakk>pt_inv m root; valid_path p; valid_path q; table_at m root p = Some t; table_at m root q = Some t\<rbrakk> \<Longrightarrow> p = q"
  unfolding pt_inv_def by blast

lemma pt_inv_used:
  "\<lbrakk>pt_inv m root; valid_path p; table_at m root p = Some t\<rbrakk> \<Longrightarrow> t - VM_DMAP_BASE \<notin> free_pages (mmu_frames m)"
  unfolding pt_inv_def by blast

lemma frame_addr_page: "frame_addr f AND NOT (mask 12) = frame_addr f"
proof -
  have "bit (frame_addr f) n \<Longrightarrow> 12 \<le> n" for n
    unfolding frame_addr_def CONFIG_PAGE_SIZE_def
    using bit_push_bit_iff [of 12 "of_nat f :: u64" n] by (simp add: push_bit_eq_mult)
  then show ?thesis
    by (intro bit_word_eqI) (auto simp: bit_and_iff bit_not_iff bit_mask_iff not_less dest: bit_imp_le_length)
qed

text \<open>A fresh table page and the entry that points to it.\<close>

lemma fresh_table:
  assumes "frames_ok f" "pmm_allocate f = Some (ph, f')"
  shows "frames_ok f'" "ph \<in> free_pages f" "free_pages f' = free_pages f - {ph}"
    "pte_address ((ph AND page_mask_4K) OR secflags OR PTE_PRESENT) = ph" "ph \<noteq> 0"
    "((ph AND page_mask_4K) OR secflags OR PTE_PRESENT) AND PTE_PRESENT \<noteq> 0"
proof -
  have inv: "pmm_inv f" using assms(1) by (simp add: frames_ok_def)
  note l = pmm_pages.alloc_law [OF inv assms(2)]
  show "ph \<in> free_pages f" "free_pages f' = free_pages f - {ph}" using l by simp_all
  show "frames_ok f'" using assms(1) l by (auto simp: frames_ok_def)
  show "ph \<noteq> 0" using assms(1) l by (auto simp: frames_ok_def)
  have "unat ph < 2 ^ 48" using assms(1) l by (auto simp: frames_ok_def)
  moreover have "\<not> bit (secflags OR PTE_PRESENT) n" if "12 \<le> n" for n
    unfolding secflags_def pte_bits bit_or_iff by (subst bit_single_iff, simp)+ (use that in simp)
  ultimately show "pte_address ((ph AND page_mask_4K) OR secflags OR PTE_PRESENT) = ph"
    using pte_address_entry [of ph "secflags OR PTE_PRESENT"] frame_addr_page pmm_allocate_Some(1) [OF assms(2)]
    by (simp add: or.assoc)
  show "((ph AND page_mask_4K) OR secflags OR PTE_PRESENT) AND PTE_PRESENT \<noteq> 0"
    unfolding pte_bits(1) test_bit bit_or_iff by simp
qed

definition grown :: "mmu \<Rightarrow> virtaddr \<Rightarrow> nat list \<Rightarrow> virtaddr \<Rightarrow> mmu \<Rightarrow> bool" where
  "grown m root p n m' \<longleftrightarrow> table_at m root p = None \<and>
     (\<forall>q. valid_path q \<longrightarrow> table_at m' root q = (if q = p then Some n else table_at m root q)) \<and>
     (\<forall>q t. length q = 3 \<longrightarrow> valid_path q \<longrightarrow> table_at m root q = Some t \<longrightarrow> entry_at m' t = entry_at m t) \<and>
     entry_at m' n = (\<lambda>_. 0)"

lemma get_pte_other: "entry_at m' t = entry_at m t \<Longrightarrow> get_pte m' t i = get_pte m t i"
  by (simp add: get_pte_def)

lemma create_pte_table:
  assumes inv: "pt_inv m root" and p: "length p < 3" "set p \<subseteq> {..<512}" "i < 512"
    and t: "table_at m root p = Some t" and none: "get_pte m t i = None"
    and cr: "create_pte t i secflags m = Some (n, m')"
  shows "grown m root (i # p) n m'" "pt_inv m' root"
proof -
  obtain ph f where al: "pmm_allocate (mmu_frames m) = Some (ph, f)"
    using cr by (cases "pmm_allocate (mmu_frames m)") (auto simp: create_pte_def)
  let ?e = "(ph AND page_mask_4K) OR secflags OR PTE_PRESENT"
  have fr: "frames_ok (mmu_frames m)" using inv by (simp add: pt_inv_def)
  note fresh = fresh_table [OF fr al]
  have n: "n = ph + VM_DMAP_BASE" and f: "mmu_frames m' = f"
    and e: "entry_at m' = (entry_at m)(n := (\<lambda>_. 0), t := (((entry_at m)(n := (\<lambda>_. 0))) t)(i := ?e))"
    using cr al by (auto simp: create_pte_def set_entry_def zero_table_def Let_def)
  have notn: "u \<noteq> n" if "valid_path q" "table_at m root q = Some u" for q u
    using pt_inv_used [OF inv that] fresh(2) n by auto
  have tn: "t \<noteq> n" using notn [of p t] p t by simp
  have new: "get_pte m' t i = Some n" using e tn fresh(4-6) n by (simp add: get_pte_def Let_def)
  have zero: "entry_at m' n = (\<lambda>_. 0)" using e tn by simp
  have none': "table_at m root (i # p) = None" using t none by simp
  have at: "table_at m' root q = (if q = i # p then Some n else table_at m root q)" if "valid_path q" for q
    using that
  proof (induction q)
    case (Cons j q)
    then have IH: "table_at m' root q = (if q = i # p then Some n else table_at m root q)" and vq: "valid_path q" by auto
    show ?case
    proof (cases "q = i # p")
      case True
      then show ?thesis using IH none' zero by (auto simp: get_pte_def PTE_PRESENT_def)
    next
      case False
      show ?thesis
      proof (cases "table_at m root q")
        case (Some u)
        have un: "u \<noteq> n" using notn vq Some by blast
        show ?thesis
        proof (cases "u = t")
          case True
          then have "q = p" using pt_inv_unique [OF inv vq _ Some] t p by auto
          then show ?thesis using IH False Some True new e un by (auto simp: get_pte_def)
        next
          case ut: False
          then have "j # q \<noteq> i # p" using Some t by auto
          then show ?thesis using IH False Some ut un e by (auto simp: get_pte_def)
        qed
      qed (use IH False t in auto)
    qed
  qed simp
  have same: "entry_at m' u = entry_at m u" if "length q = 3" "valid_path q" "table_at m root q = Some u" for q u
    using e notn [OF that(2,3)] pt_inv_unique [OF inv that(2) _ that(3), of p] t p that(1) by auto
  show "grown m root (i # p) n m'" unfolding grown_def using none' at same zero by blast
  have vip: "valid_path (i # p)" using p by simp
  show "pt_inv m' root" unfolding pt_inv_def f
  proof (intro conjI allI impI)
    show "frames_ok f" by (rule fresh(1))
    fix q u assume q: "valid_path q" "table_at m' root q = Some u"
    then show "u - VM_DMAP_BASE \<notin> free_pages f"
      using at [OF q(1)] pt_inv_used [OF inv q(1), of u] fresh(3) n by (auto split: if_splits)
    fix q' assume q': "valid_path q'" "table_at m' root q' = Some u"
    show "q = q'"
      using q q' at [OF q(1)] at [OF q'(1)] notn pt_inv_unique [OF inv q(1) q'(1), of u]
      by (auto split: if_splits)
  qed
qed

section \<open>Virtual page numbers\<close>

definition vpn :: "virtaddr \<Rightarrow> nat" where
  "vpn va = unat va div 4096 mod 2 ^ 36"

lemma pagetable_index_nat: "get_pagetable_index va l = unat va div 2 ^ (12 + (l - 1) * 9) mod 512"
proof -
  let ?s = "12 + (l - 1) * 9"
  have m: "(0x1ff :: u64) = mask 9" by (simp add: mask_eq_exp_minus_1)
  have "drop_bit ?s (va AND push_bit ?s (mask 9)) = take_bit 9 (drop_bit ?s va)"
    by (rule bit_word_eqI)
       (auto simp: bit_drop_bit_eq bit_and_iff bit_push_bit_iff bit_mask_iff bit_take_bit_iff dest: bit_imp_le_length)
  then have "get_pagetable_index va l = unat (take_bit 9 (drop_bit ?s va))"
    unfolding get_pagetable_index_def m Let_def by (simp only:)
  then show ?thesis
    by (simp only: unsigned_take_bit_eq unat_drop_bit_eq take_bit_eq_mod [where 'a = nat]
        drop_bit_eq_div [where 'a = nat]) simp
qed

lemma pagetable_index_less: "get_pagetable_index va l < 512"
  by (simp add: pagetable_index_nat)

lemma pagetable_index_vpn:
  "get_pagetable_index va 1 = vpn va mod 512" "get_pagetable_index va 2 = vpn va div 512 mod 512"
  "get_pagetable_index va 3 = vpn va div 512 div 512 mod 512" "get_pagetable_index va 4 = vpn va div 512 div 512 div 512"
proof -
  define x where "x = unat va div 4096"
  have i: "get_pagetable_index va 1 = x mod 512" "get_pagetable_index va 2 = x div 512 mod 512"
    "get_pagetable_index va 3 = x div 512 div 512 mod 512" "get_pagetable_index va 4 = x div 512 div 512 div 512 mod 512"
    unfolding pagetable_index_nat x_def by (simp_all add: div_mult2_eq [symmetric])
  have v: "vpn va = x mod (512 * (512 * (512 * 512)))" by (simp add: vpn_def x_def)
  have r: "a mod (512 * b) mod 512 = a mod 512" "a mod (512 * b) div 512 = a div 512 mod b" for a b :: nat
    by (simp_all add: mod_mult2_eq)
  show "get_pagetable_index va 1 = vpn va mod 512" "get_pagetable_index va 2 = vpn va div 512 mod 512"
    "get_pagetable_index va 3 = vpn va div 512 div 512 mod 512" "get_pagetable_index va 4 = vpn va div 512 div 512 div 512"
    unfolding i v r by simp_all
qed

definition path :: "virtaddr \<Rightarrow> nat list" where
  "path va = [get_pagetable_index va 2, get_pagetable_index va 3, get_pagetable_index va 4]"

lemma path_valid: "valid_path (path va)"
  by (simp add: path_def pagetable_index_less)

lemma path_length: "length (path va) = 3"
  by (simp add: path_def)

lemma path_eq_iff:
  "path va = path va' \<and> get_pagetable_index va 1 = get_pagetable_index va' 1 \<longleftrightarrow> vpn va = vpn va'"
  (is "?L \<longleftrightarrow> ?R")
proof
  assume ?L
  then have d: "vpn va div 512 div 512 div 512 = vpn va' div 512 div 512 div 512"
    "vpn va div 512 div 512 mod 512 = vpn va' div 512 div 512 mod 512"
    "vpn va div 512 mod 512 = vpn va' div 512 mod 512" "vpn va mod 512 = vpn va' mod 512"
    by (simp_all add: path_def pagetable_index_vpn del: One_nat_def)
  then have "vpn va div 512 div 512 = vpn va' div 512 div 512" by (metis same_index_iff)
  with d(3) have "vpn va div 512 = vpn va' div 512" by (metis same_index_iff)
  with d(4) show ?R by (metis same_index_iff)
qed (simp add: path_def pagetable_index_vpn del: One_nat_def)

section \<open>Translation\<close>

definition leaf :: "mmu \<Rightarrow> virtaddr \<Rightarrow> virtaddr \<Rightarrow> u64 option" where
  "leaf m root va = do { t \<leftarrow> table_at m root (path va); Some (entry_at m t (get_pagetable_index va 1)) }"

definition translate :: "mmu \<Rightarrow> virtaddr \<Rightarrow> virtaddr \<Rightarrow> (physaddr \<times> u32 \<times> u32) option" where
  "translate m root va = (let g = mmu_get_phys m root va
     in if present g then Some (mapping_base g, mapping_prot g, mapping_flags g) else None)"

lemma mmu_get_phys_leaf:
  "mmu_get_phys m root va = (case leaf m root va of None \<Rightarrow> no_mapping | Some e \<Rightarrow> decode_entry e)"
  by (simp add: mmu_get_phys_def leaf_def path_def split: option.split)

lemma decode_zero: "\<not> present (decode_entry 0)"
  by (simp add: decode_entry_def)

definition extends :: "mmu \<Rightarrow> virtaddr \<Rightarrow> mmu \<Rightarrow> bool" where
  "extends m root m' \<longleftrightarrow>
     (\<forall>q t. valid_path q \<longrightarrow> table_at m root q = Some t \<longrightarrow>
        table_at m' root q = Some t \<and> (length q = 3 \<longrightarrow> entry_at m' t = entry_at m t)) \<and>
     (\<forall>q t. valid_path q \<longrightarrow> length q = 3 \<longrightarrow> table_at m root q = None \<longrightarrow> table_at m' root q = Some t \<longrightarrow>
        entry_at m' t = (\<lambda>_. 0))"

lemma extends_refl: "extends m root m"
  by (simp add: extends_def)

lemma extends_trans: "\<lbrakk>extends m root m'; extends m' root m''\<rbrakk> \<Longrightarrow> extends m root m''"
  unfolding extends_def by (metis not_Some_eq)

lemma grown_extends: "grown m root p n m' \<Longrightarrow> extends m root m'"
  unfolding grown_def extends_def by (metis option.distinct(1) option.inject)

lemma grown_at: "\<lbrakk>grown m root p n m'; valid_path p\<rbrakk> \<Longrightarrow> table_at m' root p = Some n"
  by (simp add: grown_def)

lemma get_or_create_table:
  assumes "pt_inv m root" "length p < 3" "set p \<subseteq> {..<512}" "i < 512" "table_at m root p = Some t"
    and "get_or_create_pte t i secflags m = Some (n, m')"
  shows "extends m root m'" "pt_inv m' root" "table_at m' root (i # p) = Some n"
proof -
  have "extends m root m' \<and> pt_inv m' root \<and> table_at m' root (i # p) = Some n"
  proof (cases "get_pte m t i")
    case None
    then have cr: "create_pte t i secflags m = Some (n, m')" using assms(6) by (simp add: get_or_create_pte_def)
    note c = create_pte_table [OF assms(1-5) None cr]
    have "valid_path (i # p)" using assms(2-4) by simp
    then show ?thesis using c(2) grown_extends [OF c(1)] grown_at [OF c(1)] by blast
  next
    case (Some u)
    then show ?thesis using assms by (simp add: get_or_create_pte_def extends_refl)
  qed
  then show "extends m root m'" "pt_inv m' root" "table_at m' root (i # p) = Some n" by simp_all
qed

lemma set_leaf:
  assumes inv: "pt_inv m root" and q: "valid_path q" "length q = 3" "table_at m root q = Some t"
  shows "\<And>p. valid_path p \<Longrightarrow> table_at (set_entry t i e m) root p = table_at m root p" "pt_inv (set_entry t i e m) root"
proof -
  show at: "table_at (set_entry t i e m) root p = table_at m root p" if "valid_path p" for p
    using that
  proof (induction p)
    case (Cons j p)
    then have IH: "table_at (set_entry t i e m) root p = table_at m root p" by simp
    show ?case
    proof (cases "table_at m root p")
      case (Some u)
      have "u \<noteq> t" using pt_inv_unique [OF inv _ q(1) Some, of] q Cons.prems by auto
      then show ?thesis using IH Some by (simp add: get_pte_def set_entry_def)
    qed (use IH in simp)
  qed simp
  have "mmu_frames (set_entry t i e m) = mmu_frames m" by (simp add: set_entry_def)
  with inv at show "pt_inv (set_entry t i e m) root" unfolding pt_inv_def by simp
qed

lemma trans_leaf:
  "translate m root va = (case leaf m root va of None \<Rightarrow> None
     | Some e \<Rightarrow> let g = decode_entry e in if present g then Some (mapping_base g, mapping_prot g, mapping_flags g) else None)"
  by (simp add: translate_def mmu_get_phys_leaf no_mapping_def Let_def split: option.split)

lemma trans_extends:
  assumes "extends m root m'"
  shows "translate m' root va = translate m root va"
proof (cases "table_at m root (path va)")
  case None
  then have "table_at m' root (path va) = Some t \<Longrightarrow> entry_at m' t = (\<lambda>_. 0)" for t
    using assms path_valid [of va] path_length [of va] unfolding extends_def by blast
  with None show ?thesis
    by (cases "table_at m' root (path va)") (simp_all add: trans_leaf leaf_def decode_zero Let_def)
next
  case (Some t)
  then have "table_at m' root (path va) = Some t" "entry_at m' t = entry_at m t"
    using assms path_valid [of va] path_length [of va] unfolding extends_def by blast+
  with Some show ?thesis by (simp add: trans_leaf leaf_def)
qed

lemma trans_set_leaf:
  assumes inv: "pt_inv m root" and t: "table_at m root (path va) = Some t"
  shows "translate (set_entry t (get_pagetable_index va 1) e m) root va' =
    (if vpn va' = vpn va
     then let g = decode_entry e in if present g then Some (mapping_base g, mapping_prot g, mapping_flags g) else None
     else translate m root va')"
proof -
  have at: "table_at (set_entry t (get_pagetable_index va 1) e m) root (path va') = table_at m root (path va')"
    by (rule set_leaf(1) [OF inv path_valid path_length t path_valid])
  show ?thesis
  proof (cases "vpn va' = vpn va")
    case True
    then have "path va' = path va" "get_pagetable_index va' 1 = get_pagetable_index va 1"
      using path_eq_iff [of va' va] by auto
    with True at t show ?thesis by (simp add: trans_leaf leaf_def set_entry_def)
  next
    case False
    have "entry_at (set_entry t (get_pagetable_index va 1) e m) u (get_pagetable_index va' 1) =
        entry_at m u (get_pagetable_index va' 1)" if "table_at m root (path va') = Some u" for u
    proof (cases "u = t")
      case True
      then have "path va' = path va" using pt_inv_unique [OF inv path_valid path_valid that] t by blast
      with False path_eq_iff [of va' va] have "get_pagetable_index va' 1 \<noteq> get_pagetable_index va 1" by blast
      then show ?thesis by (simp add: set_entry_def)
    qed (simp add: set_entry_def)
    with False at show ?thesis
      by (cases "table_at m root (path va')") (simp_all add: trans_leaf leaf_def)
  qed
qed

lemma mmu_map_tables:
  assumes inv: "pt_inv m root" and map: "mmu_map root phys va prot flags m = Some m'"
  obtains m1 t where "extends m root m1" "pt_inv m1 root" "table_at m1 root (path va) = Some t"
    "m' = set_entry t (get_pagetable_index va 1) ((phys AND page_mask_4K) OR convert_vm_params prot flags) m1"
proof -
  let ?i = "get_pagetable_index va"
  obtain t3 m3 where s3: "get_or_create_pte root (?i 4) secflags m = Some (t3, m3)"
    using map by (cases "get_or_create_pte root (?i 4) secflags m") (auto simp: mmu_map_def)
  obtain t2 m2 where s2: "get_or_create_pte t3 (?i 3) secflags m3 = Some (t2, m2)"
    using map s3 by (cases "get_or_create_pte t3 (?i 3) secflags m3") (auto simp: mmu_map_def)
  obtain t1 m1 where s1: "get_or_create_pte t2 (?i 2) secflags m2 = Some (t1, m1)"
    using map s3 s2 by (cases "get_or_create_pte t2 (?i 2) secflags m2") (auto simp: mmu_map_def)
  note less = pagetable_index_less [of va]
  note g3 = get_or_create_table [OF inv _ _ _ table_at.simps(1) s3]
  have g3': "extends m root m3" "pt_inv m3 root" "table_at m3 root [?i 4] = Some t3" using g3 less by auto
  note g2 = get_or_create_table [OF g3'(2) _ _ _ g3'(3) s2]
  have g2': "extends m3 root m2" "pt_inv m2 root" "table_at m2 root [?i 3, ?i 4] = Some t2" using g2 less by auto
  note g1 = get_or_create_table [OF g2'(2) _ _ _ g2'(3) s1]
  have g1': "extends m2 root m1" "pt_inv m1 root" "table_at m1 root (path va) = Some t1"
    using g1 less by (auto simp: path_def)
  have "m' = set_entry t1 (?i 1) ((phys AND page_mask_4K) OR convert_vm_params prot flags) m1"
    using map s3 s2 s1 by (simp add: mmu_map_def)
  moreover have "extends m root m1" using extends_trans g3'(1) g2'(1) g1'(1) by blast
  ultimately show ?thesis using that g1' by blast
qed

section \<open>Properties\<close>

lemma mmu_map_step:
  assumes "pt_inv m root" "unat phys < 2 ^ 48" "mmu_map root phys va prot flags m = Some m'"
  shows "pt_inv m' root \<and>
    (\<forall>va'. translate m' root va' =
       (if vpn va' = vpn va
        then if bit prot 0 then Some (phys AND NOT (mask 12), prot AND mask 6, flags AND VM_FLAG_OWNER) else None
        else translate m root va'))"
proof -
  obtain m1 t where m1: "extends m root m1" "pt_inv m1 root" "table_at m1 root (path va) = Some t"
    "m' = set_entry t (get_pagetable_index va 1) ((phys AND page_mask_4K) OR convert_vm_params prot flags) m1"
    by (rule mmu_map_tables [OF assms(1,3)])
  then have "pt_inv m' root" using set_leaf(2) path_valid path_length by blast
  moreover have "translate m' root va' =
       (if vpn va' = vpn va
        then if bit prot 0 then Some (phys AND NOT (mask 12), prot AND mask 6, flags AND VM_FLAG_OWNER) else None
        else translate m root va')" for va'
    unfolding m1(4) trans_set_leaf [OF m1(2,3)] trans_extends [OF m1(1)] decode_page [OF assms(2)]
    by (simp add: Let_def)
  ultimately show ?thesis by blast
qed

text \<open>C6: Mapping a page changes the translation of exactly that page: afterwards the page translates to
  the given frame with the given protection and ownership (or to nothing when read access is not
  asked for), every other page translates as before, and the tables stay a tree.\<close>

theorem mmu_map_translation:
  assumes "pt_inv m root" "unat phys < 2 ^ 48" "mmu_map root phys va prot flags m = Some m'"
  shows "pt_inv m' root \<and>
    (\<forall>va'. translate m' root va' =
       (if vpn va' = vpn va
        then if bit prot 0 then Some (phys AND NOT (mask 12), prot AND mask 6, flags AND VM_FLAG_OWNER) else None
        else translate m root va'))"
  by (rule mmu_map_step [OF assms])

lemma create_pte_total:
  assumes "pt_inv m root" "free_pages (mmu_frames m) \<noteq> {}"
  obtains n m' where "create_pte t i fl m = Some (n, m')"
    "card (free_pages (mmu_frames m')) = card (free_pages (mmu_frames m)) - 1"
proof -
  have inv: "pmm_inv (mmu_frames m)" using assms(1) by (simp add: pt_inv_def frames_ok_def)
  obtain ph f where al: "pmm_allocate (mmu_frames m) = Some (ph, f)"
    using pmm_pages.alloc_fails [OF inv] assms(2) by (cases "pmm_allocate (mmu_frames m)") auto
  have "card (free_pages f) = card (free_pages (mmu_frames m)) - 1"
    using pmm_pages.alloc_law [OF inv al] by simp
  then show ?thesis
    using that al by (simp add: create_pte_def Let_def set_entry_def zero_table_def)
qed

lemma get_or_create_total:
  assumes "pt_inv m root" "free_pages (mmu_frames m) \<noteq> {}"
  obtains n m' where "get_or_create_pte t i fl m = Some (n, m')"
    "card (free_pages (mmu_frames m)) - 1 \<le> card (free_pages (mmu_frames m'))"
proof (cases "get_pte m t i")
  case None
  obtain n m' where "create_pte t i fl m = Some (n, m')"
    "card (free_pages (mmu_frames m')) = card (free_pages (mmu_frames m)) - 1"
    by (rule create_pte_total [OF assms])
  then show ?thesis using that None by (simp add: get_or_create_pte_def)
next
  case (Some n)
  then show ?thesis using that by (simp add: get_or_create_pte_def)
qed

text \<open>Mapping a page needs at most three table pages: with three free frames it succeeds.\<close>

lemma mmu_map_total:
  assumes "pt_inv m root" "3 \<le> card (free_pages (mmu_frames m))"
  shows "\<exists>m'. mmu_map root phys va prot flags m = Some m'"
proof -
  let ?i = "get_pagetable_index va" and ?c = "\<lambda>m. card (free_pages (mmu_frames m))"
  note less = pagetable_index_less [of va]
  have "free_pages (mmu_frames m) \<noteq> {}" using assms(2) by auto
  then obtain t3 m3 where s3: "get_or_create_pte root (?i 4) secflags m = Some (t3, m3)" "?c m - 1 \<le> ?c m3"
    using get_or_create_total [OF assms(1)] by metis
  have g3: "pt_inv m3 root" "table_at m3 root [?i 4] = Some t3"
    using get_or_create_table [OF assms(1) _ _ _ table_at.simps(1) s3(1)] less by auto
  have "free_pages (mmu_frames m3) \<noteq> {}" using s3(2) assms(2) by auto
  then obtain t2 m2 where s2: "get_or_create_pte t3 (?i 3) secflags m3 = Some (t2, m2)" "?c m3 - 1 \<le> ?c m2"
    using get_or_create_total [OF g3(1)] by metis
  have g2: "pt_inv m2 root" using get_or_create_table(2) [OF g3(1) _ _ _ g3(2) s2(1)] less by auto
  have "free_pages (mmu_frames m2) \<noteq> {}" using s3(2) s2(2) assms(2) by auto
  then obtain t1 m1 where "get_or_create_pte t2 (?i 2) secflags m2 = Some (t1, m1)"
    using get_or_create_total [OF g2] by metis
  with s3 s2 show ?thesis by (simp add: mmu_map_def)
qed

lemma mmu_unmap_None: "mmu_unmap root va m = None \<longleftrightarrow> table_at m root (path va) = None"
  by (auto simp: mmu_unmap_def path_def split: bind_splits)

lemma mmu_unmap_Some:
  assumes "table_at m root (path va) = Some t"
  shows "mmu_unmap root va m = Some (set_entry t (get_pagetable_index va 1) 0 m)"
  using assms by (auto simp: mmu_unmap_def path_def split: bind_splits)

text \<open>C8: Unmapping a page removes exactly that page from the translation; the call dereferences a null table
  pointer exactly when a table on the path to the page does not exist, in particular never for a
  translated page.\<close>

theorem mmu_unmap_translation:
  assumes "pt_inv m root"
  shows "(mmu_unmap root va m = None \<longleftrightarrow> table_at m root (path va) = None) \<and>
    (translate m root va \<noteq> None \<longrightarrow> mmu_unmap root va m \<noteq> None) \<and>
    (\<forall>m'. mmu_unmap root va m = Some m' \<longrightarrow> pt_inv m' root \<and>
      (\<forall>va'. translate m' root va' = (if vpn va' = vpn va then None else translate m root va')))"
proof (cases "table_at m root (path va)")
  case None
  then show ?thesis using mmu_unmap_None [of root va m] by (simp add: trans_leaf leaf_def)
next
  case (Some t)
  let ?m = "set_entry t (get_pagetable_index va 1) 0 m"
  have "pt_inv ?m root" using set_leaf(2) [OF assms path_valid path_length Some] .
  then show ?thesis using trans_set_leaf [OF assms Some] mmu_unmap_Some [OF Some] Some by (simp add: decode_zero Let_def)
qed

lemma vpn_add: "vpn (va + of_nat (4096 * k)) = (vpn va + k) mod 2 ^ 36"
proof -
  define j where "j = 4096 * k"
  have "unat (va + of_nat j) = (unat va + j) mod (4096 * 2 ^ 52)"
    by (simp add: unat_add_of_nat)
  then have "unat (va + of_nat j) div 4096 = (unat va + j) div 4096 mod 2 ^ 52"
    using div_mod_mult [of 4096 "unat va + j" "2 ^ 52"] by (simp only:)
  also have "(unat va + j) div 4096 = unat va div 4096 + k" by (simp add: j_def)
  finally have "vpn (va + of_nat j) = (unat va div 4096 + k) mod 2 ^ 52 mod 2 ^ 36"
    unfolding vpn_def by (simp only:)
  also have "\<dots> = (unat va div 4096 + k) mod 2 ^ 36" by (rule mod_mod_cancel) simp
  also have "\<dots> = (vpn va + k) mod 2 ^ 36" unfolding vpn_def by (rule mod_add_left_eq [symmetric])
  finally show ?thesis unfolding j_def .
qed

lemma vpn_add_neq: "\<lbrakk>0 < k; k < 2 ^ 36\<rbrakk> \<Longrightarrow> vpn (va + of_nat (4096 * k)) \<noteq> vpn va"
  unfolding vpn_add by (rule mod_add_neq) (simp_all add: vpn_def)

text \<open>The number of pages a length covers and the loop that maps them.\<close>

definition pages_of :: "u64 \<Rightarrow> nat" where "pages_of len = (unat len + 4095) div 4096"

definition range_mapped :: "mmu \<Rightarrow> mmu \<Rightarrow> virtaddr \<Rightarrow> physaddr \<Rightarrow> virtaddr \<Rightarrow> nat \<Rightarrow> u32 \<Rightarrow> u32 \<Rightarrow> bool" where
  "range_mapped m m' root phys virt n prot flags \<longleftrightarrow>
     (\<forall>va k. k < n \<longrightarrow> vpn va = vpn (virt + of_nat (4096 * k)) \<longrightarrow>
        translate m' root va = (if bit prot 0 then Some ((phys + of_nat (4096 * k)) AND NOT (mask 12), prot AND mask 6,
          flags AND VM_FLAG_OWNER) else None)) \<and>
     (\<forall>va. (\<forall>k<n. vpn va \<noteq> vpn (virt + of_nat (4096 * k))) \<longrightarrow> translate m' root va = translate m root va)"

lemma page_step: "(a :: u64) + CONFIG_PAGE_SIZE + of_nat (4096 * k) = a + of_nat (4096 * Suc k)"
  by (simp add: CONFIG_PAGE_SIZE_def)

lemma range_mapped_Suc:
  assumes "range_mapped m1 m' root (phys + CONFIG_PAGE_SIZE) (virt + CONFIG_PAGE_SIZE) n prot flags" "n < 2 ^ 36"
    and "\<forall>va. translate m1 root va = (if vpn va = vpn virt
        then if bit prot 0 then Some (phys AND NOT (mask 12), prot AND mask 6, flags AND VM_FLAG_OWNER) else None
        else translate m root va)"
  shows "range_mapped m m' root phys virt (Suc n) prot flags"
  unfolding range_mapped_def
proof (intro conjI allI impI)
  fix va k assume k: "k < Suc n" "vpn va = vpn (virt + of_nat (4096 * k))"
  show "translate m' root va = (if bit prot 0 then Some ((phys + of_nat (4096 * k)) AND NOT (mask 12), prot AND mask 6,
      flags AND VM_FLAG_OWNER) else None)"
  proof (cases k)
    case 0
    then have v: "vpn va = vpn virt" using k(2) by simp
    have "vpn va \<noteq> vpn (virt + CONFIG_PAGE_SIZE + of_nat (4096 * j))" if "j < n" for j
      unfolding page_step v by (rule vpn_add_neq [symmetric]) (use that assms(2) in \<open>auto intro: Suc_lessI order.strict_trans1\<close>)
    then have "translate m' root va = translate m1 root va" using assms(1) unfolding range_mapped_def by blast
    with 0 v assms(3) show ?thesis by simp
  next
    case (Suc j)
    have "j < n" "vpn va = vpn (virt + CONFIG_PAGE_SIZE + of_nat (4096 * j))"
      unfolding page_step using k Suc by simp_all
    then have "translate m' root va = (if bit prot 0 then Some ((phys + CONFIG_PAGE_SIZE + of_nat (4096 * j)) AND NOT (mask 12),
        prot AND mask 6, flags AND VM_FLAG_OWNER) else None)"
      using assms(1) unfolding range_mapped_def by blast
    then show ?thesis unfolding page_step Suc .
  qed
next
  fix va assume all: "\<forall>k<Suc n. vpn va \<noteq> vpn (virt + of_nat (4096 * k))"
  then have "\<forall>k<n. vpn va \<noteq> vpn (virt + CONFIG_PAGE_SIZE + of_nat (4096 * k))" unfolding page_step by blast
  then have "translate m' root va = translate m1 root va" using assms(1) unfolding range_mapped_def by blast
  moreover have "vpn va \<noteq> vpn virt" using spec [OF all, of 0] by simp
  ultimately show "translate m' root va = translate m root va" using assms(3) by simp
qed

lemma pages_of_step:
  assumes "0 < len"
  shows "len \<le> CONFIG_PAGE_SIZE \<Longrightarrow> pages_of len = 1"
    "\<not> len \<le> CONFIG_PAGE_SIZE \<Longrightarrow> pages_of len = Suc (pages_of (len - CONFIG_PAGE_SIZE))"
proof -
  assume le: "len \<le> CONFIG_PAGE_SIZE"
  have "0 < unat len" "unat len \<le> 4096"
    using assms le by (simp_all add: word_less_nat_alt word_le_nat_alt page_size_simps)
  then have "unat len + 4095 = 4096 * 1 + (unat len - 1)" "unat len - 1 < 4096" by simp_all
  then show "pages_of len = 1" unfolding pages_of_def by (metis split_index_iff)
next
  assume gt: "\<not> len \<le> CONFIG_PAGE_SIZE"
  then have "unat (len - CONFIG_PAGE_SIZE) = unat len - 4096" and ge: "4096 \<le> unat len"
    by (simp_all add: unat_sub_small word_le_nat_alt page_size_simps)
  then have "unat len + 4095 = (unat (len - CONFIG_PAGE_SIZE) + 4095) + 4096 * 1" by simp
  then show "pages_of len = Suc (pages_of (len - CONFIG_PAGE_SIZE))"
    unfolding pages_of_def by (metis div_mult_self2 zero_neq_numeral add.commute plus_1_eq_Suc)
qed

text \<open>C7: Mapping a range maps page after page: the k-th page of the range translates to the k-th frame and
  no page outside the range changes.\<close>

theorem mmu_map_range_translation:
  assumes "pt_inv m root" "unat phys + 4096 * pages_of len \<le> 2 ^ 48" "pages_of len \<le> 2 ^ 36"
    and "mmu_map_range root phys virt len prot flags m = Some m'"
  shows "pt_inv m' root \<and> range_mapped m m' root phys virt (pages_of len) prot flags"
  using assms
proof (induction "unat len" arbitrary: phys virt len m rule: less_induct)
  case less
  show ?case
  proof (cases "0 < len")
    case False
    then have "len = 0" by (simp add: word_less_nat_alt word_unat_eq_iff)
    then show ?thesis using less.prems(1,4) by (simp add: mmu_map_range.simps pages_of_def range_mapped_def)
  next
    case True
    have n1: "0 < pages_of len" using pages_of_step [OF True] by (cases "len \<le> CONFIG_PAGE_SIZE") simp_all
    have ph: "unat phys < 2 ^ 48" using less.prems(2) n1 by linarith
    obtain m1 where m1: "mmu_map root phys virt prot flags m = Some m1"
      using less.prems(4) True by (cases "mmu_map root phys virt prot flags m") (simp_all add: mmu_map_range.simps [of _ _ _ len])
    note step = mmu_map_step [OF less.prems(1) ph m1]
    then have inv1: "pt_inv m1 root" and tr1: "\<forall>va. translate m1 root va = (if vpn va = vpn virt
        then if bit prot 0 then Some (phys AND NOT (mask 12), prot AND mask 6, flags AND VM_FLAG_OWNER) else None
        else translate m root va)" by blast+
    show ?thesis
    proof (cases "len \<le> CONFIG_PAGE_SIZE")
      case le: True
      then have "m' = m1" using less.prems(4) True m1 by (simp add: mmu_map_range.simps [of _ _ _ len])
      moreover have "range_mapped m1 m1 root (phys + CONFIG_PAGE_SIZE) (virt + CONFIG_PAGE_SIZE) 0 prot flags"
        by (simp add: range_mapped_def)
      ultimately show ?thesis
        using range_mapped_Suc [OF _ _ tr1] inv1 pages_of_step(1) [OF True le] by simp
    next
      case gt: False
      note n = pages_of_step(2) [OF True gt]
      have lt: "unat (len - CONFIG_PAGE_SIZE) < unat len"
        using gt by (simp add: unat_sub_small word_le_nat_alt page_size_simps)
      have "unat (phys + CONFIG_PAGE_SIZE) = unat phys + 4096"
        using less.prems(2) n by (subst unat_add_small) (simp_all add: page_size_simps)
      then have b: "unat (phys + CONFIG_PAGE_SIZE) + 4096 * pages_of (len - CONFIG_PAGE_SIZE) \<le> 2 ^ 48"
        using less.prems(2) n by simp
      have k: "pages_of (len - CONFIG_PAGE_SIZE) < 2 ^ 36" using less.prems(3) n by simp
      have "mmu_map_range root (phys + CONFIG_PAGE_SIZE) (virt + CONFIG_PAGE_SIZE) (len - CONFIG_PAGE_SIZE) prot flags m1 = Some m'"
        using less.prems(4) True gt m1 by (simp add: mmu_map_range.simps [of _ _ _ len])
      from less.hyps [OF lt inv1 b less_imp_le [OF k] this] show ?thesis
        using range_mapped_Suc [OF _ k tr1] n by simp
    qed
  qed
qed

lemma zero_root: "entry_at m root = (\<lambda>_. 0) \<Longrightarrow> table_at m root (p @ [i]) = None"
  by (induction p) (simp_all add: get_pte_def)

lemma zero_root_paths: "entry_at m root = (\<lambda>_. 0) \<Longrightarrow> table_at m root p = (if p = [] then Some root else None)"
  using zero_root [of m root] by (cases p rule: rev_cases) simp_all

lemma pt_inv_zero:
  "\<lbrakk>frames_ok (mmu_frames m); entry_at m root = (\<lambda>_. 0); root - VM_DMAP_BASE \<notin> free_pages (mmu_frames m)\<rbrakk>
    \<Longrightarrow> pt_inv m root"
  unfolding pt_inv_def by (simp add: zero_root_paths split: if_splits)

text \<open>A new page directory is a well-formed tree that translates nothing, on a frame that is no longer
  free.\<close>

lemma mmu_new_pgdir_empty:
  assumes "frames_ok (mmu_frames m)" "mmu_new_pgdir m = Some (root, m')"
  shows "pt_inv m' root \<and> (\<forall>va. translate m' root va = None) \<and> root - VM_DMAP_BASE \<in> free_pages (mmu_frames m)"
proof -
  obtain ph f where al: "pmm_allocate (mmu_frames m) = Some (ph, f)"
    using assms(2) by (cases "pmm_allocate (mmu_frames m)") (auto simp: mmu_new_pgdir_def)
  then have r: "root = ph + VM_DMAP_BASE" "m' = zero_table root (m\<lparr>mmu_frames := f\<rparr>)"
    using assms(2) by (auto simp: mmu_new_pgdir_def)
  note fresh = fresh_table [OF assms(1) al]
  have z: "entry_at m' root = (\<lambda>_. 0)" "mmu_frames m' = f" using r by (simp_all add: zero_table_def)
  have "pt_inv m' root" using fresh(1,3) z r(1) by (intro pt_inv_zero) simp_all
  moreover have "translate m' root va = None" for va
    using zero_root_paths [OF z(1), of "path va"] by (simp add: trans_leaf leaf_def path_def)
  ultimately show ?thesis using fresh(2) r(1) by simp
qed

definition clone_start :: "u32 \<Rightarrow> nat" where
  "clone_start prot = (if prot AND PROT_USER \<noteq> 0 then 0 else 256)"

lemma mmu_clone_entries:
  assumes "source \<noteq> dest"
  shows "entry_at (mmu_clone source dest prot m) t i =
    (if t = dest \<and> clone_start prot \<le> i \<and> i < 512 then entry_at m source i else entry_at m t i)"
proof -
  have "entry_at (fold (\<lambda>i m. set_entry dest i (entry_at m source i) m) is m) t i =
      (if t = dest \<and> i \<in> set is then entry_at m source i else entry_at m t i)" for "is"
    using assms by (induction "is" arbitrary: m) (auto simp: set_entry_def)
  then show ?thesis by (auto simp: mmu_clone_def clone_start_def Let_def)
qed

text \<open>C9: Cloning shares the upper half of the source's address space: in the destination every address whose
  top-level index is copied translates as it does in the source, and the source is unchanged.\<close>

theorem mmu_clone_shares:
  assumes "\<forall>p. valid_path p \<longrightarrow> table_at m source p \<noteq> Some dest"
  shows "(clone_start prot \<le> get_pagetable_index va 4 \<longrightarrow>
       translate (mmu_clone source dest prot m) dest va = translate m source va) \<and>
    translate (mmu_clone source dest prot m) source va = translate m source va"
proof -
  let ?m = "mmu_clone source dest prot m" and ?i = "get_pagetable_index va"
  have ne: "source \<noteq> dest" using assms [rule_format, of "[]"] by simp
  note e = mmu_clone_entries [OF ne, of prot m]
  have g: "get_pte ?m t i = get_pte m t i" if "t \<noteq> dest" for t i
    using that by (simp add: get_pte_def e)
  have src: "table_at ?m source p = table_at m source p" if "valid_path p" for p
    using that
  proof (induction p)
    case (Cons i p)
    then have "table_at ?m source p = table_at m source p" "table_at m source p \<noteq> Some dest" using assms by auto
    then show ?case using g by (cases "table_at m source p") auto
  qed simp
  have "table_at ?m dest (path va) = table_at ?m source (path va)" if "clone_start prot \<le> ?i 4"
    using that pagetable_index_less [of va 4] g [OF ne] by (simp add: path_def get_pte_def e)
  moreover have "entry_at ?m t = entry_at m t" if "table_at m source (path va) = Some t" for t
    using that assms path_valid [of va] e by (auto simp: fun_eq_iff)
  ultimately show ?thesis
    using src [OF path_valid, of va] by (cases "table_at m source (path va)") (simp_all add: trans_leaf leaf_def)
qed

lemma mmu_invalidate_aligned:
  "n < 2 ^ 52 \<Longrightarrow> mmu_invalidate virt (of_nat (4096 * n)) = Some (map (\<lambda>k. virt + of_nat (4096 * k)) [0..<n])"
proof (induction n arbitrary: virt)
  case 0
  then show ?case by (simp add: mmu_invalidate.simps)
next
  case (Suc n)
  have "unat (of_nat (4096 * Suc n) :: u64) = 4096 * Suc n" using Suc.prems by (intro unat_of_nat_small) simp
  then have nz: "(of_nat (4096 * Suc n) :: u64) \<noteq> 0" by (metis unat_0 mult_eq_0_iff nat.distinct(1) zero_neq_numeral)
  have sub: "of_nat (4096 * Suc n) - CONFIG_PAGE_SIZE = (of_nat (4096 * n) :: u64)" by (simp add: CONFIG_PAGE_SIZE_def)
  have map_eq: "map (\<lambda>k. virt + of_nat (4096 * k)) [0..<Suc n] =
      virt # map (\<lambda>k. virt + CONFIG_PAGE_SIZE + of_nat (4096 * k)) [0..<n]"
    unfolding page_step upt_conv_Cons [OF zero_less_Suc] map_Suc_upt [symmetric] by simp
  have "n < 2 ^ 52" using Suc.prems by simp
  then show ?case
    using nz Suc.IH [of "virt + CONFIG_PAGE_SIZE"] unfolding map_eq
    by (subst mmu_invalidate.simps) (simp only: sub if_False bind.bind_lunit)
qed

lemma mmu_invalidate_returns:
  assumes "mmu_invalidate virt len = Some vs"
  shows "page_aligned len"
proof -
  have "CONFIG_PAGE_SIZE + (len - CONFIG_PAGE_SIZE) = len" for len :: u64 by simp
  moreover have "page_aligned CONFIG_PAGE_SIZE" by (simp add: page_aligned_def CONFIG_PAGE_SIZE_def)
  ultimately have step: "page_aligned (len - CONFIG_PAGE_SIZE) \<Longrightarrow> page_aligned len" for len
    using page_aligned_add [of CONFIG_PAGE_SIZE "len - CONFIG_PAGE_SIZE"] by simp
  have zero: "page_aligned 0" by (simp add: page_aligned_def)
  show ?thesis
    by (rule mmu_invalidate.raw_induct [of "\<lambda>_ len _. page_aligned len", OF _ assms])
       (auto simp: zero split: if_splits bind_splits intro: step)
qed

text \<open>C10: Invalidating a length that is a multiple of the page size ends and names each page of the range
  once, in order; for any other length the loop never ends.\<close>

theorem mmu_invalidate_pages:
  "mmu_invalidate virt len =
     (if page_aligned len then Some (map (\<lambda>k. virt + of_nat (4096 * k)) [0..<unat len div 4096]) else None)"
proof (cases "page_aligned len")
  case True
  then have l: "unat len = 4096 * (unat len div 4096)" unfolding page_aligned_def by (metis mult_div_mod_eq add.right_neutral)
  then have "len = of_nat (4096 * (unat len div 4096))" by (metis of_nat_unat_word)
  moreover have "unat len div 4096 < 2 ^ 52" using unsigned_less [of len] by (simp add: div_less_iff_less_mult)
  ultimately show ?thesis using mmu_invalidate_aligned [of "unat len div 4096" virt] True by simp
next
  case False
  then show ?thesis using mmu_invalidate_returns [of virt len] by (cases "mmu_invalidate virt len") auto
qed

section \<open>Witnesses\<close>

text \<open>An empty directory at frame 1, with frames 3, 4, 5 and 6 free.\<close>

definition demo_frames4 :: pmm where
  "demo_frames4 = \<lparr>pmm_bitmap = [0x78], physmem_available = 4, physmem_used = 0\<rparr>"

definition demo_mmu :: mmu where
  "demo_mmu = \<lparr>entry_at = \<lambda>_ _. 0, mmu_frames = demo_frames4\<rparr>"

definition demo_root :: virtaddr where "demo_root = VM_DMAP_BASE + 0x1000"

lemma demo_frames4_pages: "free_frames demo_frames4 = {3, 4, 5, 6}"
  "free_pages demo_frames4 = {0x3000, 0x4000, 0x5000, 0x6000}"
proof -
  have "bitmap_frames [0x8] = {3}" using bitmap_frames_set [of 3 "[0]"] bitmap_frames_empty [of 1] by simp
  moreover have "bitmap_frames [0x18] = insert 4 (bitmap_frames [0x8])" using bitmap_frames_set [of 4 "[0x8]"] by simp
  moreover have "bitmap_frames [0x38] = insert 5 (bitmap_frames [0x18])" using bitmap_frames_set [of 5 "[0x18]"] by simp
  moreover have "bitmap_frames [0x78] = insert 6 (bitmap_frames [0x38])" using bitmap_frames_set [of 6 "[0x38]"] by simp
  ultimately show f: "free_frames demo_frames4 = {3, 4, 5, 6}" by (auto simp: demo_frames4_def)
  show "free_pages demo_frames4 = {0x3000, 0x4000, 0x5000, 0x6000}"
    unfolding free_pages_def f by (simp add: frame_addr_def CONFIG_PAGE_SIZE_def)
qed

lemma demo_frames_ok: "frames_ok demo_frames4"
  unfolding frames_ok_def pmm_inv_def demo_frames4_pages by (simp add: demo_frames4_def)

lemma demo_pt_inv: "pt_inv demo_mmu demo_root"
  using demo_frames_ok by (intro pt_inv_zero) (simp_all add: demo_mmu_def demo_root_def demo_frames4_pages)

lemma demo_map_some: "\<exists>m'. mmu_map demo_root phys virt prot flags demo_mmu = Some m'"
  by (rule mmu_map_total [OF demo_pt_inv]) (simp add: demo_mmu_def demo_frames4_pages)

theorem mmu_map_translation_witness:
  "\<exists>m'. mmu_map demo_root 0x7000 0x400000 (PROT_READ OR PROT_USER) 0 demo_mmu = Some m' \<and>
    translate m' demo_root 0x400123 = Some (0x7000, 9, 0)"
proof -
  obtain m' where m': "mmu_map demo_root 0x7000 0x400000 (PROT_READ OR PROT_USER) 0 demo_mmu = Some m'"
    using demo_map_some by blast
  have "translate m' demo_root 0x400123 = Some (0x7000 AND NOT (mask 12), (PROT_READ OR PROT_USER) AND mask 6, 0 AND VM_FLAG_OWNER)"
    using mmu_map_translation [OF demo_pt_inv _ m'] by (simp add: vpn_def PROT_READ_def PROT_USER_def)
  with m' show ?thesis by (simp add: PROT_READ_def PROT_USER_def mask_eq_exp_minus_1)
qed

theorem mmu_map_range_translation_witness:
  "\<exists>m'. mmu_map_range demo_root 0x7000 0x400000 0x1000 PROT_READ 0 demo_mmu = Some m' \<and>
    range_mapped demo_mmu m' demo_root 0x7000 0x400000 1 PROT_READ 0"
proof -
  obtain m1 where "mmu_map demo_root 0x7000 0x400000 PROT_READ 0 demo_mmu = Some m1"
    using demo_map_some by blast
  then obtain m' where m': "mmu_map_range demo_root 0x7000 0x400000 0x1000 PROT_READ 0 demo_mmu = Some m'"
    by (simp add: mmu_map_range.simps [of _ _ _ "0x1000"] CONFIG_PAGE_SIZE_def)
  have "pages_of 0x1000 = 1" by (simp add: pages_of_def)
  with m' show ?thesis using mmu_map_range_translation [OF demo_pt_inv _ _ m'] by auto
qed

theorem mmu_unmap_translation_witness:
  "\<exists>m m'. translate m demo_root 0x400000 \<noteq> None \<and> mmu_unmap demo_root 0x400000 m = Some m' \<and> translate m' demo_root 0x400000 = None"
proof -
  obtain m where m: "mmu_map demo_root 0x7000 0x400000 (PROT_READ OR PROT_USER) 0 demo_mmu = Some m"
    using demo_map_some by blast
  note s = mmu_map_step [OF demo_pt_inv _ m]
  have t: "translate m demo_root 0x400000 \<noteq> None" and inv: "pt_inv m demo_root"
    using s by (simp_all add: PROT_READ_def PROT_USER_def)
  from mmu_unmap_translation [where va = "0x400000", OF inv] t obtain m' where "mmu_unmap demo_root 0x400000 m = Some m'"
    "translate m' demo_root 0x400000 = None" by (cases "mmu_unmap demo_root 0x400000 m") auto
  with t show ?thesis by blast
qed

theorem mmu_clone_shares_witness:
  "translate (mmu_clone demo_root (VM_DMAP_BASE + 0x2000) 0 demo_mmu) demo_root VM_DMAP_BASE = translate demo_mmu demo_root VM_DMAP_BASE"
proof -
  have "\<forall>p. valid_path p \<longrightarrow> table_at demo_mmu demo_root p \<noteq> Some (VM_DMAP_BASE + 0x2000)"
    using zero_root_paths [of demo_mmu demo_root] by (simp add: demo_mmu_def demo_root_def)
  from mmu_clone_shares [OF this] show ?thesis by blast
qed

end
