(* ===== verification/Vm_Space.thy ===== *)
theory Vm_Space
  imports Page_Table
begin

text \<open>
  Address spaces (\<^verbatim>\<open>mm/vmm.c\<close>): the ordered list of mapped ranges of a space, the search for and the
  check of a rng, mapping, unmapping, copy-on-write faults and the creation and destruction of
  spaces.  The object list is the sequence of its elements (the theory of the intrusive lists relates
  the two); every operation holds the lock of its space while it works on the list, so it is one
  step.  The memory for a range object comes from the slab allocator and is not part of this state.
  The file layer is a parameter: the four calls this code makes into it are the fields of
  \<^verbatim>\<open>file_iface\<close>, and the fault handler of a file mapping is an argument of the page fault.
\<close>

section \<open>Data\<close>

definition VM_FLAG_ALLOCATE :: u32 where "VM_FLAG_ALLOCATE = 1"
definition VM_FLAG_COW :: u32 where "VM_FLAG_COW = 2"
definition VM_FLAG_FILE :: u32 where "VM_FLAG_FILE = 4"
definition VM_FLAG_DEVICE :: u32 where "VM_FLAG_DEVICE = 8"
definition VM_FLAG_REPLACE :: u32 where "VM_FLAG_REPLACE = 32"

definition VM_FAULT_PRESENT :: u32 where "VM_FAULT_PRESENT = 1"
definition VM_FAULT_WRITE :: u32 where "VM_FAULT_WRITE = 2"
definition VM_FAULT_USER :: u32 where "VM_FAULT_USER = 4"
definition VM_FAULT_FETCH :: u32 where "VM_FAULT_FETCH = 8"

definition VM_USERSPACE_BASE :: u64 where "VM_USERSPACE_BASE = 0x0000000000010000"
definition VM_USERSPACE_END :: u64 where "VM_USERSPACE_END = 0x00007fffffffffff"
definition VM_VMALLOC_BASE :: u64 where "VM_VMALLOC_BASE = 0xffffc00000000000"
definition VM_KERNEL_BASE :: u64 where "VM_KERNEL_BASE = 0xffffffff80000000"

record vm_object =
  obj_base :: virtaddr
  obj_length :: u64
  obj_prot :: u32
  obj_flags :: u32
  obj_file :: "nat option"
  obj_offset :: u64
  obj_ops :: "nat option"

record vm_space =
  objects :: "vm_object list"
  start_address :: virtaddr
  end_address :: virtaddr
  mmu_root :: virtaddr
  mapped_anon :: u64
  mapped_file :: u64
  resident_anon :: u64
  resident_file :: u64

record vm_mapping_info =
  info_length :: u64
  info_prot :: u32
  info_flags :: u32
  phys_base :: physaddr
  virt_base :: virtaddr
  info_offset :: u64
  info_fd :: int

text \<open>Physical memory is the content of each page frame.\<close>

record vm =
  vm_mmu :: mmu
  phys_mem :: "physaddr \<Rightarrow> nat \<Rightarrow> u8"
  zero_cowmem :: physaddr

record 'v file_iface =
  if_get_fd :: "int \<Rightarrow> 'v \<Rightarrow> nat"
  if_ref_file :: "nat \<Rightarrow> 'v \<Rightarrow> 'v"
  if_put_file :: "nat \<Rightarrow> 'v \<Rightarrow> 'v"
  if_mmap :: "nat \<Rightarrow> vm_object \<Rightarrow> 'v \<Rightarrow> vm_object \<times> 'v"

section \<open>The list of ranges\<close>

definition obj_end :: "vm_object \<Rightarrow> virtaddr" where
  "obj_end ob = obj_base ob + obj_length ob"

text \<open>\<^verbatim>\<open>space_replace_before\<close>: the range goes in front of the object it overlaps, whose base is moved
  behind the range; the object disappears when nothing of it is left.\<close>

definition space_replace_before :: "vm_object \<Rightarrow> vm_object \<Rightarrow> vm_object list" where
  "space_replace_before before rng =
     (let new_base = obj_base rng + obj_length rng;
          cut_off = new_base - obj_base before
      in if obj_length before \<le> cut_off then [rng]
         else [rng, before\<lparr>obj_base := new_base, obj_length := obj_length before - cut_off\<rparr>])"

fun check_list :: "bool \<Rightarrow> vm_object \<Rightarrow> vm_object list \<Rightarrow> vm_object list option" where
  "check_list replace rng [] = Some [rng]"
| "check_list replace rng (cur # rest) =
     (if obj_base cur \<le> obj_base rng then
        if obj_base rng < obj_end cur then
          if replace then Some (space_replace_before cur rng @ rest) else None
        else map_option (Cons cur) (check_list replace rng rest)
      else if obj_base cur < obj_end rng then None
      else Some (rng # cur # rest))"

definition space_check_range :: "bool \<Rightarrow> vm_object \<Rightarrow> vm_space \<Rightarrow> vm_space option" where
  "space_check_range replace rng space =
     (if obj_base rng < start_address space then None
      else if end_address space \<le> obj_end rng then None
      else map_option (\<lambda>xs. space\<lparr>objects := xs\<rparr>) (check_list replace rng (objects space)))"

text \<open>The search for a gap: \<^term>\<open>prev_end\<close> is the end of the previous object, or the start of the
  space.  The result is the base of the new range (0 when none was found) and the new list.\<close>

fun find_gap :: "virtaddr \<Rightarrow> vm_object \<Rightarrow> vm_object list \<Rightarrow> virtaddr \<times> vm_object list" where
  "find_gap prev_end rng [] = (prev_end, [rng\<lparr>obj_base := prev_end\<rparr>])"
| "find_gap prev_end rng (cur # rest) =
     (if prev_end + obj_length rng \<le> obj_base cur then (prev_end, rng\<lparr>obj_base := prev_end\<rparr> # cur # rest)
      else let (b, xs) = find_gap (obj_end cur) rng rest in (b, cur # xs))"

definition space_find_free_range :: "vm_object \<Rightarrow> vm_space \<Rightarrow> (vm_object \<times> vm_space) option" where
  "space_find_free_range rng space =
     (let (alloc_base, xs) = find_gap (start_address space) rng (objects space)
      in if alloc_base = 0 then None
         else Some (rng\<lparr>obj_base := alloc_base\<rparr>, space\<lparr>objects := xs\<rparr>))"

definition vm_space_get_range :: "vm_space \<Rightarrow> virtaddr \<Rightarrow> vm_object option" where
  "vm_space_get_range space a = find (\<lambda>cur. obj_base cur \<le> a \<and> a < obj_end cur) (objects space)"

definition vm_space_get_mapping :: "vm_space \<Rightarrow> virtaddr \<Rightarrow> vm \<Rightarrow> vm_mapping" where
  "vm_space_get_mapping space a v = mmu_get_phys (vm_mmu v) (mmu_root space) a"

section \<open>Mapping\<close>

definition with_frames :: "pmm \<Rightarrow> vm \<Rightarrow> vm" where
  "with_frames f v = v\<lparr>vm_mmu := (vm_mmu v)\<lparr>mmu_frames := f\<rparr>\<rparr>"

definition vm_frames :: "vm \<Rightarrow> pmm" where "vm_frames v = mmu_frames (vm_mmu v)"

definition page_decrement :: "u64 \<Rightarrow> u64" where
  "page_decrement len = len - (if len < CONFIG_PAGE_SIZE then len else CONFIG_PAGE_SIZE)"

lemma page_decrement_less: "len \<noteq> 0 \<Longrightarrow> unat (page_decrement len) < unat len"
proof -
  assume "len \<noteq> 0"
  then have "0 < unat len" by (simp add: unat_gt_0)
  then show ?thesis
    unfolding page_decrement_def
    by (cases "len < CONFIG_PAGE_SIZE") (simp_all add: unat_sub_small not_less page_size_simps)
qed

text \<open>The frame for the next page of an anonymous or device mapping.\<close>

definition next_frame :: "bool \<Rightarrow> bool \<Rightarrow> physaddr \<Rightarrow> u32 \<Rightarrow> vm_space \<Rightarrow> vm \<Rightarrow> (physaddr \<times> u32 \<times> vm_space \<times> vm) option" where
  "next_frame is_device prefault phys mmuflags space v =
     (if is_device then Some (phys, mmuflags, space, v)
      else if prefault then do {
        (p, f) \<leftarrow> pmm_allocate (vm_frames v);
        Some (p, VM_FLAG_OWNER, space\<lparr>resident_anon := resident_anon space + 1\<rparr>, with_frames f v)
      } else Some (zero_cowmem v, mmuflags, space, v))"

function map_loop :: "bool \<Rightarrow> bool \<Rightarrow> u32 \<Rightarrow> physaddr \<Rightarrow> u32 \<Rightarrow> virtaddr \<Rightarrow> u64 \<Rightarrow> vm_space \<Rightarrow> vm \<Rightarrow> (vm_space \<times> vm) option" where
  "map_loop is_device prefault prot phys mmuflags alloc_base len space v =
     (if len = 0 then Some (space, v) else do {
        (phys, mmuflags, space, v) \<leftarrow> next_frame is_device prefault phys mmuflags space v;
        v \<leftarrow> (if prot AND PROT_READ \<noteq> 0 then do {
                m \<leftarrow> mmu_map (mmu_root space) phys alloc_base prot mmuflags (vm_mmu v);
                Some (v\<lparr>vm_mmu := m\<rparr>)
              } else Some v);
        map_loop is_device prefault prot (if is_device then phys + CONFIG_PAGE_SIZE else phys) mmuflags
          (alloc_base + CONFIG_PAGE_SIZE) (page_decrement len) (space\<lparr>mapped_anon := mapped_anon space + 1\<rparr>) v
      })"
  by pat_completeness auto
termination
  by (relation "measure (\<lambda>(_, _, _, _, _, _, len, _). unat len)") (auto simp: page_decrement_less)

declare map_loop.simps [simp del]

definition vm_space_map :: "'v file_iface \<Rightarrow> vm_mapping_info \<Rightarrow> vm_space \<Rightarrow> vm \<Rightarrow> 'v \<Rightarrow> (virtaddr \<times> vm_space \<times> vm \<times> 'v) option" where
  "vm_space_map fi info space v w =
     (let len = align_up (info_length info) CONFIG_PAGE_SIZE;
          is_device = (info_flags info AND VM_FLAG_DEVICE \<noteq> 0);
          is_file = (info_flags info AND VM_FLAG_FILE \<noteq> 0);
          prefault = (info_flags info AND VM_FLAG_ALLOCATE \<noteq> 0);
          write_access = (info_prot info AND PROT_WRITE \<noteq> 0);
          cow = (write_access \<and> \<not> is_file \<and> \<not> prefault \<and> \<not> is_device);
          vmflags = (if cow then info_flags info OR VM_FLAG_COW else info_flags info);
          file = (if is_file then Some (if_get_fd fi (info_fd info) w) else None);
          w1 = (case file of Some f \<Rightarrow> if_ref_file fi f w | None \<Rightarrow> w);
          rng = \<lparr>obj_base = align_down (virt_base info) CONFIG_PAGE_SIZE, obj_length = len,
                   obj_prot = info_prot info, obj_flags = vmflags, obj_file = file,
                   obj_offset = info_offset info, obj_ops = None\<rparr>
      in if is_device \<noteq> (phys_base info \<noteq> 0) then None
         else
           case (if virt_base info \<noteq> 0 \<or> vmflags AND VM_FLAG_REPLACE \<noteq> 0
                 then map_option (Pair rng) (space_check_range (vmflags AND VM_FLAG_REPLACE \<noteq> 0) rng space)
                 else space_find_free_range rng space) of
             None \<Rightarrow> Some (0, space, v, w1)
           | Some (rng, space) \<Rightarrow>
               (case file of
                  Some f \<Rightarrow>
                    let (rng', w2) = if_mmap fi f rng w1;
                        upd = (\<lambda>ob. if ob = rng then rng' else ob)
                    in Some (obj_base rng, space\<lparr>mapped_file := mapped_file space + len div 0x1000,
                              objects := map upd (objects space)\<rparr>, v, w2)
                | None \<Rightarrow> do {
                    (space, v) \<leftarrow> map_loop is_device prefault
                      (if cow then info_prot info AND NOT PROT_WRITE else info_prot info)
                      (if is_device then align_down (phys_base info) CONFIG_PAGE_SIZE else zero_cowmem v) 0
                      (obj_base rng) len space v;
                    Some (obj_base rng, space, v, w1)
                  }))"

section \<open>Unmapping\<close>

text \<open>One page of \<^verbatim>\<open>vm_free_range\<close>: private frames are returned, then the page is unmapped.\<close>

definition free_page :: "vm_object \<Rightarrow> virtaddr \<Rightarrow> vm_space \<Rightarrow> vm \<Rightarrow> (vm_space \<times> vm) option" where
  "free_page rng addr space v = do {
     let mapping = vm_space_get_mapping space addr v;
     let owned = (mapping_base mapping \<noteq> 0 \<and> mapping_flags mapping AND VM_FLAG_OWNER \<noteq> 0);
     (space, v) \<leftarrow>
       (if obj_flags rng AND VM_FLAG_FILE \<noteq> 0 then do {
          (space, v) \<leftarrow>
            (if obj_prot rng AND PROT_WRITE \<noteq> 0 \<and> owned then do {
               f \<leftarrow> pmm_free (mapping_base mapping) (vm_frames v);
               Some (space\<lparr>resident_file := resident_file space - 1\<rparr>, with_frames f v)
             } else Some (space, v));
          Some (space\<lparr>mapped_file := mapped_file space - 1\<rparr>, v)
        } else if obj_flags rng AND VM_FLAG_DEVICE = 0 then
          if owned \<and> mapping_base mapping \<noteq> zero_cowmem v then do {
            f \<leftarrow> pmm_free (mapping_base mapping) (vm_frames v);
            Some (space, with_frames f v)
          } else Some (space, v)
        else Some (space, v));
     m \<leftarrow> mmu_unmap (mmu_root space) addr (vm_mmu v);
     Some (space, v\<lparr>vm_mmu := m\<rparr>)
   }"

function free_loop :: "vm_object \<Rightarrow> virtaddr \<Rightarrow> u64 \<Rightarrow> vm_space \<Rightarrow> vm \<Rightarrow> (vm_space \<times> vm) option" where
  "free_loop rng addr len space v =
     (if len = 0 then Some (space, v) else do {
        (space, v) \<leftarrow> free_page rng addr space v;
        free_loop rng (addr + CONFIG_PAGE_SIZE) (page_decrement len) space v
      })"
  by pat_completeness auto
termination
  by (relation "measure (\<lambda>(_, _, len, _). unat len)") (auto simp: page_decrement_less)

declare free_loop.simps [simp del]

definition vm_free_range :: "'v file_iface \<Rightarrow> vm_object \<Rightarrow> vm_space \<Rightarrow> vm \<Rightarrow> 'v \<Rightarrow> (vm_space \<times> vm \<times> 'v) option" where
  "vm_free_range fi rng space v w = do {
     (space, v) \<leftarrow> free_loop rng (obj_base rng) (obj_length rng) space v;
     let w = (case obj_file rng of Some f \<Rightarrow> if obj_flags rng AND VM_FLAG_FILE \<noteq> 0 then if_put_file fi f w else w | None \<Rightarrow> w);
     _ \<leftarrow> mmu_invalidate (obj_base rng) (obj_length rng);
     Some (space, v, w)
   }"

text \<open>The list after removing the object that starts at the address; an address that is not the base
  of an object changes nothing.\<close>

definition vm_space_unmap :: "'v file_iface \<Rightarrow> virtaddr \<Rightarrow> u64 \<Rightarrow> vm_space \<Rightarrow> vm \<Rightarrow> 'v \<Rightarrow> (vm_space \<times> vm \<times> 'v) option" where
  "vm_space_unmap fi addr len space v w =
     (case find (\<lambda>cur. obj_base cur = addr) (objects space) of
        None \<Rightarrow> Some (space, v, w)
      | Some cur \<Rightarrow> vm_free_range fi cur (space\<lparr>objects := remove1 cur (objects space)\<rparr>) v w)"

section \<open>Whole spaces\<close>

definition empty_space :: "virtaddr \<Rightarrow> virtaddr \<Rightarrow> virtaddr \<Rightarrow> vm_space" where
  "empty_space s e root = \<lparr>objects = [], start_address = s, end_address = e, mmu_root = root,
     mapped_anon = 0, mapped_file = 0, resident_anon = 0, resident_file = 0\<rparr>"

definition vm_userspace_new :: "vm_space \<Rightarrow> vm \<Rightarrow> (vm_space \<times> vm) option" where
  "vm_userspace_new kernel_space v = do {
     (root, m) \<leftarrow> mmu_new_pgdir (vm_mmu v);
     Some (empty_space VM_USERSPACE_BASE VM_USERSPACE_END root,
           v\<lparr>vm_mmu := mmu_clone (mmu_root kernel_space) root 0 m\<rparr>)
   }"

fun free_all :: "'v file_iface \<Rightarrow> vm_object list \<Rightarrow> vm_space \<Rightarrow> vm \<Rightarrow> 'v \<Rightarrow> (vm_space \<times> vm \<times> 'v) option" where
  "free_all fi [] space v w = Some (space, v, w)"
| "free_all fi (cur # rest) space v w = do {
     (space, v, w) \<leftarrow> vm_free_range fi cur space v w;
     free_all fi rest space v w
   }"

definition vm_space_destroy :: "'v file_iface \<Rightarrow> vm_space \<Rightarrow> vm \<Rightarrow> 'v \<Rightarrow> (vm \<times> 'v) option" where
  "vm_space_destroy fi space v w = do {
     (space, v, w) \<leftarrow> free_all fi (objects space) space v w;
     m \<leftarrow> mmu_destroy (mmu_root space) (vm_mmu v);
     Some (v\<lparr>vm_mmu := m\<rparr>, w)
   }"

text \<open>The kernel space at boot: the three segments of the kernel image (start address and length of
  each are link-time constants) and the direct map of the usable, allocated and ACPI regions.\<close>

definition dmap_region :: "virtaddr \<Rightarrow> mem_region \<Rightarrow> mmu \<Rightarrow> mmu option" where
  "dmap_region root r m =
     (if region_type r \<in> {MEM_REGION_USABLE, MEM_REGION_ALLOCATED, MEM_REGION_ACPI_TABLES} then
        let b = align_down (region_begin r) CONFIG_PAGE_SIZE;
            len = align_up (region_end r) CONFIG_PAGE_SIZE - b
        in mmu_map_range root b (b + VM_DMAP_BASE) len (PROT_READ OR PROT_WRITE) 0 m
      else Some m)"

definition map_segment :: "virtaddr \<Rightarrow> physaddr \<Rightarrow> (virtaddr \<times> virtaddr \<times> u32) \<Rightarrow> mmu \<Rightarrow> mmu option" where
  "map_segment root kload_addr seg m =
     (let (first, last, prot) = seg;
          start = align_down first CONFIG_PAGE_SIZE;
          len = align_up (last - first) CONFIG_PAGE_SIZE
      in mmu_map_range root (start - VM_KERNEL_BASE + kload_addr) start len prot 0 m)"

definition vmm_init_kpages :: "memory_map \<Rightarrow> physaddr \<Rightarrow> (virtaddr \<times> virtaddr) \<Rightarrow> (virtaddr \<times> virtaddr) \<Rightarrow>
    (virtaddr \<times> virtaddr) \<Rightarrow> mmu \<Rightarrow> (physaddr \<Rightarrow> nat \<Rightarrow> u8) \<Rightarrow> (vm_space \<times> vm) option" where
  "vmm_init_kpages memmap kload_addr txt rodata databss m mem = do {
     (root, m) \<leftarrow> mmu_new_pgdir m;
     m \<leftarrow> fold_option (map_segment root kload_addr)
           [(fst txt, snd txt, PROT_EXEC OR PROT_READ), (fst rodata, snd rodata, PROT_READ),
            (fst databss, snd databss, PROT_READ OR PROT_WRITE)] m;
     m \<leftarrow> fold_option (dmap_region root) (regions memmap) m;
     (zero, f) \<leftarrow> pmm_allocate (mmu_frames m);
     Some (empty_space VM_VMALLOC_BASE VM_KERNEL_BASE root,
           \<lparr>vm_mmu = m\<lparr>mmu_frames := f\<rparr>, phys_mem = mem(zero := (\<lambda>_. 0)), zero_cowmem = zero\<rparr>)
   }"

section \<open>Page faults\<close>

definition vm_validate_ptr :: "virtaddr \<Rightarrow> u64 \<Rightarrow> bool" where
  "vm_validate_ptr p len \<longleftrightarrow> \<not> (p < VM_USERSPACE_BASE \<or> VM_USERSPACE_END < p)"

definition fault_denied :: "u32 \<Rightarrow> u32 \<Rightarrow> bool" where
  "fault_denied flags prot \<longleftrightarrow>
     flags AND VM_FAULT_WRITE \<noteq> 0 \<and> prot AND PROT_WRITE = 0 \<or>
     flags AND VM_FAULT_USER \<noteq> 0 \<and> prot AND PROT_USER = 0 \<or>
     flags AND VM_FAULT_FETCH \<noteq> 0 \<and> prot AND PROT_EXEC = 0"

definition cow_fault :: "vm_object \<Rightarrow> virtaddr \<Rightarrow> vm_space \<Rightarrow> vm \<Rightarrow> (bool \<times> vm_space \<times> vm) option" where
  "cow_fault rng addr space v = do {
     let mapping = vm_space_get_mapping space addr v;
     (new_phys, f) \<leftarrow> pmm_allocate (vm_frames v);
     if new_phys = 0 then Some (False, space, with_frames f v)
     else do {
       let content = (if mapping_base mapping = zero_cowmem v then (\<lambda>_. 0) else phys_mem v (mapping_base mapping));
       let v = (with_frames f v)\<lparr>phys_mem := (phys_mem v)(new_phys := content)\<rparr>;
       m \<leftarrow> mmu_map (mmu_root space) new_phys addr (obj_prot rng OR PROT_WRITE) (obj_flags rng OR VM_FLAG_OWNER) (vm_mmu v);
       _ \<leftarrow> mmu_invalidate addr CONFIG_PAGE_SIZE;
       Some (True, space\<lparr>resident_anon := resident_anon space + 1\<rparr>, v\<lparr>vm_mmu := m\<rparr>)
     }
   }"

lemma mmu_invalidate_one [simp]: "mmu_invalidate va CONFIG_PAGE_SIZE = Some [va]"
  by (simp add: mmu_invalidate.simps [of _ CONFIG_PAGE_SIZE] mmu_invalidate.simps [of _ 0] page_size_simps)

text \<open>The current task's space is an argument (absent when there is no current task), and so is the
  fault operation of the mapped file.\<close>

definition vm_page_fault :: "(nat \<Rightarrow> vm_object \<Rightarrow> virtaddr \<Rightarrow> u32 \<Rightarrow> vm_space \<Rightarrow> vm \<Rightarrow> (bool \<times> vm_space \<times> vm) option) \<Rightarrow>
    virtaddr \<Rightarrow> u32 \<Rightarrow> vm_space option \<Rightarrow> vm \<Rightarrow> (bool \<times> vm_space option \<times> vm) option" where
  "vm_page_fault fault_op addr flags cur v =
     (if addr < VM_USERSPACE_BASE \<or> VM_USERSPACE_END < addr then Some (False, cur, v)
      else case cur of None \<Rightarrow> Some (False, cur, v)
      | Some space \<Rightarrow>
     (case vm_space_get_range space addr of None \<Rightarrow> Some (False, cur, v)
      | Some rng \<Rightarrow>
          if fault_denied flags (obj_prot rng) then Some (False, cur, v)
          else if flags AND VM_FAULT_PRESENT \<noteq> 0 then
            if flags AND VM_FAULT_WRITE \<noteq> 0 \<and> obj_prot rng AND (PROT_READ OR PROT_WRITE) \<noteq> 0 \<and>
               obj_flags rng AND VM_FLAG_COW \<noteq> 0
            then do { (b, space, v) \<leftarrow> cow_fault rng addr space v; Some (b, Some space, v) }
            else Some (False, cur, v)
          else if obj_flags rng AND VM_FLAG_FILE \<noteq> 0 then
            (case obj_ops rng of None \<Rightarrow> Some (False, cur, v)
             | Some ops \<Rightarrow> do { (b, space, v) \<leftarrow> fault_op ops rng addr flags space v; Some (b, Some space, v) })
          else Some (False, cur, v)))"

section \<open>Ordered, disjoint ranges\<close>

fun ranges_ok :: "nat \<Rightarrow> nat \<Rightarrow> vm_object list \<Rightarrow> bool" where
  "ranges_ok lo hi [] \<longleftrightarrow> lo \<le> hi"
| "ranges_ok lo hi (x # xs) \<longleftrightarrow> lo \<le> unat (obj_base x) \<and> 0 < unat (obj_length x) \<and>
     ranges_ok (unat (obj_base x) + unat (obj_length x)) hi xs"

definition overlaps :: "vm_object \<Rightarrow> vm_object \<Rightarrow> bool" where
  "overlaps x y \<longleftrightarrow> unat (obj_base x) < unat (obj_base y) + unat (obj_length y) \<and>
     unat (obj_base y) < unat (obj_base x) + unat (obj_length x)"

lemma ranges_ok_le: "ranges_ok lo hi xs \<Longrightarrow> lo \<le> hi"
  by (induction xs arbitrary: lo) fastforce+

lemma ranges_ok_mono: "\<lbrakk>ranges_ok lo hi xs; lo' \<le> lo; hi \<le> hi'\<rbrakk> \<Longrightarrow> ranges_ok lo' hi' xs"
  by (induction xs arbitrary: lo lo') auto

lemma ranges_ok_mem:
  "\<lbrakk>ranges_ok lo hi xs; x \<in> set xs\<rbrakk> \<Longrightarrow> lo \<le> unat (obj_base x) \<and> 0 < unat (obj_length x) \<and>
     unat (obj_base x) + unat (obj_length x) \<le> hi"
  by (induction xs arbitrary: lo) (fastforce dest: ranges_ok_le)+

lemma unat_obj_end: "unat (obj_base x) + unat (obj_length x) < 2 ^ 64 \<Longrightarrow> unat (obj_end x) = unat (obj_base x) + unat (obj_length x)"
  by (simp add: obj_end_def unat_add_small)

lemma check_list_Cons:
  assumes "ranges_ok lo hi (x # xs)" "hi < 2 ^ 64" "unat (obj_base r) + unat (obj_length r) < 2 ^ 64"
  shows "check_list False r (x # xs) =
    (if unat (obj_base x) \<le> unat (obj_base r) then
       if unat (obj_base r) < unat (obj_base x) + unat (obj_length x) then None
       else map_option (Cons x) (check_list False r xs)
     else if unat (obj_base x) < unat (obj_base r) + unat (obj_length r) then None else Some (r # x # xs))"
proof -
  have "unat (obj_end x) = unat (obj_base x) + unat (obj_length x)"
    using ranges_ok_mem [OF assms(1), of x] assms(2) by (intro unat_obj_end) simp
  then show ?thesis
    using unat_obj_end [OF assms(3)] by (simp add: word_le_nat_alt word_less_nat_alt)
qed

lemma check_list_None_iff:
  assumes "ranges_ok lo hi xs" "hi < 2 ^ 64" "unat (obj_base r) + unat (obj_length r) < 2 ^ 64" "0 < unat (obj_length r)"
  shows "check_list False r xs = None \<longleftrightarrow> (\<exists>x\<in>set xs. overlaps x r)"
  using assms(1)
proof (induction xs arbitrary: lo)
  case (Cons x xs)
  have rest: "unat (obj_base x) + unat (obj_length x) \<le> unat (obj_base y)" if "y \<in> set xs" for y
    using ranges_ok_mem [of _ hi xs y] Cons.prems that by auto
  have IH: "check_list False r xs = None \<longleftrightarrow> (\<exists>x\<in>set xs. overlaps x r)"
    by (rule Cons.IH) (use Cons.prems in auto)
  note eq = check_list_Cons [OF Cons.prems assms(2,3)]
  have pos: "0 < unat (obj_length x)" using Cons.prems by simp
  consider "unat (obj_base x) \<le> unat (obj_base r)" "unat (obj_base r) < unat (obj_base x) + unat (obj_length x)"
    | "unat (obj_base x) + unat (obj_length x) \<le> unat (obj_base r)"
    | "unat (obj_base r) < unat (obj_base x)" "unat (obj_base x) < unat (obj_base r) + unat (obj_length r)"
    | "unat (obj_base r) + unat (obj_length r) \<le> unat (obj_base x)" "unat (obj_base r) < unat (obj_base x)"
    using assms(4) by linarith
  then show ?case
  proof cases
    case 1 then show ?thesis unfolding eq using assms(4) by (auto simp: overlaps_def)
  next
    case 2
    then have "\<not> overlaps x r" by (simp add: overlaps_def)
    with 2 show ?thesis unfolding eq using IH pos by simp
  next
    case 3 then show ?thesis unfolding eq using pos by (auto simp: overlaps_def)
  next
    case 4
    then have "\<not> overlaps y r" if "y \<in> set (x # xs)" for y using rest [of y] that pos by (auto simp: overlaps_def)
    with 4 show ?thesis unfolding eq by auto
  qed
qed simp

lemma check_list_Some:
  assumes "ranges_ok lo hi xs" "hi < 2 ^ 64" "lo \<le> unat (obj_base r)" "0 < unat (obj_length r)"
    and "unat (obj_base r) + unat (obj_length r) \<le> hi" "check_list False r xs = Some ys"
  shows "ranges_ok lo hi ys \<and> (\<exists>as bs. xs = as @ bs \<and> ys = as @ r # bs)"
  using assms(1,3,6)
proof (induction xs arbitrary: lo ys)
  case Nil
  then show ?case using assms(4,5) by auto
next
  case (Cons x xs)
  have lt: "unat (obj_base r) + unat (obj_length r) < 2 ^ 64" using assms(2,5) by linarith
  note eq = check_list_Cons [OF Cons.prems(1) assms(2) lt]
  consider zs where "unat (obj_base x) + unat (obj_length x) \<le> unat (obj_base r)" "check_list False r xs = Some zs" "ys = x # zs"
    | "unat (obj_base r) + unat (obj_length r) \<le> unat (obj_base x)" "ys = r # x # xs"
    using Cons.prems(3) unfolding eq by (auto split: if_splits simp: not_less)
  then show ?case
  proof cases
    case 1
    then have "ranges_ok (unat (obj_base x) + unat (obj_length x)) hi zs \<and> (\<exists>as bs. xs = as @ bs \<and> zs = as @ r # bs)"
      using Cons.prems(1) by (intro Cons.IH) auto
    then obtain as bs where ab: "ranges_ok (unat (obj_base x) + unat (obj_length x)) hi zs" "xs = as @ bs" "zs = as @ r # bs"
      by blast
    then have "x # xs = (x # as) @ bs \<and> ys = (x # as) @ r # bs" using 1(3) by simp
    moreover have "ranges_ok lo hi ys" using ab(1) 1(3) Cons.prems(1) by simp
    ultimately show ?thesis by blast
  next
    case 2
    then show ?thesis using Cons.prems assms(4) by (auto intro: exI [of _ "[]"])
  qed
qed

lemma find_gap_spec:
  assumes "ranges_ok lo hi xs" "hi + unat (obj_length r) < 2 ^ 64" "unat prev_end = lo" "0 < unat (obj_length r)"
    and "find_gap prev_end r xs = (b, ys)"
  shows "lo \<le> unat b \<and> unat b \<le> hi \<and> ranges_ok lo (max hi (unat b + unat (obj_length r))) ys \<and>
    (\<exists>as bs. xs = as @ bs \<and> ys = as @ r\<lparr>obj_base := b\<rparr> # bs) \<and>
    (\<forall>a. lo \<le> a \<and> a + unat (obj_length r) \<le> hi \<and>
        (\<forall>x\<in>set xs. a + unat (obj_length r) \<le> unat (obj_base x) \<or> unat (obj_base x) + unat (obj_length x) \<le> a)
        \<longrightarrow> unat b \<le> a)"
  using assms(1,3,5)
proof (induction xs arbitrary: lo prev_end b ys)
  case Nil
  then show ?case using assms(4) by auto
next
  case (Cons x xs)
  let ?n = "unat (obj_length r)" and ?e = "unat (obj_base x) + unat (obj_length x)"
  have x: "lo \<le> unat (obj_base x)" "0 < unat (obj_length x)" "?e \<le> hi" "ranges_ok ?e hi xs"
    using Cons.prems(1) ranges_ok_mem [OF Cons.prems(1), of x] by auto
  have "unat (prev_end + obj_length r) = lo + ?n"
    using Cons.prems(2) x assms(2) by (subst unat_add_small) auto
  then have fit: "prev_end + obj_length r \<le> obj_base x \<longleftrightarrow> lo + ?n \<le> unat (obj_base x)"
    by (simp add: word_le_nat_alt)
  show ?case
  proof (cases "lo + ?n \<le> unat (obj_base x)")
    case True
    then have b: "b = prev_end" "ys = r\<lparr>obj_base := prev_end\<rparr> # x # xs" using Cons.prems(3) fit by auto
    have "ranges_ok lo (max hi (unat b + ?n)) ys"
      using b True x assms(4) Cons.prems(2) ranges_ok_mono [OF x(4), of ?e "max hi (unat b + ?n)"] by simp
    moreover have "\<exists>as bs. x # xs = as @ bs \<and> ys = as @ r\<lparr>obj_base := b\<rparr> # bs" using b by auto
    ultimately show ?thesis using b(1) Cons.prems(2) True x by auto
  next
    case False
    obtain c zs where g: "find_gap (obj_end x) r xs = (c, zs)" by (cases "find_gap (obj_end x) r xs")
    then have b: "b = c" "ys = x # zs" using Cons.prems(3) fit False by auto
    have e: "unat (obj_end x) = ?e" using x assms(2) by (intro unat_obj_end) simp
    note IH = Cons.IH [OF x(4) e g]
    then obtain as bs where ab: "xs = as @ bs" "zs = as @ r\<lparr>obj_base := c\<rparr> # bs" by blast
    have "x # xs = (x # as) @ bs \<and> ys = (x # as) @ r\<lparr>obj_base := b\<rparr> # bs" using ab b by simp
    moreover have "ranges_ok lo (max hi (unat b + ?n)) ys" using IH b x by simp
    moreover have "unat b \<le> a" if "lo \<le> a" "a + ?n \<le> hi"
      "\<forall>y\<in>set (x # xs). a + ?n \<le> unat (obj_base y) \<or> unat (obj_base y) + unat (obj_length y) \<le> a" for a
    proof -
      have "?e \<le> a" using that(1,3) False x(1) by auto
      then show ?thesis using IH that(2,3) b(1) by simp
    qed
    moreover have "?e \<le> unat c" "unat c \<le> hi" using IH by blast+
    then have "lo \<le> unat b" "unat b \<le> hi" using b(1) x(1) by auto
    ultimately show ?thesis by blast
  qed
qed

section \<open>Properties of the range list\<close>

text \<open>C11: A range inside the bounds of a space is accepted exactly when it overlaps no existing range, and it is
  then inserted at its place, so that the list stays ordered and disjoint.\<close>

theorem space_check_range_correct:
  assumes "ranges_ok (unat (start_address sp)) (unat (end_address sp)) (objects sp)" "0 < unat (obj_length r)"
    and "unat (obj_base r) + unat (obj_length r) < 2 ^ 64"
  shows "(space_check_range False r sp = None \<longleftrightarrow>
      unat (obj_base r) < unat (start_address sp) \<or> unat (end_address sp) \<le> unat (obj_base r) + unat (obj_length r) \<or>
      (\<exists>x\<in>set (objects sp). overlaps x r)) \<and>
    (\<forall>sp'. space_check_range False r sp = Some sp' \<longrightarrow>
      ranges_ok (unat (start_address sp)) (unat (end_address sp)) (objects sp') \<and>
      (\<exists>as bs. objects sp = as @ bs \<and> objects sp' = as @ r # bs))"
proof -
  have hi: "unat (end_address sp) < 2 ^ 64" using unsigned_less [of "end_address sp"] by simp
  note e = unat_obj_end [OF assms(3)]
  note n = check_list_None_iff [OF assms(1) hi assms(3,2)]
  have "ranges_ok (unat (start_address sp)) (unat (end_address sp)) (objects sp') \<and>
      (\<exists>as bs. objects sp = as @ bs \<and> objects sp' = as @ r # bs)"
    if s: "space_check_range False r sp = Some sp'" for sp'
  proof -
    have c: "\<not> obj_base r < start_address sp" "\<not> end_address sp \<le> obj_end r"
      "check_list False r (objects sp) = Some (objects sp')"
      using s by (auto simp: space_check_range_def split: if_splits)
    then show ?thesis
      using check_list_Some [OF assms(1) hi _ assms(2) _ c(3)] e by (simp add: word_less_nat_alt word_le_nat_alt)
  qed
  moreover have "space_check_range False r sp = None \<longleftrightarrow>
      unat (obj_base r) < unat (start_address sp) \<or> unat (end_address sp) \<le> unat (obj_base r) + unat (obj_length r) \<or>
      (\<exists>x\<in>set (objects sp). overlaps x r)"
    using n e by (simp add: space_check_range_def word_less_nat_alt word_le_nat_alt)
  ultimately show ?thesis by blast
qed

lemma find_free_range_spec:
  assumes "ranges_ok (unat (start_address sp)) (unat (end_address sp)) (objects sp)" "0 < unat (obj_length r)"
    and "unat (end_address sp) + unat (obj_length r) < 2 ^ 64" "start_address sp \<noteq> 0"
  shows "\<exists>r' sp'. space_find_free_range r sp = Some (r', sp') \<and> r' = r\<lparr>obj_base := obj_base r'\<rparr> \<and>
    (\<exists>as bs. objects sp = as @ bs \<and> objects sp' = as @ r' # bs) \<and>
    ranges_ok (unat (start_address sp)) (max (unat (end_address sp)) (unat (obj_base r') + unat (obj_length r))) (objects sp') \<and>
    (\<forall>a. unat (start_address sp) \<le> a \<and> a + unat (obj_length r) \<le> unat (end_address sp) \<and>
       (\<forall>x\<in>set (objects sp). a + unat (obj_length r) \<le> unat (obj_base x) \<or> unat (obj_base x) + unat (obj_length x) \<le> a)
       \<longrightarrow> unat (obj_base r') \<le> a)"
proof -
  obtain b xs where g: "find_gap (start_address sp) r (objects sp) = (b, xs)" by (cases "find_gap (start_address sp) r (objects sp)")
  note s = find_gap_spec [OF assms(1,3) refl assms(2) g]
  have "0 < unat (start_address sp)" using assms(4) by (simp add: unat_gt_0)
  then have "0 < unat b" using s by linarith
  then have "b \<noteq> 0" by auto
  then have "space_find_free_range r sp = Some (r\<lparr>obj_base := b\<rparr>, sp\<lparr>objects := xs\<rparr>)"
    using g by (simp add: space_find_free_range_def)
  with s show ?thesis by (intro exI [of _ "r\<lparr>obj_base := b\<rparr>"] exI [of _ "sp\<lparr>objects := xs\<rparr>"]) simp
qed

text \<open>C12: The search for a free range is first fit: it returns the lowest address at which the range fits
  between the existing ones, and the list stays ordered and disjoint; the range lies inside the
  space whenever some gap of the space is large enough.\<close>

theorem space_find_free_range_first_fit:
  assumes "ranges_ok (unat (start_address sp)) (unat (end_address sp)) (objects sp)" "0 < unat (obj_length r)"
    and "unat (end_address sp) + unat (obj_length r) < 2 ^ 64" "start_address sp \<noteq> 0"
  shows "\<exists>r' sp'. space_find_free_range r sp = Some (r', sp') \<and> r' = r\<lparr>obj_base := obj_base r'\<rparr> \<and>
    (\<exists>as bs. objects sp = as @ bs \<and> objects sp' = as @ r' # bs) \<and>
    ranges_ok (unat (start_address sp)) (max (unat (end_address sp)) (unat (obj_base r') + unat (obj_length r))) (objects sp') \<and>
    (\<forall>a. unat (start_address sp) \<le> a \<and> a + unat (obj_length r) \<le> unat (end_address sp) \<and>
       (\<forall>x\<in>set (objects sp). a + unat (obj_length r) \<le> unat (obj_base x) \<or> unat (obj_base x) + unat (obj_length x) \<le> a)
       \<longrightarrow> unat (obj_base r') \<le> a)"
  by (rule find_free_range_spec [OF assms])

section \<open>Page faults\<close>

lemma table_at_frames [simp]: "table_at (m\<lparr>mmu_frames := f\<rparr>) root p = table_at m root p"
  by (induction p) (simp_all add: get_pte_def)

lemma translate_frames [simp]: "translate (m\<lparr>mmu_frames := f\<rparr>) root va = translate m root va"
  by (simp add: trans_leaf leaf_def)

lemma pt_inv_alloc:
  assumes "pt_inv m root" "pmm_allocate (mmu_frames m) = Some (ph, f)"
  shows "pt_inv (m\<lparr>mmu_frames := f\<rparr>) root" "ph \<in> free_pages (mmu_frames m)" "ph \<noteq> 0" "unat ph < 2 ^ 48"
    "ph AND NOT (mask 12) = ph"
proof -
  have fr: "frames_ok (mmu_frames m)" using assms(1) by (simp add: pt_inv_def)
  note f = fresh_table [OF fr assms(2)]
  show "pt_inv (m\<lparr>mmu_frames := f\<rparr>) root" using assms(1) f(1,3) unfolding pt_inv_def by auto
  show "ph \<in> free_pages (mmu_frames m)" "ph \<noteq> 0" using f by auto
  show "unat ph < 2 ^ 48" using fr f(2) by (auto simp: frames_ok_def)
  show "ph AND NOT (mask 12) = ph" using pmm_allocate_Some(1) [OF assms(2)] frame_addr_page by simp
qed

text \<open>C13: A write fault on a present page of a copy-on-write range succeeds: the page then translates to a
  frame that was free before, writable and owned by the space; the frame holds zeroes if the page was
  still the shared zero page and a copy of the old frame otherwise; no other page of the space and no
  other frame changes.\<close>

theorem cow_fault_private_copy:
  assumes inv: "pt_inv (vm_mmu v) (mmu_root sp)"
    and user: "VM_USERSPACE_BASE \<le> addr" "addr \<le> VM_USERSPACE_END"
    and rng: "vm_space_get_range sp addr = Some rng"
    and acc: "flags AND VM_FAULT_PRESENT \<noteq> 0" "flags AND VM_FAULT_WRITE \<noteq> 0" "\<not> fault_denied flags (obj_prot rng)"
    and cow: "obj_flags rng AND VM_FLAG_COW \<noteq> 0" "obj_prot rng AND PROT_READ \<noteq> 0"
    and fault: "vm_page_fault fo addr flags (Some sp) v = Some (ok, cur', v')"
  shows "ok \<and> pt_inv (vm_mmu v') (mmu_root sp) \<and> (\<exists>new\<in>free_pages (vm_frames v).
    (\<forall>va. translate (vm_mmu v') (mmu_root sp) va =
       (if vpn va = vpn addr
        then Some (new, (obj_prot rng OR PROT_WRITE) AND mask 6, (obj_flags rng OR VM_FLAG_OWNER) AND VM_FLAG_OWNER)
        else translate (vm_mmu v) (mmu_root sp) va)) \<and>
    phys_mem v' = (phys_mem v)(new :=
       (let b = mapping_base (mmu_get_phys (vm_mmu v) (mmu_root sp) addr)
        in if b = zero_cowmem v then (\<lambda>_. 0) else phys_mem v b)))"
proof -
  have r0: "bit (obj_prot rng) 0" using cow(2) by (simp add: prot_bits test_bit del: power_0)
  have rw: "obj_prot rng AND (PROT_READ OR PROT_WRITE) \<noteq> 0"
  proof
    assume "obj_prot rng AND (PROT_READ OR PROT_WRITE) = 0"
    then have "bit (obj_prot rng AND (PROT_READ OR PROT_WRITE)) 0 = False" by simp
    with r0 show False by (simp add: bit_and_iff bit_or_iff PROT_READ_def)
  qed
  have lim: "\<not> addr < VM_USERSPACE_BASE" "\<not> VM_USERSPACE_END < addr" using user by (simp_all add: not_less)
  have f: "(do { (b, space, v) \<leftarrow> cow_fault rng addr sp v; Some (b, Some space, v) }) = Some (ok, cur', v')"
    using fault lim rng acc cow rw by (simp add: vm_page_fault_def)
  then obtain new f where al: "pmm_allocate (vm_frames v) = Some (new, f)"
    by (cases "pmm_allocate (vm_frames v)") (auto simp: cow_fault_def Let_def)
  note a = pt_inv_alloc [OF inv al [unfolded vm_frames_def]]
  let ?v = "(with_frames f v)\<lparr>phys_mem := (phys_mem v)(new :=
      (if mapping_base (vm_space_get_mapping sp addr v) = zero_cowmem v then (\<lambda>_. 0)
       else phys_mem v (mapping_base (vm_space_get_mapping sp addr v))))\<rparr>"
  obtain m where m: "mmu_map (mmu_root sp) new addr (obj_prot rng OR PROT_WRITE) (obj_flags rng OR VM_FLAG_OWNER)
      ((vm_mmu v)\<lparr>mmu_frames := f\<rparr>) = Some m" and res: "ok" "v' = ?v\<lparr>vm_mmu := m\<rparr>"
    using f al a(3)
    by (cases "mmu_map (mmu_root sp) new addr (obj_prot rng OR PROT_WRITE) (obj_flags rng OR VM_FLAG_OWNER)
        ((vm_mmu v)\<lparr>mmu_frames := f\<rparr>)") (auto simp: cow_fault_def Let_def with_frames_def)
  note s = mmu_map_step [OF a(1,4) m]
  have "bit (obj_prot rng OR PROT_WRITE) 0" using r0 by (simp add: bit_or_iff)
  then show ?thesis
    using s res a(2,5) by (auto simp: vm_frames_def vm_space_get_mapping_def Let_def with_frames_def)
qed

text \<open>A fault outside the user half, outside every range of the space, without a current task, or with an
  access the range does not allow is reported as unresolved and changes nothing.\<close>

lemma vm_page_fault_rejects:
  assumes "addr < VM_USERSPACE_BASE \<or> VM_USERSPACE_END < addr \<or> cur = None \<or>
    (\<exists>sp. cur = Some sp \<and> (vm_space_get_range sp addr = None \<or>
       (\<exists>rng. vm_space_get_range sp addr = Some rng \<and> fault_denied flags (obj_prot rng))))"
  shows "vm_page_fault fo addr flags cur v = Some (False, cur, v)"
  using assms by (auto simp: vm_page_fault_def)

section \<open>Witnesses\<close>

definition demo_object :: vm_object where
  "demo_object = \<lparr>obj_base = 0x400000, obj_length = 0x2000, obj_prot = 11, obj_flags = VM_FLAG_COW,
     obj_file = None, obj_offset = 0, obj_ops = None\<rparr>"

definition demo_space :: vm_space where
  "demo_space = (empty_space VM_USERSPACE_BASE VM_USERSPACE_END demo_root)\<lparr>objects := [demo_object]\<rparr>"

definition demo_vm :: vm where
  "demo_vm = \<lparr>vm_mmu = demo_mmu, phys_mem = \<lambda>_ _. 7, zero_cowmem = 0x2000\<rparr>"

lemmas demo_space_simps = demo_space_def empty_space_def demo_object_def VM_USERSPACE_BASE_def VM_USERSPACE_END_def

lemma demo_ranges_ok: "ranges_ok (unat (start_address demo_space)) (unat (end_address demo_space)) (objects demo_space)"
  by (simp add: demo_space_simps)

theorem space_check_range_correct_witness:
  "space_check_range False (demo_object\<lparr>obj_base := 0x401000\<rparr>) demo_space = None"
proof -
  have "overlaps demo_object (demo_object\<lparr>obj_base := 0x401000\<rparr>)" by (simp add: overlaps_def demo_object_def)
  then show ?thesis
    using space_check_range_correct [OF demo_ranges_ok, of "demo_object\<lparr>obj_base := 0x401000\<rparr>"]
    by (simp add: demo_object_def demo_space_def)
qed

theorem space_find_free_range_first_fit_witness:
  "\<exists>r' sp'. space_find_free_range demo_object demo_space = Some (r', sp') \<and> unat (obj_base r') \<le> 0x10000"
proof -
  have "\<forall>x\<in>set (objects demo_space). (0x10000 :: nat) + unat (obj_length demo_object) \<le> unat (obj_base x) \<or>
      unat (obj_base x) + unat (obj_length x) \<le> 0x10000" by (simp add: demo_space_simps)
  then show ?thesis
    using space_find_free_range_first_fit [OF demo_ranges_ok, of demo_object]
    by (auto simp: demo_space_simps)
qed

lemma demo_fault: "\<exists>r. vm_page_fault (\<lambda>_ _ _ _ _ _. None) 0x400000 3 (Some demo_space) demo_vm = Some r"
proof -
  have g: "vm_space_get_range demo_space 0x400000 = Some demo_object"
    by (simp add: vm_space_get_range_def demo_space_simps obj_end_def)
  obtain new f where al: "pmm_allocate (mmu_frames demo_mmu) = Some (new, f)"
    using pmm_allocate_None [of "mmu_frames demo_mmu"] demo_frames4_pages(1)
    by (cases "pmm_allocate (mmu_frames demo_mmu)") (auto simp: demo_mmu_def)
  note a = pt_inv_alloc [OF demo_pt_inv al]
  have inv: "pmm_inv (mmu_frames demo_mmu)" using demo_frames_ok by (simp add: frames_ok_def demo_mmu_def)
  have "free_pages f = free_pages (mmu_frames demo_mmu) - {new}" "new \<in> free_pages (mmu_frames demo_mmu)"
    using pmm_pages.alloc_law [OF inv al] by simp_all
  then have "3 \<le> card (free_pages f)" by (simp add: demo_mmu_def demo_frames4_pages(2) card_Diff_singleton)
  then have "\<exists>m'. mmu_map demo_root new 0x400000 prot flags (demo_mmu\<lparr>mmu_frames := f\<rparr>) = Some m'" for prot flags
    by (intro mmu_map_total [OF a(1)]) simp
  then obtain m' where "mmu_map demo_root new 0x400000 (obj_prot demo_object OR PROT_WRITE)
      (obj_flags demo_object OR VM_FLAG_OWNER) (demo_mmu\<lparr>mmu_frames := f\<rparr>) = Some m'" by blast
  then have "\<exists>r. cow_fault demo_object 0x400000 demo_space demo_vm = Some r"
    using al a(3) by (auto simp: cow_fault_def Let_def vm_frames_def with_frames_def demo_vm_def demo_space_def empty_space_def)
  then show ?thesis using g
    by (auto simp: vm_page_fault_def fault_denied_def demo_object_def VM_USERSPACE_BASE_def VM_USERSPACE_END_def
        VM_FAULT_WRITE_def VM_FAULT_USER_def VM_FAULT_FETCH_def VM_FAULT_PRESENT_def PROT_WRITE_def PROT_READ_def VM_FLAG_COW_def)
qed

theorem cow_fault_private_copy_witness:
  "\<exists>cur' v' new. vm_page_fault (\<lambda>_ _ _ _ _ _. None) 0x400000 3 (Some demo_space) demo_vm = Some (True, cur', v') \<and>
    new \<in> free_pages (vm_frames demo_vm) \<and> translate (vm_mmu v') demo_root 0x400000 = Some (new, 11, 16)"
proof -
  obtain ok cur' v' where f: "vm_page_fault (\<lambda>_ _ _ _ _ _. None) 0x400000 3 (Some demo_space) demo_vm = Some (ok, cur', v')"
    using demo_fault by (metis prod.collapse)
  have g: "vm_space_get_range demo_space 0x400000 = Some demo_object"
    by (simp add: vm_space_get_range_def demo_space_simps obj_end_def)
  have root: "mmu_root demo_space = demo_root" by (simp add: demo_space_def empty_space_def)
  have inv: "pt_inv (vm_mmu demo_vm) (mmu_root demo_space)" using demo_pt_inv root by (simp add: demo_vm_def)
  have side: "VM_USERSPACE_BASE \<le> 0x400000" "0x400000 \<le> VM_USERSPACE_END" "3 AND VM_FAULT_PRESENT \<noteq> 0"
    "3 AND VM_FAULT_WRITE \<noteq> 0" "\<not> fault_denied 3 (obj_prot demo_object)"
    "obj_flags demo_object AND VM_FLAG_COW \<noteq> 0" "obj_prot demo_object AND PROT_READ \<noteq> 0"
    by (simp_all add: VM_USERSPACE_BASE_def VM_USERSPACE_END_def VM_FAULT_PRESENT_def VM_FAULT_WRITE_def fault_denied_def
        demo_object_def VM_FAULT_USER_def VM_FAULT_FETCH_def PROT_WRITE_def PROT_READ_def VM_FLAG_COW_def)
  from cow_fault_private_copy [OF inv side(1,2) g side(3-7) f] f root show ?thesis
    by (auto simp: demo_object_def PROT_WRITE_def VM_FLAG_OWNER_def VM_FLAG_COW_def mask_eq_exp_minus_1)
qed

end
