(* ===== verification/Vm_Syscall.thy ===== *)
theory Vm_Syscall
  imports Vm_Space
begin

text \<open>
  The memory system calls of \<^verbatim>\<open>mm/vm_syscall.c\<close>.  They return a 64-bit value; the error returns of
  \<^verbatim>\<open>sys_mmap\<close> are the positive error numbers the code returns.  The current task is its address
  space and its table of open files; reading that table outside its 32 entries is \<^term>\<open>None\<close>.
\<close>

definition MAP_SHARED :: u32 where "MAP_SHARED = 0x1"
definition MAP_PRIVATE :: u32 where "MAP_PRIVATE = 0x2"
definition MAP_FIXED :: u32 where "MAP_FIXED = 0x10"
definition MAP_ANONYMOUS :: u32 where "MAP_ANONYMOUS = 0x20"

lemmas map_flag_defs = MAP_SHARED_def MAP_PRIVATE_def MAP_FIXED_def MAP_ANONYMOUS_def

definition errno_word :: "errno \<Rightarrow> u64" where
  "errno_word e = of_int (errno_number e)"

definition mmap_info :: "u64 \<Rightarrow> u32 \<Rightarrow> u32 \<Rightarrow> virtaddr \<Rightarrow> u64 \<Rightarrow> int \<Rightarrow> u32 \<Rightarrow> vm_mapping_info" where
  "mmap_info len prot flags addr offset fd kind =
     \<lparr>info_length = len, info_prot = (prot AND 7) OR PROT_USER,
      info_flags = (if flags AND MAP_FIXED \<noteq> 0 then VM_FLAG_REPLACE else 0) OR kind,
      phys_base = 0, virt_base = (if flags AND MAP_FIXED \<noteq> 0 then addr else 0),
      info_offset = offset, info_fd = fd\<rparr>"

definition sys_mmap :: "'v file_iface \<Rightarrow> (nat \<Rightarrow> bool) \<Rightarrow> int list \<Rightarrow> virtaddr \<Rightarrow> u64 \<Rightarrow> u32 \<Rightarrow> u32 \<Rightarrow> int \<Rightarrow> u64 \<Rightarrow>
    vm_space \<Rightarrow> vm \<Rightarrow> 'v \<Rightarrow> (u64 \<times> vm_space \<times> vm \<times> 'v) option" where
  "sys_mmap fi has_mmap open_files addr len prot flags fd offset space v w =
     (if len = 0 \<or> offset AND 0xFFF \<noteq> 0 then Some (errno_word EINVAL, space, v, w)
      else if flags AND MAP_PRIVATE = 0 \<and> flags AND MAP_SHARED = 0 then Some (errno_word EINVAL, space, v, w)
      else if flags AND MAP_PRIVATE \<noteq> 0 \<and> flags AND MAP_SHARED \<noteq> 0 then Some (errno_word EINVAL, space, v, w)
      else if flags AND MAP_ANONYMOUS \<noteq> 0 then
        if fd \<ge> 0 then Some (errno_word EINVAL, space, v, w)
        else if flags AND MAP_SHARED \<noteq> 0 then Some (errno_word ENOTSUP, space, v, w)
        else vm_space_map fi (mmap_info len prot flags addr 0 0 0) space v w
      else if fd < 0 then Some (errno_word EBADF, space, v, w)
      else if length open_files \<le> nat fd then None
      else let v_fd = open_files ! nat fd
           in if v_fd < 0 then Some (errno_word EBADF, space, v, w)
              else if \<not> has_mmap (if_get_fd fi v_fd w) then Some (errno_word ENODEV, space, v, w)
              else vm_space_map fi (mmap_info len prot flags addr offset v_fd VM_FLAG_FILE) space v w)"

definition sys_munmap :: "'v file_iface \<Rightarrow> virtaddr \<Rightarrow> u64 \<Rightarrow> vm_space \<Rightarrow> vm \<Rightarrow> 'v \<Rightarrow> (unit result \<times> vm_space \<times> vm \<times> 'v) option" where
  "sys_munmap fi addr len space v w =
     (if len = 0 \<or> addr AND 0xFFF \<noteq> 0 then Some (Inl EINVAL, space, v, w)
      else if \<not> vm_validate_ptr addr len then Some (Inl EINVAL, space, v, w)
      else do { (space, v, w) \<leftarrow> vm_space_unmap fi addr len space v w; Some (Inr (), space, v, w) })"

definition sys_mprotect :: "virtaddr \<Rightarrow> u64 \<Rightarrow> u32 \<Rightarrow> unit result" where
  "sys_mprotect addr len prot = Inl ENOSYS"

section \<open>Anonymous mappings\<close>

definition page_in :: "virtaddr \<Rightarrow> nat \<Rightarrow> virtaddr \<Rightarrow> bool" where
  "page_in base n va \<longleftrightarrow> vpn va \<in> (\<lambda>i. vpn (base + of_nat i * CONFIG_PAGE_SIZE)) ` {..<n}"

lemma page_in_0 [simp]: "\<not> page_in base 0 va"
  by (simp add: page_in_def)

lemma page_in_Suc: "page_in base (Suc n) va \<longleftrightarrow> vpn va = vpn base \<or> page_in (base + CONFIG_PAGE_SIZE) n va"
  unfolding page_in_def lessThan_Suc_eq_insert_0 by (simp add: image_image algebra_simps)

lemma pages_of_decrement: "len \<noteq> 0 \<Longrightarrow> pages_of len = Suc (pages_of (page_decrement len))"
proof -
  assume "len \<noteq> 0"
  then have "0 < len" by (simp add: word_neq_0_conv)
  note p = pages_of_step [OF this]
  consider "len < CONFIG_PAGE_SIZE" | "len = CONFIG_PAGE_SIZE" | "\<not> len \<le> CONFIG_PAGE_SIZE" by force
  then show ?thesis
    using p by cases (simp_all add: page_decrement_def pages_of_def not_le)
qed

text \<open>The mapping loop of an anonymous mapping that is not populated: every page shows the zero page.\<close>

definition zero_mapped :: "virtaddr \<Rightarrow> nat \<Rightarrow> u32 \<Rightarrow> vm_space \<Rightarrow> vm \<Rightarrow> vm_space \<Rightarrow> vm \<Rightarrow> bool" where
  "zero_mapped base n prot sp v sp' v' \<longleftrightarrow>
     pt_inv (vm_mmu v') (mmu_root sp) \<and> sp' = sp\<lparr>mapped_anon := mapped_anon sp + of_nat n\<rparr> \<and>
     phys_mem v' = phys_mem v \<and> zero_cowmem v' = zero_cowmem v \<and>
     (\<forall>va. translate (vm_mmu v') (mmu_root sp) va =
       (if page_in base n va then Some (zero_cowmem v AND NOT (mask 12), prot AND mask 6, 0)
        else translate (vm_mmu v) (mmu_root sp) va))"

lemma map_loop_zero:
  assumes "pt_inv (vm_mmu v) (mmu_root sp)" "unat (zero_cowmem v) < 2 ^ 48" "bit prot 0"
    and "map_loop False False prot ph 0 base len sp v = Some (sp', v')"
  shows "zero_mapped base (pages_of len) prot sp v sp' v'"
  using assms
proof (induction "unat len" arbitrary: base len sp v ph rule: less_induct)
  case less
  show ?case
  proof (cases "len = 0")
    case True
    then show ?thesis using less.prems by (simp add: map_loop.simps pages_of_def zero_mapped_def)
  next
    case False
    have rd: "prot AND PROT_READ \<noteq> 0" using less.prems(3) by (simp add: prot_bits test_bit del: power_0)
    obtain m where m: "mmu_map (mmu_root sp) (zero_cowmem v) base prot 0 (vm_mmu v) = Some m"
      and loop: "map_loop False False prot (zero_cowmem v) 0 (base + CONFIG_PAGE_SIZE) (page_decrement len)
        (sp\<lparr>mapped_anon := mapped_anon sp + 1\<rparr>) (v\<lparr>vm_mmu := m\<rparr>) = Some (sp', v')"
      using less.prems(4) False rd
      by (cases "mmu_map (mmu_root sp) (zero_cowmem v) base prot 0 (vm_mmu v)")
        (simp_all add: map_loop.simps [of _ _ _ _ _ _ len] next_frame_def)
    note step = mmu_map_step [OF less.prems(1,2) m]
    have "zero_mapped (base + CONFIG_PAGE_SIZE) (pages_of (page_decrement len)) prot
        (sp\<lparr>mapped_anon := mapped_anon sp + 1\<rparr>) (v\<lparr>vm_mmu := m\<rparr>) sp' v'"
      by (rule less.hyps [OF page_decrement_less [OF False] _ _ less.prems(3) loop]) (use step less.prems(2) in auto)
    then show ?thesis
      using step less.prems(3) unfolding zero_mapped_def pages_of_decrement [OF False] page_in_Suc
      by (auto simp: algebra_simps)
  qed
qed

text \<open>The request an anonymous private mapping makes.\<close>

definition anon_object :: "u64 \<Rightarrow> u32 \<Rightarrow> virtaddr \<Rightarrow> vm_object" where
  "anon_object len prot base = \<lparr>obj_base = base, obj_length = align_up len CONFIG_PAGE_SIZE,
     obj_prot = (prot AND 7) OR PROT_USER, obj_flags = (if prot AND PROT_WRITE \<noteq> 0 then VM_FLAG_COW else 0),
     obj_file = None, obj_offset = 0, obj_ops = None\<rparr>"

lemma user_prot_bits:
  "((p AND 7) OR PROT_USER) AND PROT_WRITE \<noteq> 0 \<longleftrightarrow> p AND PROT_WRITE \<noteq> 0"
  "bit (((p AND 7) OR PROT_USER) AND NOT PROT_WRITE) 0 \<longleftrightarrow> p AND PROT_READ \<noteq> 0"
  "bit ((p AND 7) OR PROT_USER) 0 \<longleftrightarrow> p AND PROT_READ \<noteq> 0"
  unfolding prot_bits test_bit by (simp_all add: bit_simps)

lemma drop_write: "\<not> bit (p :: u32) 1 \<Longrightarrow> p AND NOT PROT_WRITE = p"
  unfolding prot_bits by (rule bit_eqI) (auto simp: bit_simps)

lemma user_prot_masked: "(((p AND 7) OR PROT_USER) AND NOT PROT_WRITE) AND mask 6 = (p AND 5) OR PROT_USER"
  by (rule bit_eqI) (auto simp: bit_simps prot_bits bit_numeral_rec less_Suc_eq numeral_eq_Suc)

lemma vm_space_map_anonymous:
  assumes "p = (prot AND 7) OR PROT_USER" "info = \<lparr>info_length = len, info_prot = p, info_flags = 0, phys_base = 0,
      virt_base = 0, info_offset = 0, info_fd = 0\<rparr>"
  shows "vm_space_map fi info sp v w =
    (case space_find_free_range (anon_object len prot 0) sp of None \<Rightarrow> Some (0, sp, v, w)
     | Some (r, sp1) \<Rightarrow> do {
         (sp2, v2) \<leftarrow> map_loop False False (p AND NOT PROT_WRITE) (zero_cowmem v) 0 (obj_base r) (obj_length (anon_object len prot 0)) sp1 v;
         Some (obj_base r, sp2, v2, w)
       })"
proof -
  have nw: "\<not> prot AND PROT_WRITE \<noteq> 0 \<Longrightarrow> p AND NOT PROT_WRITE = p"
    using user_prot_bits(1) [of prot] assms(1) unfolding prot_bits test_bit
    by (metis drop_write prot_bits(2) prot_bits(4))
  have "align_down 0 CONFIG_PAGE_SIZE = 0" by (simp add: align_down_def)
  then show ?thesis
    using nw user_prot_bits(1) [of prot] assms
    by (cases "prot AND PROT_WRITE = 0")
      (simp_all add: vm_space_map_def Let_def anon_object_def VM_FLAG_COW_def VM_FLAG_DEVICE_def VM_FLAG_FILE_def
        VM_FLAG_ALLOCATE_def VM_FLAG_REPLACE_def split: option.split prod.split)
qed

lemma ranges_ok_middle:
  "ranges_ok lo hi (as @ r # bs) \<Longrightarrow> lo \<le> unat (obj_base r) \<and> (\<forall>x\<in>set (as @ bs). \<not> overlaps x r)"
proof (induction as arbitrary: lo)
  case Nil
  then have "unat (obj_base r) + unat (obj_length r) \<le> unat (obj_base x)" if "x \<in> set bs" for x
    using ranges_ok_mem [of _ hi bs x] that by simp
  then show ?case using Nil by (force simp: overlaps_def)
next
  case (Cons a as)
  let ?e = "unat (obj_base a) + unat (obj_length a)"
  have "?e \<le> unat (obj_base r) \<and> (\<forall>x\<in>set (as @ bs). \<not> overlaps x r)" by (rule Cons.IH) (use Cons.prems in simp)
  then show ?case using Cons.prems by (simp add: overlaps_def)
qed


definition demo_files :: "unit file_iface" where
  "demo_files = \<lparr>if_get_fd = (\<lambda>_ _. 0), if_ref_file = (\<lambda>_ w. w), if_put_file = (\<lambda>_ w. w), if_mmap = (\<lambda>_ ob w. (ob, w))\<rparr>"

lemma demo_mmap: "\<exists>r. sys_mmap demo_files (\<lambda>_. False) [] 0 0x1000 3 (MAP_PRIVATE OR MAP_ANONYMOUS) (-1) 0 demo_space demo_vm () = Some r"
proof -
  have a: "align_up 0x1000 CONFIG_PAGE_SIZE = (0x1000 :: u64)" by (simp add: align_up_def CONFIG_PAGE_SIZE_def)
  obtain m where m: "mmu_map demo_root 0x2000 0x10000 9 0 demo_mmu = Some m" using demo_map_some by blast
  have i: "mmap_info 0x1000 3 (MAP_PRIVATE OR MAP_ANONYMOUS) 0 0 0 0 = \<lparr>info_length = 0x1000, info_prot = (3 AND 7) OR PROT_USER,
      info_flags = 0, phys_base = 0, virt_base = 0, info_offset = 0, info_fd = 0\<rparr>"
    by (simp add: mmap_info_def map_flag_defs)
  have f: "space_find_free_range (anon_object 0x1000 3 0) demo_space =
      Some (anon_object 0x1000 3 0x10000, demo_space\<lparr>objects := [anon_object 0x1000 3 0x10000, demo_object]\<rparr>)"
    by (simp add: space_find_free_range_def anon_object_def a demo_space_simps)
  have "sys_mmap demo_files (\<lambda>_. False) [] 0 0x1000 3 (MAP_PRIVATE OR MAP_ANONYMOUS) (-1) 0 demo_space demo_vm () =
      vm_space_map demo_files (mmap_info 0x1000 3 (MAP_PRIVATE OR MAP_ANONYMOUS) 0 0 0 0) demo_space demo_vm ()"
    by (simp add: sys_mmap_def map_flag_defs)
  then show ?thesis
    using m unfolding vm_space_map_anonymous [OF refl i] f
    by (simp add: map_loop.simps [of _ _ _ _ _ _ "0x1000"] map_loop.simps [of _ _ _ _ _ _ 0] anon_object_def a a [unfolded CONFIG_PAGE_SIZE_def] next_frame_def
        PROT_USER_def PROT_WRITE_def PROT_READ_def demo_vm_def demo_space_def empty_space_def page_decrement_def CONFIG_PAGE_SIZE_def)
qed


end
