(* ===== verification/Spinlock.thy ===== *)
theory Spinlock
  imports Kernel_Prelude
begin

text \<open>
  Ticket spinlocks (\<^verbatim>\<open>include/sys/spinlock.h\<close>), the interrupt flag they save
  (\<^verbatim>\<open>include/arch/x86_64/irq.h\<close>) and reference counts with a lock (\<^verbatim>\<open>include/sys/reflock.h\<close>).
  Tickets are 16 bits wide and wrap around.  The atomic accesses of the lock are the steps of an
  interleaving of threads; the memory orders are taken as sequentially consistent.
\<close>

section \<open>The interrupt flag\<close>

definition RFLAGS_IF :: u64 where "RFLAGS_IF = 0x200"

definition local_irq_disable :: "u64 \<Rightarrow> u64" where
  "local_irq_disable rflags = rflags AND NOT RFLAGS_IF"

definition local_irq_enable :: "u64 \<Rightarrow> u64" where
  "local_irq_enable rflags = rflags OR RFLAGS_IF"

definition local_irq_save :: "u64 \<Rightarrow> u64 \<times> u64" where
  "local_irq_save rflags = (rflags, local_irq_disable rflags)"

definition local_irq_restore :: "u64 \<Rightarrow> u64 \<Rightarrow> u64" where
  "local_irq_restore flags rflags = flags"

section \<open>The lock\<close>

record spinlock =
  next_ticket :: u16
  now_serving :: u16

definition spinlock_init :: spinlock where
  "spinlock_init = \<lparr>next_ticket = 0, now_serving = 0\<rparr>"

text \<open>The two atomic accesses of \<^verbatim>\<open>spinlock_acquire\<close>: drawing a ticket and the test of its loop.\<close>

definition take_ticket :: "spinlock \<Rightarrow> u16 \<times> spinlock" where
  "take_ticket spin = (next_ticket spin, spin\<lparr>next_ticket := next_ticket spin + 1\<rparr>)"

definition serves :: "spinlock \<Rightarrow> u16 \<Rightarrow> bool" where
  "serves spin ticket \<longleftrightarrow> now_serving spin = ticket"

definition spinlock_release :: "spinlock \<Rightarrow> spinlock" where
  "spinlock_release spin = spin\<lparr>now_serving := now_serving spin + 1\<rparr>"

text \<open>The acquisition when no other CPU touches the lock; \<^term>\<open>None\<close> is spinning forever.\<close>

definition spinlock_acquire :: "spinlock \<Rightarrow> spinlock option" where
  "spinlock_acquire spin = (let (ticket, spin) = take_ticket spin in if serves spin ticket then Some spin else None)"

definition spinlock_acquire_irqsave :: "spinlock \<Rightarrow> u64 \<Rightarrow> (u64 \<times> spinlock \<times> u64) option" where
  "spinlock_acquire_irqsave spin rflags =
     (let (old, rflags) = local_irq_save rflags in do { spin \<leftarrow> spinlock_acquire spin; Some (old, spin, rflags) })"

definition spinlock_release_irqsave :: "spinlock \<Rightarrow> u64 \<Rightarrow> u64 \<Rightarrow> spinlock \<times> u64" where
  "spinlock_release_irqsave spin flags rflags = (spinlock_release spin, local_irq_restore flags rflags)"

section \<open>Reference counts\<close>

record reflock =
  ref_lock :: spinlock
  ref_count :: u32

definition reflock_init :: reflock where
  "reflock_init = \<lparr>ref_lock = spinlock_init, ref_count = 0\<rparr>"

definition reflock_acquire :: "reflock \<Rightarrow> reflock" where
  "reflock_acquire ref = ref\<lparr>ref_count := ref_count ref + 1\<rparr>"

definition reflock_release_or_lock :: "reflock \<Rightarrow> (bool \<times> reflock) option" where
  "reflock_release_or_lock ref =
     (let count = ref_count ref; ref = ref\<lparr>ref_count := count - 1\<rparr>
      in if 1 < count then Some (False, ref)
         else do { spin \<leftarrow> spinlock_acquire (ref_lock ref); Some (True, ref\<lparr>ref_lock := spin\<rparr>) })"

section \<open>Threads competing for a lock\<close>

datatype phase = Out | Waiting u16 | Inside

record spin_state =
  slock :: spinlock
  phase_of :: "nat \<Rightarrow> phase"

definition spin_start :: spin_state where
  "spin_start = \<lparr>slock = spinlock_init, phase_of = (\<lambda>_. Out)\<rparr>"

inductive spin_step :: "nat \<Rightarrow> spin_state \<Rightarrow> spin_state \<Rightarrow> bool" for N where
  take: "\<lbrakk>t < N; phase_of s t = Out; take_ticket (slock s) = (ticket, spin)\<rbrakk> \<Longrightarrow>
    spin_step N s (s\<lparr>slock := spin, phase_of := (phase_of s)(t := Waiting ticket)\<rparr>)"
| spin: "\<lbrakk>t < N; phase_of s t = Waiting ticket; \<not> serves (slock s) ticket\<rbrakk> \<Longrightarrow> spin_step N s s"
| enter: "\<lbrakk>t < N; phase_of s t = Waiting ticket; serves (slock s) ticket\<rbrakk> \<Longrightarrow>
    spin_step N s (s\<lparr>phase_of := (phase_of s)(t := Inside)\<rparr>)"
| leave: "\<lbrakk>t < N; phase_of s t = Inside\<rbrakk> \<Longrightarrow>
    spin_step N s (s\<lparr>slock := spinlock_release (slock s), phase_of := (phase_of s)(t := Out)\<rparr>)"

text \<open>The abstract lock is a queue of threads; its first thread may be inside.\<close>

inductive queue_step :: "nat list \<times> bool \<Rightarrow> nat list \<times> bool \<Rightarrow> bool" where
  join: "t \<notin> set q \<Longrightarrow> queue_step (q, b) (q @ [t], b)"
| stay: "queue_step (q, b) (q, b)"
| go_in: "queue_step (t # q, False) (t # q, True)"
| go_out: "queue_step (t # q, True) (q, False)"

text \<open>A state of the lock and the queue it stands for.\<close>

definition abstracts :: "nat \<Rightarrow> spin_state \<Rightarrow> nat list \<times> bool \<Rightarrow> bool" where
  "abstracts N s a \<longleftrightarrow> (let (q, b) = a in
     distinct q \<and> set q \<subseteq> {..<N} \<and> (b \<longrightarrow> q \<noteq> []) \<and> (\<forall>t. t \<in> set q \<longleftrightarrow> phase_of s t \<noteq> Out) \<and>
     next_ticket (slock s) = now_serving (slock s) + of_nat (length q) \<and>
     (\<forall>i<length q. phase_of s (q ! i) = (if i = 0 \<and> b then Inside else Waiting (now_serving (slock s) + of_nat i))))"

lemma abstracts_start: "abstracts N spin_start ([], False)"
  by (simp add: abstracts_def spin_start_def spinlock_init_def)

lemma abstracts_length:
  assumes "abstracts N s (q, b)" shows "length q \<le> N"
proof -
  have "card (set q) \<le> card {..<N}" using assms by (intro card_mono) (auto simp: abstracts_def)
  then show ?thesis using assms by (simp add: abstracts_def distinct_card)
qed

lemma ticket_inj:
  assumes "i < 2 ^ 16" "j < 2 ^ 16" "(n :: u16) + of_nat i = n + of_nat j" shows "i = j"
proof -
  have "unat (of_nat i :: u16) = i" "unat (of_nat j :: u16) = j"
    using assms(1,2) by (simp_all add: unat_of_nat take_bit_nat_eq_self)
  then show ?thesis using assms(3) by (metis add_left_cancel)
qed

text \<open>The thread whose ticket is served is the first of the queue.\<close>

lemma served_first:
  assumes "abstracts N s (q, b)" "N \<le> 2 ^ 16" "phase_of s t = Waiting ticket" "serves (slock s) ticket"
  shows "\<exists>r. q = t # r \<and> \<not> b"
proof -
  have t: "t \<in> set q" using assms(1,3) by (simp add: abstracts_def)
  then obtain i where i: "i < length q" "q ! i = t" by (auto simp: in_set_conv_nth)
  have w: "\<not> (i = 0 \<and> b)" "ticket = now_serving (slock s) + of_nat i"
    using assms(1,3) i by (auto simp: abstracts_def split: if_splits)
  have "i < 2 ^ 16" using i(1) abstracts_length [OF assms(1)] assms(2) by simp
  then have "i = 0" using ticket_inj [of i 0 "now_serving (slock s)"] w(2) assms(4) by (simp add: serves_def)
  then show ?thesis using i w(1) by (cases q) auto
qed

lemma inside_first:
  assumes "abstracts N s (q, b)" "phase_of s t = Inside"
  shows "\<exists>r. q = t # r \<and> b"
proof -
  have "t \<in> set q" using assms by (simp add: abstracts_def)
  then obtain i where "i < length q" "q ! i = t" by (auto simp: in_set_conv_nth)
  moreover from this have "i = 0 \<and> b" using assms by (auto simp: abstracts_def split: if_splits)
  ultimately show ?thesis by (cases q) auto
qed

lemma abstracts_take:
  assumes "abstracts N s (q, b)" "t < N" "phase_of s t = Out" "take_ticket (slock s) = (ticket, spin)"
  shows "abstracts N (s\<lparr>slock := spin, phase_of := (phase_of s)(t := Waiting ticket)\<rparr>) (q @ [t], b) \<and> t \<notin> set q"
proof -
  have t: "t \<notin> set q" using assms(1,3) by (simp add: abstracts_def)
  then have "q ! i \<noteq> t" if "i < length q" for i using that by (metis nth_mem)
  then show ?thesis
    using assms t by (auto simp: abstracts_def take_ticket_def nth_append less_Suc_eq add.commute add.left_commute)
qed

lemma abstracts_enter:
  assumes "abstracts N s (t # q, False)"
  shows "abstracts N (s\<lparr>phase_of := (phase_of s)(t := Inside)\<rparr>) (t # q, True)"
proof -
  have "q ! i \<noteq> t" if "i < length q" for i using assms that by (auto simp: abstracts_def)
  then show ?thesis using assms by (auto simp: abstracts_def nth_Cons split: nat.splits)
qed

lemma abstracts_leave:
  assumes "abstracts N s (t # q, True)"
  shows "abstracts N (s\<lparr>slock := spinlock_release (slock s), phase_of := (phase_of s)(t := Out)\<rparr>) (q, False)"
proof -
  have "phase_of s (q ! i) = Waiting (now_serving (slock s) + of_nat (Suc i))" if "i < length q" for i
    using assms that by (force simp: abstracts_def nth_Cons)
  moreover have "q ! i \<noteq> t" if "i < length q" for i using assms that by (auto simp: abstracts_def)
  ultimately show ?thesis
    using assms by (auto simp: abstracts_def spinlock_release_def add.assoc)
qed

lemma queue_simulation:
  assumes "spin_step N s s'" "N \<le> 2 ^ 16" "abstracts N s a"
  shows "\<exists>a'. queue_step a a' \<and> abstracts N s' a'"
proof -
  obtain q b where a: "a = (q, b)" by (cases a)
  note abs = assms(3) [unfolded a]
  from assms(1) show ?thesis
  proof cases
    case (take t ticket spin)
    note taken = abstracts_take [OF abs take(2-4)]
    then have "queue_step a (q @ [t], b)" unfolding a by (intro join) simp
    with taken show ?thesis unfolding take(1) by blast
  next
    case spin
    have "queue_step a a" unfolding a by (rule stay)
    with assms(3) show ?thesis unfolding spin(1) by blast
  next
    case (enter t ticket)
    obtain r where r: "q = t # r" "\<not> b" using served_first [OF abs assms(2) enter(3,4)] by blast
    have "queue_step a (t # r, True)" unfolding a using r by (simp add: go_in)
    moreover have "abstracts N s (t # r, False)" using abs r by simp
    ultimately show ?thesis unfolding enter(1) using abstracts_enter by blast
  next
    case (leave t)
    obtain r where r: "q = t # r" b using inside_first [OF abs leave(3)] by blast
    have "queue_step a (r, False)" unfolding a using r by (simp add: go_out)
    moreover have "abstracts N s (t # r, True)" using abs r by simp
    ultimately show ?thesis unfolding leave(1) using abstracts_leave by blast
  qed
qed

lemma reachable_abstracts:
  assumes "(spin_step N)\<^sup>*\<^sup>* spin_start s" "N \<le> 2 ^ 16"
  shows "\<exists>a. queue_step\<^sup>*\<^sup>* ([], False) a \<and> abstracts N s a"
  using assms(1)
proof induction
  case base
  then show ?case using abstracts_start by blast
next
  case (step s s')
  then show ?case using queue_simulation [OF step.hyps(2) assms(2)] by (meson rtranclp.rtrancl_into_rtrancl)
qed

fun release_all :: "nat \<Rightarrow> reflock \<Rightarrow> (bool list \<times> reflock) option" where
  "release_all 0 ref = Some ([], ref)"
| "release_all (Suc n) ref =
     do { (b, ref) \<leftarrow> reflock_release_or_lock ref; (bs, ref) \<leftarrow> release_all n ref; Some (b # bs, ref) }"

lemma reflock_release_step:
  assumes "Suc n < 2 ^ 32" "ref_count ref = of_nat (Suc n)" "ref_lock ref = spinlock_init"
  shows "reflock_release_or_lock ref = Some (n = 0, \<lparr>ref_lock = (if n = 0 then \<lparr>next_ticket = 1, now_serving = 0\<rparr> else spinlock_init),
    ref_count = of_nat n\<rparr>)"
proof -
  have "unat (ref_count ref) = Suc n" unfolding assms(2) by (simp only: unat_of_nat take_bit_nat_eq_self) (use assms(1) in simp)
  then have "1 < ref_count ref \<longleftrightarrow> n \<noteq> 0" by (simp add: word_less_nat_alt)
  moreover have "ref_count ref - 1 = of_nat n" using assms(2) by simp
  ultimately show ?thesis
    using assms(3) by (cases ref) (simp add: reflock_release_or_lock_def Let_def spinlock_acquire_def take_ticket_def serves_def spinlock_init_def)
qed

lemma release_all_count:
  "\<lbrakk>Suc n < 2 ^ 32; ref_count ref = of_nat (Suc n); ref_lock ref = spinlock_init\<rbrakk> \<Longrightarrow>
   release_all (Suc n) ref = Some (replicate n False @ [True], \<lparr>ref_lock = \<lparr>next_ticket = 1, now_serving = 0\<rparr>, ref_count = 0\<rparr>)"
proof (induction n arbitrary: ref)
  case 0
  then show ?case using reflock_release_step [of 0 ref] by simp
next
  case (Suc n)
  let ?r = "\<lparr>ref_lock = spinlock_init, ref_count = of_nat (Suc n)\<rparr>"
  have "release_all (Suc n) ?r = Some (replicate n False @ [True], \<lparr>ref_lock = \<lparr>next_ticket = 1, now_serving = 0\<rparr>, ref_count = 0\<rparr>)"
    using Suc.prems(1) by (intro Suc.IH) simp_all
  moreover have "release_all (Suc (Suc n)) ref =
      do { (b, ref) \<leftarrow> reflock_release_or_lock ref; (bs, ref) \<leftarrow> release_all (Suc n) ref; Some (b # bs, ref) }"
    by (rule release_all.simps)
  ultimately show ?case using reflock_release_step [OF Suc.prems] by (simp del: release_all.simps)
qed

lemma acquire_count: "(reflock_acquire ^^ n) reflock_init = \<lparr>ref_lock = spinlock_init, ref_count = of_nat n\<rparr>"
  by (induction n) (simp_all add: reflock_init_def reflock_acquire_def)

section \<open>Properties\<close>

text \<open>C15: Among at most 65536 threads the ticket lock refines a first-in first-out queue of threads: every step of
  the atomic accesses is a step of the queue, in which a thread joins at the end, only the first thread
  goes in, and it is removed when it leaves; the tickets wrap around without effect.\<close>

theorem spinlock_refines_queue:
  assumes "N \<le> 2 ^ 16"
  shows "abstracts N spin_start ([], False) \<and>
    (\<forall>s s' a. spin_step N s s' \<and> abstracts N s a \<longrightarrow> (\<exists>a'. queue_step a a' \<and> abstracts N s' a'))"
  using abstracts_start queue_simulation [OF _ assms] by blast

theorem spinlock_refines_queue_witness:
  "\<exists>a'. queue_step ([], False) a' \<and>
    abstracts 2 (spin_start\<lparr>slock := \<lparr>next_ticket = 1, now_serving = 0\<rparr>, phase_of := (phase_of spin_start)(1 := Waiting 0)\<rparr>) a'"
proof -
  have "spin_step 2 spin_start (spin_start\<lparr>slock := \<lparr>next_ticket = 1, now_serving = 0\<rparr>, phase_of := (phase_of spin_start)(1 := Waiting 0)\<rparr>)"
    by (rule spin_step.take) (simp_all add: spin_start_def take_ticket_def spinlock_init_def)
  moreover have two: "2 \<le> (2 ^ 16 :: nat)" by simp
  ultimately show ?thesis using spinlock_refines_queue [OF two] by blast
qed

text \<open>C16: In every reachable state of at most 65536 threads using a ticket lock at most one thread is inside,
  and some thread is inside or may enter next whenever one is waiting.\<close>

theorem spinlock_mutual_exclusion:
  assumes "(spin_step N)\<^sup>*\<^sup>* spin_start s" "N \<le> 2 ^ 16"
  shows "(\<forall>t u. phase_of s t = Inside \<and> phase_of s u = Inside \<longrightarrow> t = u) \<and>
    ((\<exists>t. phase_of s t \<noteq> Out) \<longrightarrow>
       (\<exists>t. phase_of s t = Inside \<or> (\<exists>ticket. phase_of s t = Waiting ticket \<and> serves (slock s) ticket)))"
proof -
  obtain q b where a: "abstracts N s (q, b)" using reachable_abstracts [OF assms] by auto
  have "t = u" if "phase_of s t = Inside" "phase_of s u = Inside" for t u
    using inside_first [OF a that(1)] inside_first [OF a that(2)] by auto
  moreover have "\<exists>t. phase_of s t = Inside \<or> (\<exists>ticket. phase_of s t = Waiting ticket \<and> serves (slock s) ticket)"
    if "phase_of s t \<noteq> Out" for t
  proof -
    have "q \<noteq> []" using a that by (auto simp: abstracts_def)
    then have "phase_of s (q ! 0) = (if b then Inside else Waiting (now_serving (slock s)))"
      using a by (auto simp: abstracts_def)
    then show ?thesis by (auto simp: serves_def split: if_splits)
  qed
  ultimately show ?thesis by blast
qed

theorem spinlock_mutual_exclusion_witness:
  "\<exists>s. (spin_step 2)\<^sup>*\<^sup>* spin_start s \<and> phase_of s 0 = Inside \<and> phase_of s 1 \<noteq> Inside"
proof -
  let ?s1 = "spin_start\<lparr>slock := \<lparr>next_ticket = 1, now_serving = 0\<rparr>, phase_of := (phase_of spin_start)(0 := Waiting 0)\<rparr>"
  let ?s2 = "?s1\<lparr>phase_of := (phase_of ?s1)(0 := Inside)\<rparr>"
  have s1: "spin_step 2 spin_start ?s1"
    by (rule spin_step.take) (simp_all add: spin_start_def take_ticket_def spinlock_init_def)
  have s2: "spin_step 2 ?s1 ?s2" by (rule spin_step.enter) (simp_all add: serves_def)
  note r = converse_rtranclp_into_rtranclp [OF s1 r_into_rtranclp [of "spin_step 2", OF s2]]
  have two: "2 \<le> (2 ^ 16 :: nat)" by simp
  have i0: "phase_of ?s2 0 = Inside" by simp
  have "phase_of ?s2 1 \<noteq> Inside"
  proof
    assume "phase_of ?s2 1 = Inside"
    with i0 have "(0 :: nat) = 1" using conjunct1 [OF spinlock_mutual_exclusion [OF r two]] by blast
    then show False by simp
  qed
  with r i0 show ?thesis by blast
qed

text \<open>The reference count of a reflock is exact below its 32 bits: after a number of acquisitions as many
  releases succeed, only the last one reports that no reference is left, and it returns holding the lock.\<close>

lemma reflock_last_release:
  assumes "0 < n" "n < 2 ^ 32"
  shows "release_all n ((reflock_acquire ^^ n) reflock_init) =
    Some (replicate (n - 1) False @ [True], \<lparr>ref_lock = \<lparr>next_ticket = 1, now_serving = 0\<rparr>, ref_count = 0\<rparr>)"
proof -
  have "n = Suc (n - 1)" using assms(1) by simp
  then show ?thesis using release_all_count [of "n - 1"] assms(2) acquire_count [of n] by (metis reflock.select_convs)
qed

end
