(* ===== verification/Sched.thy ===== *)
theory Sched
  imports Kernel_Prelude "HOL-Library.Multiset"
begin

text \<open>
  The scheduler (\<^verbatim>\<open>sched/scheduler.c\<close>) and the states of a task (\<^verbatim>\<open>include/sched/task.h\<close>).  Each CPU
  has a run queue with an entry count and an idle task.  Tasks are named by numbers; the status and
  the kernel stack pointer of a task are the parts of it the scheduler reads.  Every operation is one
  step: the code holds the lock of the queue it changes (except where \<^verbatim>\<open>schedule\<close> puts the
  current task back).  \<^term>\<open>None\<close> is a panic or an access outside the data.
\<close>

section \<open>Data\<close>

datatype task_status = TASK_RUNNING | TASK_SLEEPING | TASK_INTR_SLEEPING | TASK_ZOMBIE | TASK_STOPPED

fun get_status_name :: "task_status \<Rightarrow> string" where
  "get_status_name TASK_RUNNING = ''R (running)''"
| "get_status_name TASK_INTR_SLEEPING = ''S (sleeping)''"
| "get_status_name TASK_SLEEPING = ''D (uninterruptible sleep)''"
| "get_status_name TASK_ZOMBIE = ''Z (zombie)''"
| "get_status_name TASK_STOPPED = ''T (stopped)''"

record sched_percpu =
  idle :: nat
  runqueue :: "nat list"
  queue_entry_count :: u64

record sched =
  status_of :: "nat \<Rightarrow> task_status"
  rsp0_of :: "nat \<Rightarrow> u64"
  sched_pcpu_data :: "sched_percpu list"
  current_task :: "nat list"

text \<open>The compare-and-exchange on a task's status: the flag tells whether it was stored, and the value
  found is returned.\<close>

definition cas_status :: "nat \<Rightarrow> task_status \<Rightarrow> task_status \<Rightarrow> 'a sched_scheme \<Rightarrow> bool \<times> task_status \<times> 'a sched_scheme" where
  "cas_status t expected desired s =
     (if status_of s t = expected then (True, expected, s\<lparr>status_of := (status_of s)(t := desired)\<rparr>)
      else (False, status_of s t, s))"

section \<open>Operations\<close>

definition update_queue :: "nat \<Rightarrow> (sched_percpu \<Rightarrow> sched_percpu) \<Rightarrow> 'a sched_scheme \<Rightarrow> 'a sched_scheme" where
  "update_queue cpu f s = s\<lparr>sched_pcpu_data := (sched_pcpu_data s)[cpu := f (sched_pcpu_data s ! cpu)]\<rparr>"

definition queue_push :: "nat \<Rightarrow> sched_percpu \<Rightarrow> sched_percpu" where
  "queue_push t q = q\<lparr>runqueue := runqueue q @ [t], queue_entry_count := queue_entry_count q + 1\<rparr>"

definition sched_add_ready :: "nat \<Rightarrow> nat \<Rightarrow> 'a sched_scheme \<Rightarrow> 'a sched_scheme option" where
  "sched_add_ready cpu t s =
     (if cpu < length (sched_pcpu_data s) then Some (update_queue cpu (queue_push t) s) else None)"

text \<open>The search for the most loaded queue: \<^term>\<open>n\<close> iterations are left, and an empty queue does not
  advance the position.\<close>

fun most_loaded :: "sched_percpu list \<Rightarrow> nat \<Rightarrow> nat \<Rightarrow> nat option \<Rightarrow> u64 \<Rightarrow> nat option" where
  "most_loaded qs 0 start maxq maxc = maxq"
| "most_loaded qs (Suc n) start maxq maxc =
     (let queue_size = queue_entry_count (qs ! start)
      in if queue_size = 0 then most_loaded qs n start maxq maxc
         else if maxc < queue_size then most_loaded qs n (Suc start) (Some start) queue_size
         else most_loaded qs n (Suc start) maxq maxc)"

definition sched_find_most_loaded_queue :: "sched_percpu list \<Rightarrow> nat option" where
  "sched_find_most_loaded_queue qs = most_loaded qs (length qs) 0 None 0"

definition take_first :: "nat \<Rightarrow> 'a sched_scheme \<Rightarrow> (nat \<times> 'a sched_scheme) option" where
  "take_first k s =
     (case runqueue (sched_pcpu_data s ! k) of [] \<Rightarrow> None
      | t # ts \<Rightarrow> Some (t, update_queue k (\<lambda>q. q\<lparr>runqueue := ts, queue_entry_count := queue_entry_count q - 1\<rparr>) s))"

definition pick_next :: "nat \<Rightarrow> 'a sched_scheme \<Rightarrow> (nat \<times> 'a sched_scheme) option" where
  "pick_next cpu s =
     (let sdata = sched_pcpu_data s ! cpu
      in if queue_entry_count sdata = 0 then
           case sched_find_most_loaded_queue (sched_pcpu_data s) of
             None \<Rightarrow> Some (idle sdata, s)
           | Some k \<Rightarrow> if queue_entry_count (sched_pcpu_data s ! k) \<noteq> 0 then take_first k s else Some (idle sdata, s)
         else take_first cpu s)"

definition schedule :: "nat \<Rightarrow> 'a sched_scheme \<Rightarrow> 'a sched_scheme option" where
  "schedule cpu s =
     (if length (sched_pcpu_data s) \<le> cpu \<or> length (current_task s) \<le> cpu then None
      else
        let sdata = sched_pcpu_data s ! cpu;
            cur_task = current_task s ! cpu;
            cur_running = (status_of s cur_task = TASK_RUNNING)
        in if queue_entry_count sdata = 0 \<and> cur_running \<and> cur_task \<noteq> idle sdata then Some s
           else do {
             (next, s) \<leftarrow> pick_next cpu s;
             let s = (if cur_running \<and> cur_task \<noteq> idle sdata then update_queue cpu (queue_push cur_task) s else s);
             if rsp0_of s next = 0 then None
             else Some (s\<lparr>current_task := (current_task s)[cpu := next]\<rparr>)
           })"

definition sched_yield :: "nat \<Rightarrow> 'a sched_scheme \<Rightarrow> 'a sched_scheme option" where
  "sched_yield cpu s = schedule cpu s"

text \<open>The idle task of each CPU is made by the task layer: its names are an argument.\<close>

definition sched_init :: "nat \<Rightarrow> (nat \<Rightarrow> nat) \<Rightarrow> 'a sched_scheme \<Rightarrow> 'a sched_scheme" where
  "sched_init cpu_count idle_thread s =
     s\<lparr>sched_pcpu_data := map (\<lambda>i. \<lparr>idle = idle_thread i, runqueue = [], queue_entry_count = 0\<rparr>) [0..<cpu_count]\<rparr>"

definition sched_start_cpu :: "nat \<Rightarrow> 'a sched_scheme \<Rightarrow> 'a sched_scheme" where
  "sched_start_cpu cpu s = s\<lparr>current_task := (current_task s)[cpu := idle (sched_pcpu_data s ! cpu)]\<rparr>"

section \<open>The invariant\<close>

definition queue_ok :: "sched_percpu \<Rightarrow> bool" where
  "queue_ok q \<longleftrightarrow> unat (queue_entry_count q) = length (runqueue q)"

definition idle_tasks :: "'a sched_scheme \<Rightarrow> nat set" where
  "idle_tasks s = idle ` set (sched_pcpu_data s)"

definition queued :: "'a sched_scheme \<Rightarrow> nat multiset" where
  "queued s = sum_list (map (\<lambda>q. mset (runqueue q)) (sched_pcpu_data s))"

text \<open>The tasks that can run: those in a queue and those a CPU runs, the idle tasks apart.\<close>

definition runnable :: "'a sched_scheme \<Rightarrow> nat multiset" where
  "runnable s = queued s + filter_mset (\<lambda>t. status_of s t = TASK_RUNNING \<and> t \<notin> idle_tasks s) (mset (current_task s))"

definition sched_inv :: "'a sched_scheme \<Rightarrow> bool" where
  "sched_inv s \<longleftrightarrow> length (current_task s) = length (sched_pcpu_data s) \<and> (\<forall>q\<in>set (sched_pcpu_data s). queue_ok q) \<and>
     (\<forall>t\<in>#queued s. status_of s t = TASK_RUNNING \<and> t \<notin> idle_tasks s \<and> rsp0_of s t \<noteq> 0) \<and>
     (\<forall>t\<in>idle_tasks s. rsp0_of s t \<noteq> 0) \<and>
     (\<forall>c<length (current_task s). current_task s ! c \<in> idle_tasks s \<longrightarrow> current_task s ! c = idle (sched_pcpu_data s ! c)) \<and>
     (\<forall>t\<in>set (current_task s). rsp0_of s t \<noteq> 0) \<and> size (runnable s) < 2 ^ 64"

lemma queued_update:
  assumes "k < length (sched_pcpu_data s)"
  shows "queued (update_queue k f s) + mset (runqueue (sched_pcpu_data s ! k)) =
    queued s + mset (runqueue (f (sched_pcpu_data s ! k)))"
proof -
  let ?qs = "sched_pcpu_data s"
  have "?qs = take k ?qs @ ?qs ! k # drop (Suc k) ?qs" using assms by (rule id_take_nth_drop)
  then have "queued s = sum_list (map (\<lambda>q. mset (runqueue q)) (take k ?qs)) + mset (runqueue (?qs ! k)) +
      sum_list (map (\<lambda>q. mset (runqueue q)) (drop (Suc k) ?qs))"
    unfolding queued_def by (metis (no_types, lifting) list.simps(9) map_append sum_list.Cons sum_list_append add.assoc)
  then show ?thesis
    using assms by (simp add: queued_def update_queue_def upd_conv_take_nth_drop)
qed

lemma idle_tasks_update [simp]:
  assumes "k < length (sched_pcpu_data s)" "\<And>q. idle (f q) = idle q"
  shows "idle_tasks (update_queue k f s) = idle_tasks s"
proof -
  have "map idle ((sched_pcpu_data s)[k := f (sched_pcpu_data s ! k)]) = map idle (sched_pcpu_data s)"
    using assms by (intro nth_equalityI) (simp_all add: nth_list_update)
  then have "idle ` set ((sched_pcpu_data s)[k := f (sched_pcpu_data s ! k)]) = idle ` set (sched_pcpu_data s)"
    unfolding list.set_map [symmetric] by (rule arg_cong)
  then show ?thesis by (simp add: idle_tasks_def update_queue_def)
qed

lemma update_queue_simps [simp]:
  "status_of (update_queue k f s) = status_of s" "rsp0_of (update_queue k f s) = rsp0_of s"
  "current_task (update_queue k f s) = current_task s"
  "length (sched_pcpu_data (update_queue k f s)) = length (sched_pcpu_data s)"
  by (simp_all add: update_queue_def)

lemma idle_at_update [simp]:
  assumes "\<And>q. idle (f q) = idle q"
  shows "idle (sched_pcpu_data (update_queue k f s) ! c) = idle (sched_pcpu_data s ! c)"
  using assms by (cases "k < length (sched_pcpu_data s)") (simp_all add: update_queue_def nth_list_update list_update_beyond not_less)

lemma queued_push [simp]:
  "k < length (sched_pcpu_data s) \<Longrightarrow> queued (update_queue k (queue_push t) s) = add_mset t (queued s)"
  using queued_update [of k s "queue_push t"] by (simp add: queue_push_def)

lemma queue_in_queued: "q \<in> set (sched_pcpu_data s) \<Longrightarrow> mset (runqueue q) \<subseteq># queued s"
  by (auto simp: queued_def in_set_conv_decomp)

lemma queue_length_le: "q \<in> set (sched_pcpu_data s) \<Longrightarrow> length (runqueue q) \<le> size (queued s)"
  using size_mset_mono [OF queue_in_queued] by fastforce

lemma queues_ok_update:
  assumes "\<forall>q\<in>set (sched_pcpu_data s). queue_ok q" "queue_ok (f (sched_pcpu_data s ! k))"
  shows "\<forall>q\<in>set (sched_pcpu_data (update_queue k f s)). queue_ok q"
  using assms set_update_subset_insert [of "sched_pcpu_data s" k "f (sched_pcpu_data s ! k)"]
  by (auto simp: update_queue_def)

lemma queue_ok_push:
  assumes "queue_ok q" "length (runqueue q) + 1 < 2 ^ 64" shows "queue_ok (queue_push t q)"
  using assms by (simp add: queue_ok_def queue_push_def unat_add_small)

lemma queue_ok_pop:
  assumes "queue_ok q" "runqueue q = t # ts"
  shows "queue_ok (q\<lparr>runqueue := ts, queue_entry_count := queue_entry_count q - 1\<rparr>)"
proof -
  have "unat (queue_entry_count q) = Suc (length ts)" using assms by (simp add: queue_ok_def)
  then have "unat (queue_entry_count q - 1) = length ts" by (subst unat_sub_small) (simp_all add: word_le_nat_alt)
  then show ?thesis by (simp add: queue_ok_def)
qed

lemma take_first_Some:
  assumes "\<forall>q\<in>set (sched_pcpu_data s). queue_ok q" "k < length (sched_pcpu_data s)"
    and "queue_entry_count (sched_pcpu_data s ! k) \<noteq> 0"
  shows "\<exists>t ts. runqueue (sched_pcpu_data s ! k) = t # ts \<and>
    take_first k s = Some (t, update_queue k (\<lambda>q. q\<lparr>runqueue := ts, queue_entry_count := queue_entry_count q - 1\<rparr>) s)"
proof -
  have "queue_ok (sched_pcpu_data s ! k)" using assms(1,2) by simp
  then have "runqueue (sched_pcpu_data s ! k) \<noteq> []" using assms(3) by (auto simp: queue_ok_def unat_eq_zero)
  then show ?thesis by (cases "runqueue (sched_pcpu_data s ! k)") (simp_all add: take_first_def)
qed

lemma most_loaded_bound:
  "\<lbrakk>start + n \<le> length qs; \<forall>k. maxq = Some k \<longrightarrow> k < length qs; most_loaded qs n start maxq maxc = Some k\<rbrakk> \<Longrightarrow> k < length qs"
  by (induction qs n start maxq maxc rule: most_loaded.induct) (auto simp: Let_def split: if_splits)

text \<open>What picking the next task changes: either it is the idle task and nothing changes, or it is
  taken out of a queue.\<close>

definition popped :: "nat \<Rightarrow> nat \<Rightarrow> nat list \<Rightarrow> 'a sched_scheme \<Rightarrow> 'a sched_scheme \<Rightarrow> bool" where
  "popped k n ts s s' \<longleftrightarrow> k < length (sched_pcpu_data s) \<and> runqueue (sched_pcpu_data s ! k) = n # ts \<and>
     s' = update_queue k (\<lambda>q. q\<lparr>runqueue := ts, queue_entry_count := queue_entry_count q - 1\<rparr>) s"

lemma pick_next_spec:
  assumes "sched_inv s" "cpu < length (sched_pcpu_data s)"
  shows "\<exists>n s'. pick_next cpu s = Some (n, s') \<and>
    (n = idle (sched_pcpu_data s ! cpu) \<and> s' = s \<or> (\<exists>k ts. popped k n ts s s'))"
proof -
  have ok: "\<forall>q\<in>set (sched_pcpu_data s). queue_ok q" using assms(1) by (simp add: sched_inv_def)
  note first = take_first_Some [OF ok]
  show ?thesis
  proof (cases "queue_entry_count (sched_pcpu_data s ! cpu) = 0")
    case False
    then show ?thesis using first [OF assms(2)] assms(2) by (force simp: pick_next_def Let_def popped_def)
  next
    case True
    show ?thesis
    proof (cases "sched_find_most_loaded_queue (sched_pcpu_data s)")
      case None
      then show ?thesis using True by (simp add: pick_next_def Let_def)
    next
      case (Some k)
      then have k: "k < length (sched_pcpu_data s)"
        using most_loaded_bound [of 0 "length (sched_pcpu_data s)" "sched_pcpu_data s" None 0 k]
        by (simp add: sched_find_most_loaded_queue_def)
      show ?thesis
        using True Some k first [OF k] by (cases "queue_entry_count (sched_pcpu_data s ! k) = 0") (force simp: pick_next_def Let_def popped_def)+
    qed
  qed
qed

text \<open>Putting a running, non-idle current task back and switching.\<close>

definition put_back :: "nat \<Rightarrow> nat \<Rightarrow> bool \<Rightarrow> 'a sched_scheme \<Rightarrow> 'a sched_scheme" where
  "put_back cpu cur b s = (if b then update_queue cpu (queue_push cur) s else s)"

lemma pop_frame:
  assumes "sched_inv s" "popped k n ts s s'"
  shows "queued s = add_mset n (queued s')" "\<forall>q\<in>set (sched_pcpu_data s'). queue_ok q"
    "idle_tasks s' = idle_tasks s" "n \<in># queued s"
proof -
  note p = assms(2) [unfolded popped_def]
  note assms = assms(1) conjunct1 [OF p] conjunct1 [OF conjunct2 [OF p]] conjunct2 [OF conjunct2 [OF p]]
  show q: "queued s = add_mset n (queued s')"
    using queued_update [OF assms(2), of "\<lambda>q. q\<lparr>runqueue := ts, queue_entry_count := queue_entry_count q - 1\<rparr>"] assms(3,4) by simp
  then show "n \<in># queued s" by simp
  show "idle_tasks s' = idle_tasks s" using assms(2,4) by simp
  have "queue_ok (sched_pcpu_data s ! k)" using assms(1,2) by (simp add: sched_inv_def)
  then show "\<forall>q\<in>set (sched_pcpu_data s'). queue_ok q"
    unfolding assms(4) using assms(1) queue_ok_pop [OF _ assms(3)] by (intro queues_ok_update) (simp_all add: sched_inv_def)
qed

text \<open>What a CPU runs is counted once: replacing it moves the count.\<close>

lemma runnable_switch:
  assumes "c < length (current_task s)" "status_of s' = status_of s" "idle_tasks s' = idle_tasks s"
    and "current_task s' = (current_task s)[c := n]"
  shows "runnable s' + (queued s + filter_mset (\<lambda>t. status_of s t = TASK_RUNNING \<and> t \<notin> idle_tasks s) {# current_task s ! c #}) =
    runnable s + (queued s' + filter_mset (\<lambda>t. status_of s t = TASK_RUNNING \<and> t \<notin> idle_tasks s) {# n #})"
proof -
  let ?P = "\<lambda>t. status_of s t = TASK_RUNNING \<and> t \<notin> idle_tasks s" and ?c = "mset (current_task s)"
  have m: "?c = add_mset (current_task s ! c) (?c - {# current_task s ! c #})" using assms(1) by simp
  have u: "mset (current_task s') = add_mset n (?c - {# current_task s ! c #})" using assms(1,4) by (simp add: mset_update)
  have fc: "filter_mset ?P ?c = filter_mset ?P {# current_task s ! c #} + filter_mset ?P (?c - {# current_task s ! c #})"
    by (subst m) simp
  have fn: "filter_mset ?P (mset (current_task s')) = filter_mset ?P {# n #} + filter_mset ?P (?c - {# current_task s ! c #})"
    unfolding u by simp
  show ?thesis unfolding runnable_def assms(2,3) fc fn by (simp only: add.assoc add.commute add.left_commute)
qed

lemma schedule_cases:
  assumes "sched_inv s" "cpu < length (sched_pcpu_data s)"
  shows "schedule cpu s = Some s \<or>
    (\<exists>n s1 b. pick_next cpu s = Some (n, s1) \<and> rsp0_of s n \<noteq> 0 \<and>
       (b \<longleftrightarrow> status_of s (current_task s ! cpu) = TASK_RUNNING \<and> current_task s ! cpu \<notin> idle_tasks s) \<and>
       schedule cpu s = Some ((put_back cpu (current_task s ! cpu) b s1)\<lparr>current_task := (current_task s)[cpu := n]\<rparr>))"
proof -
  let ?cur = "current_task s ! cpu" and ?sd = "sched_pcpu_data s ! cpu"
  have len: "\<not> (length (sched_pcpu_data s) \<le> cpu \<or> length (current_task s) \<le> cpu)"
    using assms by (simp add: sched_inv_def)
  have own: "idle ?sd \<in> idle_tasks s" using assms(2) by (simp add: idle_tasks_def)
  have "?cur \<in> idle_tasks s \<longrightarrow> ?cur = idle ?sd" using assms unfolding sched_inv_def by simp
  with own have idle: "?cur \<noteq> idle ?sd \<longleftrightarrow> ?cur \<notin> idle_tasks s" by metis
  obtain n s1 where p: "pick_next cpu s = Some (n, s1)" and c:
    "n = idle ?sd \<and> s1 = s \<or> (\<exists>k ts. popped k n ts s s1)"
    using pick_next_spec [OF assms] by blast
  have same: "rsp0_of s1 = rsp0_of s" "current_task s1 = current_task s" using c by (auto simp: popped_def)
  have "n \<in> idle_tasks s \<or> n \<in># queued s" using c own pop_frame(4) [OF assms(1)] by blast
  then have r: "rsp0_of s n \<noteq> 0" using assms(1) unfolding sched_inv_def by blast
  let ?b = "status_of s ?cur = TASK_RUNNING \<and> ?cur \<notin> idle_tasks s"
  show ?thesis
  proof (cases "queue_entry_count ?sd = 0 \<and> ?b")
    case True
    then have "schedule cpu s = Some s" using len idle unfolding schedule_def Let_def by simp
    then show ?thesis ..
  next
    case False
    then have "schedule cpu s = Some ((put_back cpu ?cur ?b s1)\<lparr>current_task := (current_task s)[cpu := n]\<rparr>)"
      using len idle p r same unfolding schedule_def Let_def put_back_def by (cases ?b) auto
    then show ?thesis using p r by blast
  qed
qed

lemma put_back_simps [simp]:
  "status_of (put_back c t b s) = status_of s" "rsp0_of (put_back c t b s) = rsp0_of s"
  "current_task (put_back c t b s) = current_task s"
  "length (sched_pcpu_data (put_back c t b s)) = length (sched_pcpu_data s)"
  "idle (sched_pcpu_data (put_back c t b s) ! d) = idle (sched_pcpu_data s ! d)"
  "c < length (sched_pcpu_data s) \<Longrightarrow> idle_tasks (put_back c t b s) = idle_tasks s"
  "c < length (sched_pcpu_data s) \<Longrightarrow> queued (put_back c t b s) = (if b then {# t #} else {#}) + queued s"
  by (simp_all add: put_back_def queue_push_def)

lemma current_update_simps [simp]:
  "queued (s\<lparr>current_task := c\<rparr>) = queued s" "idle_tasks (s\<lparr>current_task := c\<rparr>) = idle_tasks s"
  by (simp_all add: queued_def idle_tasks_def)

definition counted :: "'a sched_scheme \<Rightarrow> nat \<Rightarrow> nat multiset" where
  "counted s t = filter_mset (\<lambda>t. status_of s t = TASK_RUNNING \<and> t \<notin> idle_tasks s) {# t #}"

lemma counted_if: "counted s t = (if status_of s t = TASK_RUNNING \<and> t \<notin> idle_tasks s then {# t #} else {#})"
  by (simp add: counted_def)

lemma counted_le_runnable:
  assumes "c < length (current_task s)" shows "queued s + counted s (current_task s ! c) \<subseteq># runnable s"
proof -
  have "{# current_task s ! c #} \<subseteq># mset (current_task s)" using assms by simp
  then show ?thesis unfolding runnable_def counted_def by (intro mset_subset_eq_mono_add multiset_filter_mono) simp
qed

lemma pick_frame:
  assumes "sched_inv s" "cpu < length (sched_pcpu_data s)" "pick_next cpu s = Some (n, s1)"
  shows "queued s = queued s1 + counted s n" "\<forall>q\<in>set (sched_pcpu_data s1). queue_ok q" "idle_tasks s1 = idle_tasks s"
    "n \<in> idle_tasks s \<longrightarrow> n = idle (sched_pcpu_data s ! cpu)" "status_of s1 = status_of s" "rsp0_of s1 = rsp0_of s"
    "length (sched_pcpu_data s1) = length (sched_pcpu_data s)" "\<forall>c. idle (sched_pcpu_data s1 ! c) = idle (sched_pcpu_data s ! c)"
proof -
  have own: "idle (sched_pcpu_data s ! cpu) \<in> idle_tasks s" using assms(2) by (simp add: idle_tasks_def)
  consider (idle) "n = idle (sched_pcpu_data s ! cpu)" "s1 = s" | (pop) k ts where "popped k n ts s s1"
    using pick_next_spec [OF assms(1,2)] assms(3) by auto
  note cases = this
  have q: "n \<in># queued s \<Longrightarrow> counted s n = {# n #} \<and> n \<notin> idle_tasks s"
    using assms(1) unfolding sched_inv_def counted_def by simp
  show "queued s = queued s1 + counted s n"
    using own q pop_frame(1,4) [OF assms(1)] by (cases rule: cases) (simp add: counted_if, simp)
  show "n \<in> idle_tasks s \<longrightarrow> n = idle (sched_pcpu_data s ! cpu)" using q pop_frame(4) [OF assms(1)] by (cases rule: cases) auto
  show "\<forall>q\<in>set (sched_pcpu_data s1). queue_ok q" "idle_tasks s1 = idle_tasks s"
    using assms(1) pop_frame [OF assms(1)] by (cases rule: cases, simp add: sched_inv_def, blast)+
  show "status_of s1 = status_of s" "rsp0_of s1 = rsp0_of s" "length (sched_pcpu_data s1) = length (sched_pcpu_data s)"
    "\<forall>c. idle (sched_pcpu_data s1 ! c) = idle (sched_pcpu_data s ! c)"
    by (cases rule: cases, simp, simp add: popped_def)+
qed

lemma switch_runnable:
  assumes "sched_inv s" "cpu < length (sched_pcpu_data s)" "pick_next cpu s = Some (n, s1)"
    and "b \<longleftrightarrow> status_of s (current_task s ! cpu) = TASK_RUNNING \<and> current_task s ! cpu \<notin> idle_tasks s"
    and "s' = (put_back cpu (current_task s ! cpu) b s1)\<lparr>current_task := (current_task s)[cpu := n]\<rparr>"
  shows "runnable s' = runnable s" "queued s' = queued s1 + counted s (current_task s ! cpu)"
proof -
  note f = pick_frame [OF assms(1-3)]
  have cpu: "cpu < length (current_task s)" "cpu < length (sched_pcpu_data s1)" using assms(1,2) f by (simp_all add: sched_inv_def)
  show q: "queued s' = queued s1 + counted s (current_task s ! cpu)"
    using cpu assms(4,5) by (simp add: counted_if)
  have "runnable s' + (queued s + counted s (current_task s ! cpu)) = runnable s + (queued s' + counted s n)"
    unfolding counted_def by (rule runnable_switch [OF cpu(1)]) (use cpu f assms(5) in simp_all)
  also have "\<dots> = runnable s + (queued s + counted s (current_task s ! cpu))" unfolding q f(1) by (simp add: ac_simps)
  finally show "runnable s' = runnable s" by simp
qed

lemma switch_queues_ok:
  assumes "sched_inv s" "cpu < length (sched_pcpu_data s)" "pick_next cpu s = Some (n, s1)"
    and "b \<longleftrightarrow> status_of s (current_task s ! cpu) = TASK_RUNNING \<and> current_task s ! cpu \<notin> idle_tasks s"
  shows "\<forall>q\<in>set (sched_pcpu_data (put_back cpu (current_task s ! cpu) b s1)). queue_ok q"
proof (cases b)
  case True
  note f = pick_frame [OF assms(1-3)]
  have cpu: "cpu < length (current_task s)" "sched_pcpu_data s1 ! cpu \<in> set (sched_pcpu_data s1)" using assms(1,2) f by (simp_all add: sched_inv_def)
  have "length (runqueue (sched_pcpu_data s1 ! cpu)) \<le> size (queued s1)" by (rule queue_length_le [OF cpu(2)])
  also have "\<dots> \<le> size (queued s)" unfolding f(1) by simp
  finally have "length (runqueue (sched_pcpu_data s1 ! cpu)) + 1 \<le> size (queued s + counted s (current_task s ! cpu))"
    using True assms(4) unfolding counted_def by simp
  also have "\<dots> \<le> size (runnable s)" by (rule size_mset_mono [OF counted_le_runnable [OF cpu(1)]])
  also have "\<dots> < 2 ^ 64" using assms(1) unfolding sched_inv_def by blast
  finally have "queue_ok (queue_push (current_task s ! cpu) (sched_pcpu_data s1 ! cpu))"
    by (rule queue_ok_push [rotated]) (rule bspec [OF f(2) cpu(2)])
  with f(2) show ?thesis using True unfolding put_back_def if_P [OF True] by (intro queues_ok_update)
next
  case False
  then show ?thesis using pick_frame(2) [OF assms(1-3)] by (simp add: put_back_def)
qed

lemma switch_spec:
  assumes "sched_inv s" "cpu < length (sched_pcpu_data s)"
    and "pick_next cpu s = Some (n, s1)" "rsp0_of s n \<noteq> 0"
    and "b \<longleftrightarrow> status_of s (current_task s ! cpu) = TASK_RUNNING \<and> current_task s ! cpu \<notin> idle_tasks s"
    and "s' = (put_back cpu (current_task s ! cpu) b s1)\<lparr>current_task := (current_task s)[cpu := n]\<rparr>"
  shows "sched_inv s' \<and> runnable s' = runnable s"
proof -
  note f = pick_frame [OF assms(1-3)] and r = switch_runnable [OF assms(1-3,5,6)]
  have cpu: "cpu < length (sched_pcpu_data s1)" "length (current_task s) = length (sched_pcpu_data s)" using assms(1,2) f by (simp_all add: sched_inv_def)
  have same: "status_of s' = status_of s" "rsp0_of s' = rsp0_of s" "idle_tasks s' = idle_tasks s"
    "length (sched_pcpu_data s') = length (sched_pcpu_data s)" "\<And>c. idle (sched_pcpu_data s' ! c) = idle (sched_pcpu_data s ! c)"
    "current_task s' = (current_task s)[cpu := n]" using f cpu assms(6) by simp_all
  have q: "t \<in># queued s \<or> t = current_task s ! cpu \<and> status_of s t = TASK_RUNNING \<and> t \<notin> idle_tasks s" if "t \<in># queued s'" for t
    using that unfolding r(2) f(1) by (auto simp: counted_if split: if_splits)
  have own: "\<forall>c<length (current_task s). current_task s ! c \<in> idle_tasks s \<longrightarrow> current_task s ! c = idle (sched_pcpu_data s ! c)"
    using assms(1) unfolding sched_inv_def by blast
  have cur: "current_task s ! cpu \<in> set (current_task s)" using assms(2) cpu(2) by simp
  have "\<forall>t\<in>#queued s'. status_of s' t = TASK_RUNNING \<and> t \<notin> idle_tasks s' \<and> rsp0_of s' t \<noteq> 0"
    using q assms(1) cur unfolding sched_inv_def same by blast
  moreover have "\<forall>c<length (current_task s'). current_task s' ! c \<in> idle_tasks s' \<longrightarrow> current_task s' ! c = idle (sched_pcpu_data s' ! c)"
  proof (intro allI impI)
    fix c assume "c < length (current_task s')" "current_task s' ! c \<in> idle_tasks s'"
    then show "current_task s' ! c = idle (sched_pcpu_data s' ! c)" using own f(4) unfolding same by (cases "c = cpu") auto
  qed
  moreover have "\<forall>t\<in>set (current_task s'). rsp0_of s' t \<noteq> 0"
    using assms(1,4) set_update_subset_insert [of "current_task s" cpu n] unfolding sched_inv_def same by blast
  moreover have "\<forall>q\<in>set (sched_pcpu_data s'). queue_ok q" using switch_queues_ok [OF assms(1-3,5)] assms(6) by simp
  ultimately show ?thesis using assms(1) r(1) unfolding sched_inv_def same by simp
qed

lemma schedule_step:
  assumes "sched_inv s" "cpu < length (sched_pcpu_data s)"
  shows "\<exists>s'. schedule cpu s = Some s' \<and> sched_inv s' \<and> runnable s' = runnable s \<and>
    length (sched_pcpu_data s') = length (sched_pcpu_data s)"
proof -
  consider "schedule cpu s = Some s" | n s1 b where "pick_next cpu s = Some (n, s1)" "rsp0_of s n \<noteq> 0"
      "b \<longleftrightarrow> status_of s (current_task s ! cpu) = TASK_RUNNING \<and> current_task s ! cpu \<notin> idle_tasks s"
      "schedule cpu s = Some ((put_back cpu (current_task s ! cpu) b s1)\<lparr>current_task := (current_task s)[cpu := n]\<rparr>)"
    using schedule_cases [OF assms] by blast
  then show ?thesis
  proof cases
    case 1 then show ?thesis using assms(1) by blast
  next
    case (2 n s1 b)
    show ?thesis
      using switch_spec [OF assms 2(1-3) refl] 2(4) pick_frame(7) [OF assms 2(1)] by simp
  qed
qed

text \<open>Scheduling on a CPU whose queue is not empty takes the first task of that queue.\<close>

lemma schedule_takes_first:
  assumes "sched_inv s" "cpu < length (sched_pcpu_data s)" "runqueue (sched_pcpu_data s ! cpu) = t # ts" "schedule cpu s = Some s'"
  shows "current_task s' ! cpu = t \<and> (\<exists>xs. runqueue (sched_pcpu_data s' ! cpu) = ts @ xs)"
proof -
  have "queue_ok (sched_pcpu_data s ! cpu)" using assms(1,2) unfolding sched_inv_def by simp
  then have nz: "queue_entry_count (sched_pcpu_data s ! cpu) \<noteq> 0" using assms(3) by (auto simp: queue_ok_def)
  have len: "cpu < length (current_task s)" using assms(1,2) unfolding sched_inv_def by simp
  let ?s1 = "update_queue cpu (\<lambda>q. q\<lparr>runqueue := ts, queue_entry_count := queue_entry_count q - 1\<rparr>) s"
  have "pick_next cpu s = Some (t, ?s1)" using nz assms(3) by (simp add: pick_next_def Let_def take_first_def)
  moreover have "runqueue (sched_pcpu_data ?s1 ! cpu) = ts" using assms(2) by (simp add: update_queue_def)
  moreover have "sched_pcpu_data (update_queue cpu (queue_push c) ?s1) ! cpu = queue_push c (sched_pcpu_data ?s1 ! cpu)" for c
    using assms(2) by (simp add: update_queue_def)
  ultimately show ?thesis
    using assms(2,4) len nz
    by (auto simp: schedule_def Let_def queue_push_def split: if_splits)
qed

fun schedule_times :: "nat \<Rightarrow> nat \<Rightarrow> 'a sched_scheme \<Rightarrow> 'a sched_scheme option" where
  "schedule_times 0 cpu s = Some s"
| "schedule_times (Suc n) cpu s = do { s \<leftarrow> schedule cpu s; schedule_times n cpu s }"

lemma schedule_round:
  "\<lbrakk>sched_inv s; cpu < length (sched_pcpu_data s); k < length (runqueue (sched_pcpu_data s ! cpu))\<rbrakk> \<Longrightarrow>
   \<exists>s'. schedule_times (Suc k) cpu s = Some s' \<and> current_task s' ! cpu = runqueue (sched_pcpu_data s ! cpu) ! k"
proof (induction k arbitrary: s)
  case 0
  obtain s' where s': "schedule cpu s = Some s'" using schedule_step [OF 0(1,2)] by blast
  obtain t ts where "runqueue (sched_pcpu_data s ! cpu) = t # ts" using 0(3) by (cases "runqueue (sched_pcpu_data s ! cpu)") auto
  then show ?case using schedule_takes_first [OF 0(1,2) _ s'] s' by simp
next
  case (Suc k)
  obtain s' where s': "schedule cpu s = Some s'" "sched_inv s'" "length (sched_pcpu_data s') = length (sched_pcpu_data s)"
    using schedule_step [OF Suc.prems(1,2)] by blast
  obtain t ts where q: "runqueue (sched_pcpu_data s ! cpu) = t # ts" using Suc.prems(3) by (cases "runqueue (sched_pcpu_data s ! cpu)") auto
  obtain xs where x: "runqueue (sched_pcpu_data s' ! cpu) = ts @ xs" using schedule_takes_first [OF Suc.prems(1,2) q s'(1)] by blast
  have k: "k < length ts" using Suc.prems(3) q by simp
  have "\<exists>s''. schedule_times (Suc k) cpu s' = Some s'' \<and> current_task s'' ! cpu = runqueue (sched_pcpu_data s' ! cpu) ! k"
    by (rule Suc.IH) (use s' x k Suc.prems(2) in simp_all)
  then show ?case using s'(1) q x k by (simp add: nth_append)
qed

text \<open>The search stops at the first empty queue.\<close>

lemma most_loaded_empty:
  "queue_entry_count (qs ! start) = 0 \<Longrightarrow> most_loaded qs n start maxq maxc = maxq"
  by (induction n) (simp_all add: Let_def)

lemma most_loaded_max:
  "\<lbrakk>\<forall>i. start \<le> i \<and> i < start + n \<longrightarrow> queue_entry_count (qs ! i) \<noteq> 0; most_loaded qs n start maxq maxc = Some k;
    \<forall>j. maxq = Some j \<longrightarrow> maxc = queue_entry_count (qs ! j); maxq = None \<longrightarrow> maxc = 0\<rbrakk> \<Longrightarrow>
   maxc \<le> queue_entry_count (qs ! k) \<and> (\<forall>i. start \<le> i \<and> i < start + n \<longrightarrow> queue_entry_count (qs ! i) \<le> queue_entry_count (qs ! k))"
proof (induction n arbitrary: start maxq maxc)
  case 0 then show ?case by auto
next
  case (Suc n)
  let ?c = "queue_entry_count (qs ! start)"
  have nz: "?c \<noteq> 0" using Suc.prems(1) by simp
  let ?q = "if maxc < ?c then Some start else maxq" and ?m = "if maxc < ?c then ?c else maxc"
  have "most_loaded qs n (Suc start) ?q ?m = Some k" using Suc.prems(2) nz by (simp add: Let_def split: if_splits)
  then have IH: "?m \<le> queue_entry_count (qs ! k) \<and>
      (\<forall>i. Suc start \<le> i \<and> i < Suc start + n \<longrightarrow> queue_entry_count (qs ! i) \<le> queue_entry_count (qs ! k))"
    using Suc.prems by (intro Suc.IH) auto
  have "maxc \<le> ?m" "?c \<le> ?m" by (auto simp: not_less)
  then have "maxc \<le> queue_entry_count (qs ! k)" "?c \<le> queue_entry_count (qs ! k)" using IH by (blast intro: order_trans)+
  moreover have "i = start \<or> Suc start \<le> i \<and> i < Suc start + n" if "start \<le> i \<and> i < start + Suc n" for i using that by auto
  ultimately show ?case using IH by blast
qed

section \<open>Properties\<close>


text \<open>C18: No task of a run queue starves: the task at position k of the queue of a CPU is running on that CPU
  after k + 1 calls of the scheduler there.\<close>

theorem schedule_no_starvation:
  assumes "sched_inv s" "cpu < length (sched_pcpu_data s)" "k < length (runqueue (sched_pcpu_data s ! cpu))"
  shows "\<exists>s'. schedule_times (Suc k) cpu s = Some s' \<and> current_task s' ! cpu = runqueue (sched_pcpu_data s ! cpu) ! k"
  by (rule schedule_round [OF assms])

text \<open>The search for the queue to steal from finds a queue of maximal length when no queue is empty; but it
  never looks behind an empty queue, so that nothing is found when the first CPU has no queued task.\<close>

lemma most_loaded_queue_search:
  "((\<forall>q\<in>set qs. queue_entry_count q \<noteq> 0) \<and> sched_find_most_loaded_queue qs = Some k \<longrightarrow>
     (\<forall>q\<in>set qs. queue_entry_count q \<le> queue_entry_count (qs ! k))) \<and>
   (qs \<noteq> [] \<and> queue_entry_count (hd qs) = 0 \<longrightarrow> sched_find_most_loaded_queue qs = None)"
proof (intro conjI impI)
  assume a: "(\<forall>q\<in>set qs. queue_entry_count q \<noteq> 0) \<and> sched_find_most_loaded_queue qs = Some k"
  then have "\<forall>i. 0 \<le> i \<and> i < 0 + length qs \<longrightarrow> queue_entry_count (qs ! i) \<noteq> 0" by simp
  from most_loaded_max [OF this, of None 0 k] a show "\<forall>q\<in>set qs. queue_entry_count q \<le> queue_entry_count (qs ! k)"
    by (simp add: sched_find_most_loaded_queue_def all_set_conv_all_nth)
next
  assume "qs \<noteq> [] \<and> queue_entry_count (hd qs) = 0"
  then have "queue_entry_count (qs ! 0) = 0" by (cases qs) auto
  then show "sched_find_most_loaded_queue qs = None"
    unfolding sched_find_most_loaded_queue_def by (rule most_loaded_empty)
qed

section \<open>Witnesses\<close>

definition demo_sched :: sched where
  "demo_sched = \<lparr>status_of = (\<lambda>_. TASK_RUNNING), rsp0_of = (\<lambda>_. 0x1000),
     sched_pcpu_data = [\<lparr>idle = 9, runqueue = [1, 2], queue_entry_count = 2\<rparr>], current_task = [3]\<rparr>"

lemma demo_sched_inv: "sched_inv demo_sched" "0 < length (sched_pcpu_data demo_sched)"
  by (simp_all add: sched_inv_def demo_sched_def queue_ok_def queued_def runnable_def idle_tasks_def)


theorem schedule_no_starvation_witness: "\<exists>s'. schedule_times 2 0 demo_sched = Some s' \<and> current_task s' ! 0 = 2"
proof -
  have "1 < length (runqueue (sched_pcpu_data demo_sched ! 0))" "runqueue (sched_pcpu_data demo_sched ! 0) ! 1 = 2"
    by (simp_all add: demo_sched_def)
  then show ?thesis using schedule_no_starvation [OF demo_sched_inv, of 1] by (simp only: Suc_1)
qed

end
