(* ===== verification/Wait_Queue.thy ===== *)
theory Wait_Queue
  imports Sched
begin

text \<open>
  Wait queues (\<^verbatim>\<open>sched/waitqueue.c\<close>).  A queue is the sequence of the nodes linked into it, and a node
  knows its queue and its task; a node is linked when some queue holds it.  Queues are numbered.
\<close>

section \<open>Operations\<close>

record waits = sched +
  wait_queues :: "nat list list"
  node_queue :: "nat \<Rightarrow> nat option"
  node_task :: "nat \<Rightarrow> nat"

definition linked :: "nat \<Rightarrow> 'a waits_scheme \<Rightarrow> bool" where
  "linked n s \<longleftrightarrow> list_ex (\<lambda>q. n \<in> set q) (wait_queues s)"

definition wait_queue_init :: "nat \<Rightarrow> 'a waits_scheme \<Rightarrow> 'a waits_scheme" where
  "wait_queue_init q s = s\<lparr>wait_queues := (wait_queues s)[q := []]\<rparr>"

text \<open>Initialising a node that is still linked would leave its queue broken: not a state of the model.\<close>

definition wait_queue_node_init :: "nat \<Rightarrow> nat \<Rightarrow> 'a waits_scheme \<Rightarrow> 'a waits_scheme option" where
  "wait_queue_node_init n t s =
     (if linked n s then None
      else Some (s\<lparr>node_queue := (node_queue s)(n := None), node_task := (node_task s)(n := t)\<rparr>))"

definition wait_queue_register :: "nat \<Rightarrow> nat \<Rightarrow> 'a waits_scheme \<Rightarrow> 'a waits_scheme option" where
  "wait_queue_register q n s =
     (if length (wait_queues s) \<le> q then None
      else if \<not> linked n s then
        Some (s\<lparr>wait_queues := (wait_queues s)[q := wait_queues s ! q @ [n]], node_queue := (node_queue s)(n \<mapsto> q)\<rparr>)
      else if node_queue s n \<noteq> Some q then None
      else Some s)"

definition wait_queue_unregister :: "nat \<Rightarrow> 'a waits_scheme \<Rightarrow> 'a waits_scheme option" where
  "wait_queue_unregister n s =
     (case node_queue s n of None \<Rightarrow> Some s
      | Some q \<Rightarrow>
          if linked n s then
            Some (s\<lparr>wait_queues := map (removeAll n) (wait_queues s), node_queue := (node_queue s)(n := None)\<rparr>)
          else None)"

text \<open>Waking one node: it leaves its queue, and its task must be in interruptible sleep.\<close>

definition wake_node :: "nat \<Rightarrow> nat \<Rightarrow> 'a waits_scheme \<Rightarrow> 'a waits_scheme option" where
  "wake_node cpu n s =
     (let s = s\<lparr>wait_queues := map (removeAll n) (wait_queues s), node_queue := (node_queue s)(n := None)\<rparr>;
          (ok, _, s) = cas_status (node_task s n) TASK_INTR_SLEEPING TASK_RUNNING s
      in if ok then sched_add_ready cpu (node_task s n) s else None)"

fun wake_nodes :: "nat \<Rightarrow> nat list \<Rightarrow> 'a waits_scheme \<Rightarrow> 'a waits_scheme option" where
  "wake_nodes cpu [] s = Some s"
| "wake_nodes cpu (n # ns) s = do { s \<leftarrow> wake_node cpu n s; wake_nodes cpu ns s }"

definition wait_queue_wake :: "nat \<Rightarrow> nat \<Rightarrow> 'a waits_scheme \<Rightarrow> 'a waits_scheme option" where
  "wait_queue_wake cpu q s = (if length (wait_queues s) \<le> q then None else wake_nodes cpu (wait_queues s ! q) s)"

section \<open>The invariant\<close>

definition waits_inv :: "'a waits_scheme \<Rightarrow> bool" where
  "waits_inv s \<longleftrightarrow> (\<forall>q<length (wait_queues s). distinct (wait_queues s ! q)) \<and>
     (\<forall>q n. q < length (wait_queues s) \<and> n \<in> set (wait_queues s ! q) \<longleftrightarrow> node_queue s n = Some q)"

lemma linked_iff: "linked n s \<longleftrightarrow> (\<exists>q<length (wait_queues s). n \<in> set (wait_queues s ! q))"
  by (simp add: linked_def list_ex_length)

lemma waits_invD:
  "waits_inv s \<Longrightarrow> q < length (wait_queues s) \<and> n \<in> set (wait_queues s ! q) \<longleftrightarrow> node_queue s n = Some q"
  by (simp add: waits_inv_def)

lemma linked_node_queue: "waits_inv s \<Longrightarrow> linked n s \<longleftrightarrow> node_queue s n \<noteq> None"
  by (auto simp: linked_iff waits_inv_def)

lemma register_spec:
  assumes "waits_inv s" "q < length (wait_queues s)" "node_queue s n = None \<or> node_queue s n = Some q"
  shows "\<exists>s'. wait_queue_register q n s = Some s' \<and> waits_inv s' \<and> node_queue s' = (node_queue s)(n \<mapsto> q) \<and>
    (\<exists>xs. wait_queues s' ! q = wait_queues s ! q @ xs)"
proof (cases "linked n s")
  case True
  then have "node_queue s n = Some q" using assms(1,3) linked_node_queue by fastforce
  then show ?thesis using True assms by (auto simp: wait_queue_register_def fun_upd_idem)
next
  case False
  then have none: "n \<notin> set (wait_queues s ! p)" if "p < length (wait_queues s)" for p using that by (auto simp: linked_iff)
  let ?s = "s\<lparr>wait_queues := (wait_queues s)[q := wait_queues s ! q @ [n]], node_queue := (node_queue s)(n \<mapsto> q)\<rparr>"
  have nn: "node_queue s n = None" using False linked_node_queue [OF assms(1)] by simp
  have "waits_inv ?s"
    unfolding waits_inv_def
  proof (intro conjI allI impI)
    fix p assume "p < length (wait_queues ?s)"
    then show "distinct (wait_queues ?s ! p)" using assms(1) none by (cases "p = q") (auto simp: waits_inv_def)
  next
    fix p m
    show "p < length (wait_queues ?s) \<and> m \<in> set (wait_queues ?s ! p) \<longleftrightarrow> node_queue ?s m = Some p"
      using assms(1,2) none nn unfolding waits_inv_def by (cases "p = q"; cases "m = n") auto
  qed
  then show ?thesis using False assms(2) by (auto simp: wait_queue_register_def)
qed

lemma remove_spec:
  assumes "waits_inv s"
  shows "waits_inv (s\<lparr>wait_queues := map (removeAll n) (wait_queues s), node_queue := (node_queue s)(n := None)\<rparr>)"
  unfolding waits_inv_def
proof (intro conjI allI impI)
  let ?s = "s\<lparr>wait_queues := map (removeAll n) (wait_queues s), node_queue := (node_queue s)(n := None)\<rparr>"
  fix p assume "p < length (wait_queues ?s)"
  then show "distinct (wait_queues ?s ! p)" using assms by (simp add: waits_inv_def distinct_removeAll)
next
  let ?s = "s\<lparr>wait_queues := map (removeAll n) (wait_queues s), node_queue := (node_queue s)(n := None)\<rparr>"
  fix p m
  have "p < length (wait_queues s) \<and> m \<in> set (wait_queues s ! p) \<longleftrightarrow> node_queue s m = Some p" using assms unfolding waits_inv_def by blast
  then show "p < length (wait_queues ?s) \<and> m \<in> set (wait_queues ?s ! p) \<longleftrightarrow> node_queue ?s m = Some p"
    by (cases "p < length (wait_queues s)") auto
qed

lemma unregister_spec:
  assumes "waits_inv s"
  shows "\<exists>s'. wait_queue_unregister n s = Some s' \<and> waits_inv s' \<and> \<not> linked n s' \<and> node_queue s' = (node_queue s)(n := None)"
proof (cases "node_queue s n")
  case None
  then show ?thesis using assms linked_node_queue [OF assms] by (auto simp: wait_queue_unregister_def)
next
  case (Some q)
  let ?s = "s\<lparr>wait_queues := map (removeAll n) (wait_queues s), node_queue := (node_queue s)(n := None)\<rparr>"
  have "linked n s" using Some linked_node_queue [OF assms] by simp
  moreover have "\<not> linked n ?s" using linked_node_queue [OF remove_spec [OF assms], of n n] by simp
  ultimately show ?thesis using Some remove_spec [OF assms] by (simp add: wait_queue_unregister_def)
qed

section \<open>Waking\<close>

definition woken :: "nat \<Rightarrow> nat list \<Rightarrow> 'a waits_scheme \<Rightarrow> 'a waits_scheme \<Rightarrow> bool" where
  "woken cpu ns s s' \<longleftrightarrow> waits_inv s' \<and> length (wait_queues s') = length (wait_queues s) \<and>
     node_queue s' = (\<lambda>n. if n \<in> set ns then None else node_queue s n) \<and> node_task s' = node_task s \<and>
     status_of s' = (\<lambda>t. if t \<in> node_task s ` set ns then TASK_RUNNING else status_of s t) \<and>
     length (sched_pcpu_data s') = length (sched_pcpu_data s) \<and>
     runqueue (sched_pcpu_data s' ! cpu) = runqueue (sched_pcpu_data s ! cpu) @ map (node_task s) ns \<and>
     (\<forall>c. c \<noteq> cpu \<longrightarrow> sched_pcpu_data s' ! c = sched_pcpu_data s ! c)"

lemma wake_node_spec:
  assumes "waits_inv s" "cpu < length (sched_pcpu_data s)" "status_of s (node_task s n) = TASK_INTR_SLEEPING"
  shows "\<exists>s'. wake_node cpu n s = Some s' \<and> woken cpu [n] s s'"
proof -
  let ?s = "s\<lparr>wait_queues := map (removeAll n) (wait_queues s), node_queue := (node_queue s)(n := None)\<rparr>"
  let ?s' = "update_queue cpu (queue_push (node_task s n)) (?s\<lparr>status_of := (status_of s)(node_task s n := TASK_RUNNING)\<rparr>)"
  have "waits_inv ?s'" using remove_spec [OF assms(1), of n] by (simp add: waits_inv_def update_queue_def)
  moreover have "wake_node cpu n s = Some ?s'" using assms(2,3) by (simp add: wake_node_def cas_status_def sched_add_ready_def Let_def)
  ultimately show ?thesis
    using assms(2) by (auto simp: woken_def update_queue_def queue_push_def fun_eq_iff)
qed

lemma woken_Cons:
  assumes "woken cpu [n] s s1" "woken cpu ns s1 s'"
  shows "woken cpu (n # ns) s s'"
  using assms by (auto simp: woken_def fun_eq_iff)

lemma wake_nodes_spec:
  assumes "waits_inv s" "cpu < length (sched_pcpu_data s)" "distinct (map (node_task s) ns)"
    and "\<forall>n\<in>set ns. status_of s (node_task s n) = TASK_INTR_SLEEPING"
  shows "\<exists>s'. wake_nodes cpu ns s = Some s' \<and> woken cpu ns s s'"
  using assms
proof (induction ns arbitrary: s)
  case Nil
  then show ?case by (simp add: woken_def)
next
  case (Cons n ns)
  obtain s1 where s1: "wake_node cpu n s = Some s1" "woken cpu [n] s s1"
    using wake_node_spec [of s cpu n] Cons.prems by auto
  have "node_task s m \<noteq> node_task s n" if "m \<in> set ns" for m using Cons.prems(3) imageI [OF that, of "node_task s"] by auto
  then have "\<exists>s'. wake_nodes cpu ns s1 = Some s' \<and> woken cpu ns s1 s'"
    by (intro Cons.IH) (use s1(2) Cons.prems in \<open>auto simp: woken_def\<close>)
  then show ?case using s1 woken_Cons by force
qed

text \<open>When waking a queue does not panic.\<close>

definition can_wake :: "nat \<Rightarrow> nat \<Rightarrow> 'a waits_scheme \<Rightarrow> bool" where
  "can_wake cpu q s \<longleftrightarrow> waits_inv s \<and> q < length (wait_queues s) \<and> cpu < length (sched_pcpu_data s) \<and>
     distinct (map (node_task s) (wait_queues s ! q)) \<and>
     (\<forall>n\<in>set (wait_queues s ! q). status_of s (node_task s n) = TASK_INTR_SLEEPING)"

lemma can_wake_nodes:
  assumes "can_wake cpu q s"
  shows "\<exists>s'. wake_nodes cpu (wait_queues s ! q) s = Some s' \<and> woken cpu (wait_queues s ! q) s s'"
  using wake_nodes_spec [of s cpu "wait_queues s ! q"] assms unfolding can_wake_def by blast

section \<open>Properties\<close>

text \<open>The wait queues stay consistent: registering a free node, or one already in that queue, and
  unregistering any node never panic; a node records exactly the queue that holds it, each node is in
  at most one queue, and an unregistered node is in none.\<close>

lemma wait_queue_consistent:
  assumes "waits_inv s" "q < length (wait_queues s)" "node_queue s n = None \<or> node_queue s n = Some q"
  shows "(\<exists>s'. wait_queue_register q n s = Some s' \<and> waits_inv s' \<and> node_queue s' = (node_queue s)(n \<mapsto> q)) \<and>
    (\<exists>s'. wait_queue_unregister m s = Some s' \<and> waits_inv s' \<and> \<not> linked m s' \<and> node_queue s' = (node_queue s)(m := None))"
  using register_spec [OF assms] unregister_spec [OF assms(1)] by blast


section \<open>Witnesses\<close>

definition demo_waits :: waits where
  "demo_waits = \<lparr>status_of = (\<lambda>t. if t \<in> {1, 2} then TASK_INTR_SLEEPING else TASK_RUNNING), rsp0_of = (\<lambda>_. 0x1000),
     sched_pcpu_data = [\<lparr>idle = 9, runqueue = [3], queue_entry_count = 1\<rparr>], current_task = [4],
     wait_queues = [[1, 2], []], node_queue = (\<lambda>n. if n \<in> {1, 2} then Some 0 else None), node_task = (\<lambda>n. n)\<rparr>"

lemma demo_waits_inv: "waits_inv demo_waits"
  by (auto simp: waits_inv_def demo_waits_def less_Suc_eq nth_Cons split: nat.splits)


end
