(* ===== verification/Mutex.thy ===== *)
theory Mutex
  imports Spinlock Sched
begin

text \<open>
  Sleeping mutexes (\<^verbatim>\<open>sys/mutex.c\<close>).  The sections between acquiring and releasing the spinlock of the
  mutex are atomic, by the mutual exclusion of the ticket lock; a thread that has to wait queues
  itself in one such section, and only then changes its status and yields.  The wait queue is a stack,
  linked through the \<^verbatim>\<open>next\<close> field of the tasks.
\<close>

section \<open>Operations\<close>

record mutex =
  spinlock :: spinlock
  waitqueue :: "nat list"
  locked :: bool

definition mutex_init :: mutex where
  "mutex_init = \<lparr>spinlock = spinlock_init, waitqueue = [], locked = False\<rparr>"

text \<open>The section of \<^verbatim>\<open>mutex_lock\<close> under the spinlock; the flag tells whether the lock was taken.\<close>

definition mutex_lock_section :: "nat \<Rightarrow> mutex \<Rightarrow> bool \<times> mutex" where
  "mutex_lock_section t m =
     (if locked m then (False, m\<lparr>waitqueue := t # waitqueue m\<rparr>) else (True, m\<lparr>locked := True\<rparr>))"

text \<open>What a thread that has to wait does after it has queued itself, before it yields.\<close>

definition mutex_lock_sleep :: "nat \<Rightarrow> 'a sched_scheme \<Rightarrow> 'a sched_scheme option" where
  "mutex_lock_sleep t s =
     (let (ok, found, s) = cas_status t TASK_RUNNING TASK_SLEEPING s
      in if \<not> ok \<and> found \<noteq> TASK_SLEEPING then None else Some s)"

text \<open>The section of \<^verbatim>\<open>mutex_unlock\<close>: tasks that died while waiting are skipped.\<close>

fun awake_first :: "nat \<Rightarrow> nat list \<Rightarrow> 'a sched_scheme \<Rightarrow> (nat list \<times> 'a sched_scheme) option" where
  "awake_first cpu [] s = Some ([], s)"
| "awake_first cpu (t # ts) s =
     (let (ok, found, s) = cas_status t TASK_SLEEPING TASK_RUNNING s
      in if ok then do { s \<leftarrow> sched_add_ready cpu t s; Some (ts, s) }
         else if found = TASK_ZOMBIE then awake_first cpu ts s
         else None)"

definition mutex_unlock :: "nat \<Rightarrow> mutex \<Rightarrow> 'a sched_scheme \<Rightarrow> (mutex \<times> 'a sched_scheme) option" where
  "mutex_unlock cpu m s = do {
     (ts, s) \<leftarrow> awake_first cpu (waitqueue m) s;
     Some (m\<lparr>locked := False, waitqueue := ts\<rparr>, s)
   }"

section \<open>Threads using a mutex\<close>

datatype mutex_phase = Away | Queued | Asleep | Holding

record mutex_state =
  mtx :: mutex
  msched :: sched
  mphase :: "nat \<Rightarrow> mutex_phase"

definition move :: "nat \<Rightarrow> mutex_phase \<Rightarrow> mutex_state \<Rightarrow> mutex_state" where
  "move t p s = s\<lparr>mphase := (mphase s)(t := p)\<rparr>"

text \<open>The steps of the threads: a call of \<^verbatim>\<open>mutex_lock\<close> that finds the mutex free or taken, going to
  sleep, returning from the call once the thread runs again, and \<^verbatim>\<open>mutex_unlock\<close>.\<close>

inductive mutex_step :: "nat \<Rightarrow> mutex_state \<Rightarrow> mutex_state \<Rightarrow> bool" for cpu where
  lock: "\<lbrakk>mphase s t = Away; mutex_lock_section t (mtx s) = (True, m)\<rbrakk> \<Longrightarrow> mutex_step cpu s (move t Holding (s\<lparr>mtx := m\<rparr>))"
| wait: "\<lbrakk>mphase s t = Away; mutex_lock_section t (mtx s) = (False, m)\<rbrakk> \<Longrightarrow> mutex_step cpu s (move t Queued (s\<lparr>mtx := m\<rparr>))"
| sleep: "\<lbrakk>mphase s t = Queued; mutex_lock_sleep t (msched s) = Some sc\<rbrakk> \<Longrightarrow> mutex_step cpu s (move t Asleep (s\<lparr>msched := sc\<rparr>))"
| return: "\<lbrakk>mphase s t = Asleep; status_of (msched s) t = TASK_RUNNING\<rbrakk> \<Longrightarrow> mutex_step cpu s (move t Holding s)"
| unlock: "\<lbrakk>mphase s t = Holding; mutex_unlock cpu (mtx s) (msched s) = Some (m, sc)\<rbrakk> \<Longrightarrow>
    mutex_step cpu s (move t Away (s\<lparr>mtx := m, msched := sc\<rparr>))"

definition mutex_start :: "sched \<Rightarrow> mutex_state" where
  "mutex_start sc = \<lparr>mtx = mutex_init, msched = sc, mphase = (\<lambda>_. Away)\<rparr>"

text \<open>Runs in which every call of \<^verbatim>\<open>mutex_lock\<close> finds the mutex free.\<close>

definition uncontended :: "nat \<Rightarrow> mutex_state \<Rightarrow> mutex_state \<Rightarrow> bool" where
  "uncontended cpu s s' \<longleftrightarrow> mutex_step cpu s s' \<and> waitqueue (mtx s') = []"

definition solo :: "mutex_state \<Rightarrow> bool" where
  "solo s \<longleftrightarrow> waitqueue (mtx s) = [] \<and>
     (if locked (mtx s) then \<exists>t. mphase s = (\<lambda>_. Away)(t := Holding) else mphase s = (\<lambda>_. Away))"

lemma solo_holder: "\<lbrakk>solo s; mphase s t = Holding\<rbrakk> \<Longrightarrow> locked (mtx s) \<and> mphase s = (\<lambda>_. Away)(t := Holding)"
proof (cases "locked (mtx s)")
  case True
  assume "solo s" "mphase s t = Holding"
  then obtain u where u: "mphase s = (\<lambda>_. Away)(u := Holding)" using True unfolding solo_def by auto
  then have "u = t" using \<open>mphase s t = Holding\<close> by (cases "u = t") simp_all
  then show ?thesis using u True by blast
next
  case False
  assume "solo s" "mphase s t = Holding"
  then show ?thesis using False by (simp add: solo_def)
qed

lemma solo_phase: "solo s \<Longrightarrow> mphase s t = Away \<or> mphase s t = Holding"
  by (auto simp: solo_def split: if_splits)

lemma solo_step:
  assumes "uncontended cpu s s'" "solo s" shows "solo s'"
proof -
  have st: "mutex_step cpu s s'" and q: "waitqueue (mtx s') = []" using assms(1) by (simp_all add: uncontended_def)
  from st show ?thesis
  proof cases
    case (lock t m)
    then have "\<not> locked (mtx s)" "m = (mtx s)\<lparr>locked := True\<rparr>" by (auto simp: mutex_lock_section_def split: if_splits)
    then show ?thesis using lock(1) assms(2) by (auto simp: solo_def move_def)
  next
    case (wait t m)
    then show ?thesis using q by (auto simp: mutex_lock_section_def move_def split: if_splits)
  next
    case (sleep t sc)
    then show ?thesis using solo_phase [OF assms(2), of t] by simp
  next
    case (return t)
    then show ?thesis using solo_phase [OF assms(2), of t] by simp
  next
    case (unlock t m sc)
    then have "mphase s = (\<lambda>_. Away)(t := Holding)" using solo_holder [OF assms(2)] by blast
    then show ?thesis using unlock assms(2) by (auto simp: solo_def move_def mutex_unlock_def)
  qed
qed

section \<open>Properties\<close>

text \<open>A mutex excludes as long as nobody has to wait: in every run in which each call finds it free, at most
  one thread holds it, and it is marked locked exactly while a thread does.\<close>

lemma mutex_uncontended_exclusion:
  assumes "(uncontended cpu)\<^sup>*\<^sup>* (mutex_start sc) s"
  shows "(\<forall>t u. mphase s t = Holding \<and> mphase s u = Holding \<longrightarrow> t = u) \<and> (locked (mtx s) \<longleftrightarrow> (\<exists>t. mphase s t = Holding))"
proof -
  have "solo s" using assms
    by (induction rule: rtranclp_induct) (simp add: solo_def mutex_start_def mutex_init_def, rule solo_step)
  then show ?thesis by (auto simp: solo_def split: if_splits)
qed

definition mutex_run1 :: mutex_state where
  "mutex_run1 = move 0 Holding ((mutex_start demo_sched)\<lparr>mtx := mutex_init\<lparr>locked := True\<rparr>\<rparr>)"

lemma mutex_run1: "mutex_step cpu (mutex_start demo_sched) mutex_run1"
  unfolding mutex_run1_def by (rule mutex_step.lock) (simp_all add: mutex_start_def mutex_init_def mutex_lock_section_def)

definition mutex_run2 :: mutex_state where
  "mutex_run2 = move 1 Queued (mutex_run1\<lparr>mtx := (mtx mutex_run1)\<lparr>waitqueue := [1]\<rparr>\<rparr>)"

definition mutex_run3 :: mutex_state where
  "mutex_run3 = move 1 Asleep (mutex_run2\<lparr>msched := demo_sched\<lparr>status_of := (status_of demo_sched)(1 := TASK_SLEEPING)\<rparr>\<rparr>)"

definition mutex_run4 :: mutex_state where
  "mutex_run4 = move 0 Away (mutex_run3\<lparr>mtx := mutex_init,
     msched := update_queue 0 (queue_push 1) ((msched mutex_run3)\<lparr>status_of := (status_of (msched mutex_run3))(1 := TASK_RUNNING)\<rparr>)\<rparr>)"

definition mutex_run5 :: mutex_state where
  "mutex_run5 = move 2 Holding (mutex_run4\<lparr>mtx := mutex_init\<lparr>locked := True\<rparr>\<rparr>)"

lemmas mutex_run_defs = mutex_run5_def mutex_run4_def mutex_run3_def mutex_run2_def mutex_run1_def
  move_def mutex_start_def mutex_init_def mutex_lock_section_def mutex_lock_sleep_def mutex_unlock_def cas_status_def
  sched_add_ready_def demo_sched_def

lemma mutex_run2: "mutex_step 0 mutex_run1 mutex_run2"
  unfolding mutex_run2_def by (rule mutex_step.wait) (simp_all add: mutex_run_defs)

lemma mutex_run3: "mutex_step 0 mutex_run2 mutex_run3"
  unfolding mutex_run3_def by (rule mutex_step.sleep) (simp_all add: mutex_run_defs)

lemma mutex_run4: "mutex_step 0 mutex_run3 mutex_run4"
  unfolding mutex_run4_def by (rule mutex_step.unlock) (simp_all add: mutex_run_defs)

lemma mutex_run5: "mutex_step 0 mutex_run4 mutex_run5"
  unfolding mutex_run5_def by (rule mutex_step.lock) (simp_all add: mutex_run_defs)

lemma mutex_run6: "mutex_step 0 mutex_run5 (move 1 Holding mutex_run5)"
  by (rule mutex_step.return) (simp_all add: mutex_run_defs update_queue_def)

lemmas mutex_run_reach =
  rtranclp.rtrancl_into_rtrancl [OF r_into_rtranclp [of "mutex_step 0", OF mutex_run1 [of 0]] mutex_run2]

text \<open>C20: Under contention the mutex does not exclude, and unlocking it can panic: the unlocking wakes a waiter
  but leaves the mutex free, so that a third thread takes it while the woken one returns from
  its call to lock it; and a thread that has queued itself but not yet changed its status makes
  the unlocking panic.\<close>

theorem mutex_contended_failures:
  "(\<exists>s. (mutex_step 0)\<^sup>*\<^sup>* (mutex_start demo_sched) s \<and> mphase s 1 = Holding \<and> mphase s 2 = Holding) \<and>
   (\<exists>s. (mutex_step 0)\<^sup>*\<^sup>* (mutex_start demo_sched) s \<and> mphase s 0 = Holding \<and> mutex_unlock 0 (mtx s) (msched s) = None)"
proof -
  note r3 = rtranclp.rtrancl_into_rtrancl [OF mutex_run_reach mutex_run3]
  note r4 = rtranclp.rtrancl_into_rtrancl [OF r3 mutex_run4]
  note r5 = rtranclp.rtrancl_into_rtrancl [OF r4 mutex_run5]
  note r6 = rtranclp.rtrancl_into_rtrancl [OF r5 mutex_run6]
  have "mphase (move 1 Holding mutex_run5) 1 = Holding \<and> mphase (move 1 Holding mutex_run5) 2 = Holding"
    by (simp add: mutex_run_defs)
  moreover have "mphase mutex_run2 0 = Holding \<and> mutex_unlock 0 (mtx mutex_run2) (msched mutex_run2) = None"
    by (simp add: mutex_run_defs)
  ultimately show ?thesis using r6 mutex_run_reach by blast
qed

end
