(* ===== verification/Sleep_Queue.thy ===== *)
theory Sleep_Queue
  imports Intrusive_List Sched Vm_Space
begin

text \<open>
  The sleep queues (\<^verbatim>\<open>sched/task_sleep.c\<close>): per CPU a list of sleep descriptors, each with the time that
  remains after the descriptor before it.  The lists are modelled on the heap of links, because the
  insertion works on the links themselves.  A descriptor is the node of its list entry; the head of a
  queue is a node as well, and \<^verbatim>\<open>cur->delta\<close> is a word of memory for it too.
\<close>

section \<open>Operations\<close>

record sleepers = sched +
  sl_links :: "nat links"
  sl_delta :: "nat \<Rightarrow> u64"
  sl_task :: "nat \<Rightarrow> nat"
  sl_heads :: "nat list"

definition CLOCK_REALTIME :: u32 where "CLOCK_REALTIME = 0"

text \<open>The loop that looks for the place of a descriptor; \<^term>\<open>None\<close> is a walk that never ends.\<close>

partial_function (option) find_place :: "nat \<Rightarrow> nat \<Rightarrow> u64 \<Rightarrow> nat links \<Rightarrow> (nat \<Rightarrow> u64) \<Rightarrow> (nat \<times> u64) option" where
  "find_place head cur d links delta =
     (if cur = head then Some (cur, d)
      else if d < delta cur then Some (cur, d)
      else find_place head (next_node links cur) (d - delta cur) links delta)"

definition sleep_enqueue :: "nat \<Rightarrow> nat \<Rightarrow> nat \<Rightarrow> u64 \<Rightarrow> 'a sleepers_scheme \<Rightarrow> 'a sleepers_scheme option" where
  "sleep_enqueue head node task time_ns s = do {
     let links = list_node_init node (sl_links s);
     (cur, d) \<leftarrow> find_place head (next_node links head) time_ns links (sl_delta s);
     let delta = (sl_delta s)(node := d);
     let s = s\<lparr>sl_task := (sl_task s)(node := task)\<rparr>;
     let s = (if list_empty head links then s\<lparr>sl_links := list_add head node links, sl_delta := delta\<rparr>
              else s\<lparr>sl_links := list_add_tail node cur links, sl_delta := delta(cur := delta cur - d)\<rparr>);
     let (_, _, s) = cas_status task TASK_RUNNING TASK_INTR_SLEEPING s;
     Some s
   }"

definition sys_clock_nanosleep :: "nat \<Rightarrow> u32 \<Rightarrow> virtaddr \<Rightarrow> u64 \<Rightarrow> u64 \<Rightarrow> nat \<Rightarrow> 'a sleepers_scheme \<Rightarrow>
    (unit result \<times> 'a sleepers_scheme) option" where
  "sys_clock_nanosleep cpu clock tv tv_sec tv_nsec node s =
     (if clock \<noteq> CLOCK_REALTIME then Some (Inl EINVAL, s)
      else if \<not> vm_validate_ptr tv 16 then Some (Inl EFAULT, s)
      else if length (sl_heads s) \<le> cpu \<or> length (current_task s) \<le> cpu then None
      else do {
        s \<leftarrow> sleep_enqueue (sl_heads s ! cpu) node (current_task s ! cpu) (tv_sec * 1000000000 + tv_nsec) s;
        s \<leftarrow> sched_yield cpu s;
        Some (Inr (), s)
      })"

text \<open>The loop over the queue at a timer tick, with the successor taken before the body.\<close>

partial_function (option) tick_loop :: "nat \<Rightarrow> nat \<Rightarrow> nat \<Rightarrow> nat \<Rightarrow> u64 \<Rightarrow> 'a sleepers_scheme \<Rightarrow> 'a sleepers_scheme option" where
  "tick_loop cpu head cur tmp ns s =
     (if cur = head then Some s
      else if sl_delta s cur \<le> ns then
        let ns = ns - sl_delta s cur;
            s = s\<lparr>sl_delta := (sl_delta s)(cur := 0)\<rparr>;
            (ok, _, s) = cas_status (sl_task s cur) TASK_INTR_SLEEPING TASK_RUNNING s
        in if \<not> ok then Some s
           else do {
             s \<leftarrow> sched_add_ready cpu (sl_task s cur) (s\<lparr>sl_links := list_del cur (sl_links s)\<rparr>);
             if ns = 0 then Some s else tick_loop cpu head tmp (next_node (sl_links s) tmp) ns s
           }
      else Some (s\<lparr>sl_delta := (sl_delta s)(cur := sl_delta s cur - ns)\<rparr>))"

definition sleep_queue_tick :: "nat \<Rightarrow> u64 \<Rightarrow> 'a sleepers_scheme \<Rightarrow> 'a sleepers_scheme option" where
  "sleep_queue_tick cpu ns s =
     (if length (sl_heads s) \<le> cpu then None
      else let head = sl_heads s ! cpu; cur = next_node (sl_links s) head
           in tick_loop cpu head cur (next_node (sl_links s) cur) ns s)"

definition sleep_queue_init :: "nat list \<Rightarrow> 'a sleepers_scheme \<Rightarrow> 'a sleepers_scheme" where
  "sleep_queue_init heads s = s\<lparr>sl_heads := heads, sl_links := fold list_node_init heads (sl_links s)\<rparr>"

fun run_ticks :: "nat \<Rightarrow> u64 list \<Rightarrow> 'a sleepers_scheme \<Rightarrow> 'a sleepers_scheme option" where
  "run_ticks cpu [] s = Some s"
| "run_ticks cpu (ns # nss) s = do { s \<leftarrow> sleep_queue_tick cpu ns s; run_ticks cpu nss s }"

section \<open>A single sleeper\<close>

text \<open>The state in which one task sleeps alone in the queue of a CPU with a time left.\<close>

definition alone :: "nat \<Rightarrow> nat \<Rightarrow> nat \<Rightarrow> u64 \<Rightarrow> 'a sleepers_scheme \<Rightarrow> bool" where
  "alone cpu node task d s \<longleftrightarrow> cpu < length (sl_heads s) \<and> cpu < length (sched_pcpu_data s) \<and>
     dlist (sl_links s) (sl_heads s ! cpu) [node] \<and> sl_delta s node = d \<and> sl_task s node = task \<and>
     status_of s task = TASK_INTR_SLEEPING"

lemma find_place_empty: "find_place head head d links delta = Some (head, d)"
  by (simp add: find_place.simps)

lemma enqueue_alone:
  assumes "dlist (sl_links s) (sl_heads s ! cpu) []" "node \<noteq> sl_heads s ! cpu" "status_of s task = TASK_RUNNING"
    and "cpu < length (sl_heads s)" "cpu < length (sched_pcpu_data s)"
  shows "\<exists>s'. sleep_enqueue (sl_heads s ! cpu) node task time_ns s = Some s' \<and> alone cpu node task time_ns s' \<and>
    sched_pcpu_data s' = sched_pcpu_data s"
proof -
  let ?h = "sl_heads s ! cpu" and ?l = "list_node_init node (sl_links s)"
  have d: "dlist ?l ?h []" using assms(1,2) by (intro dlist_init_other) simp_all
  then have e: "next_node ?l ?h = ?h" "list_empty ?h ?l" using dlist_next [OF d] list_empty_iff [OF d] by simp_all
  have "dlist (list_add ?h node ?l) ?h [node]" using dlist_add [OF d] assms(2) by simp
  then show ?thesis
    using e assms(3-5) by (simp add: sleep_enqueue_def Let_def find_place_empty cas_status_def alone_def)
qed

lemma alone_next:
  assumes "alone cpu node task d s"
  shows "next_node (sl_links s) (sl_heads s ! cpu) = node" "node \<noteq> sl_heads s ! cpu" "next_node (sl_links s) node = sl_heads s ! cpu"
  using assms by (auto simp: alone_def dlist_def)

lemma tick_alone_early:
  assumes "alone cpu node task d s" "ns < d"
  shows "\<exists>s'. sleep_queue_tick cpu ns s = Some s' \<and> alone cpu node task (d - ns) s' \<and> sched_pcpu_data s' = sched_pcpu_data s"
  using assms alone_next [OF assms(1)]
  by (simp add: sleep_queue_tick_def Let_def tick_loop.simps alone_def not_le [symmetric])

lemma tick_alone_wakes:
  assumes "alone cpu node task d s" "d \<le> ns"
  shows "\<exists>s'. sleep_queue_tick cpu ns s = Some s' \<and> status_of s' task = TASK_RUNNING \<and> dlist (sl_links s') (sl_heads s' ! cpu) [] \<and>
    runqueue (sched_pcpu_data s' ! cpu) = runqueue (sched_pcpu_data s ! cpu) @ [task]"
proof -
  let ?h = "sl_heads s ! cpu"
  note n = alone_next [OF assms(1)]
  have l: "dlist (list_del node (sl_links s)) ?h []" using dlist_del(1) [of "sl_links s" ?h "[]" node "[]"] assms(1) by (simp add: alone_def)
  let ?s = "update_queue cpu (queue_push task) (s\<lparr>sl_delta := (sl_delta s)(node := 0), status_of := (status_of s)(task := TASK_RUNNING),
      sl_links := list_del node (sl_links s)\<rparr>)"
  have "sleep_queue_tick cpu ns s = Some ?s"
    using assms n by (simp add: sleep_queue_tick_def Let_def tick_loop.simps cas_status_def sched_add_ready_def alone_def)
  moreover have "sl_links ?s = list_del node (sl_links s)" "sl_heads ?s = sl_heads s" by (simp_all add: update_queue_def)
  moreover have "runqueue (sched_pcpu_data ?s ! cpu) = runqueue (sched_pcpu_data s ! cpu) @ [task]" "status_of ?s task = TASK_RUNNING"
    using assms(1) by (simp_all add: update_queue_def queue_push_def alone_def)
  ultimately show ?thesis using l by auto
qed

lemma run_ticks_alone:
  assumes "alone cpu node task d s" "sum_list (map unat nss) < unat d"
  shows "\<exists>s' d'. run_ticks cpu nss s = Some s' \<and> alone cpu node task d' s' \<and> unat d' = unat d - sum_list (map unat nss) \<and>
    sched_pcpu_data s' = sched_pcpu_data s"
  using assms
proof (induction nss arbitrary: s d)
  case (Cons ns nss)
  have lt: "ns < d" using Cons.prems(2) by (simp add: word_less_nat_alt)
  then have u: "unat (d - ns) = unat d - unat ns" by (intro unat_sub_small) simp
  obtain s1 where s1: "sleep_queue_tick cpu ns s = Some s1" "alone cpu node task (d - ns) s1" "sched_pcpu_data s1 = sched_pcpu_data s"
    using tick_alone_early [OF Cons.prems(1) lt] by blast
  have "sum_list (map unat nss) < unat (d - ns)" using Cons.prems(2) u by simp
  from Cons.IH [OF s1(2) this] show ?case using s1 u by auto
qed auto

section \<open>A queue that is not empty\<close>

text \<open>The place found in a well-formed queue: the first descriptor whose own time exceeds what is left.\<close>

lemma find_place_chain:
  assumes "chain links p xs head" "head \<notin> set xs"
  shows "\<exists>cur d'. find_place head (next_node links p) d links delta = Some (cur, d') \<and> (cur = head \<or> cur \<in> set xs)"
  using assms
proof (induction xs arbitrary: p d)
  case Nil
  then show ?case by (simp add: find_place.simps)
next
  case (Cons x xs)
  have n: "next_node links p = x" "x \<noteq> head" using Cons.prems by auto
  obtain cur d' where "find_place head (next_node links x) (d - delta x) links delta = Some (cur, d')" "cur = head \<or> cur \<in> set xs"
    using Cons.IH [of x "d - delta x"] Cons.prems by auto
  then show ?case using n by (subst find_place.simps) auto
qed

lemma walk_trapped:
  assumes "next_node l a = b" "next_node l b = a" "a \<noteq> head" "b \<noteq> head"
  shows "walk_from fuel head a l = None \<and> walk_from fuel head b l = None"
proof (induction fuel)
  case 0
  then show ?case using assms by (simp add: walk_from.simps [of 0])
next
  case (Suc k)
  then show ?case using assms by simp
qed

lemma walk_into_trap:
  assumes "chain links p xs head" "c \<in> set xs" "head \<notin> set xs" "distinct xs" "p \<notin> set xs" "n \<notin> set xs" "n \<noteq> p" "n \<noteq> head"
    and "next_node l c = n" "next_node l n = c" "\<forall>x. x \<noteq> c \<and> x \<noteq> n \<longrightarrow> next_node l x = next_node links x"
  shows "walk_from fuel head (next_node l p) l = None"
  using assms
proof (induction xs arbitrary: p fuel)
  case (Cons x xs)
  have x: "next_node l p = x" "x \<noteq> head" using Cons.prems by auto
  show ?case
  proof (cases "x = c")
    case True
    then show ?thesis using walk_trapped [of l c n head fuel] Cons.prems x by simp
  next
    case False
    show ?thesis
    proof (cases fuel)
      case 0
      then show ?thesis using x by (simp add: walk_from.simps [of 0])
    next
      case (Suc k)
      have "walk_from k head (next_node l x) l = None" using False Cons.prems by (intro Cons.IH) auto
      then show ?thesis using Suc x by simp
    qed
  qed
qed simp

lemma swapped_insert:
  assumes "c \<noteq> n"
  shows "next_node (list_add_tail n c (list_node_init n l)) c = n" "next_node (list_add_tail n c (list_node_init n l)) n = c"
    "x \<noteq> c \<Longrightarrow> x \<noteq> n \<Longrightarrow> next_node (list_add_tail n c (list_node_init n l)) x = next_node l x"
    "prev (list_add_tail n c (list_node_init n l)) c = n" "prev (list_add_tail n c (list_node_init n l)) n = c"
  using assms by (auto simp: link_defs)

section \<open>Properties\<close>

text \<open>C21: A task that goes to sleep on a CPU with an empty sleep queue sleeps exactly as long as it asked: while the
  ticks add up to less than the time it stays asleep, and the first tick that reaches the time makes
  it running and appends it to the run queue.\<close>

theorem nanosleep_alone_exact:
  assumes "dlist (sl_links s) (sl_heads s ! cpu) []" "node \<noteq> sl_heads s ! cpu" "status_of s task = TASK_RUNNING"
    and "cpu < length (sl_heads s)" "cpu < length (sched_pcpu_data s)"
    and "sum_list (map unat nss) < unat time_ns" "unat time_ns \<le> sum_list (map unat nss) + unat ns"
  shows "\<exists>s1 s2 s3. sleep_enqueue (sl_heads s ! cpu) node task time_ns s = Some s1 \<and>
    run_ticks cpu nss s1 = Some s2 \<and> status_of s2 task = TASK_INTR_SLEEPING \<and> sched_pcpu_data s2 = sched_pcpu_data s \<and>
    sleep_queue_tick cpu ns s2 = Some s3 \<and> status_of s3 task = TASK_RUNNING \<and>
    runqueue (sched_pcpu_data s3 ! cpu) = runqueue (sched_pcpu_data s ! cpu) @ [task]"
proof -
  obtain s1 where s1: "sleep_enqueue (sl_heads s ! cpu) node task time_ns s = Some s1" "alone cpu node task time_ns s1"
    "sched_pcpu_data s1 = sched_pcpu_data s" using enqueue_alone [OF assms(1-5)] by blast
  obtain s2 d where s2: "run_ticks cpu nss s1 = Some s2" "alone cpu node task d s2" "unat d = unat time_ns - sum_list (map unat nss)"
    "sched_pcpu_data s2 = sched_pcpu_data s1" using run_ticks_alone [OF s1(2) assms(6)] by blast
  have "d \<le> ns" using s2(3) assms(7) by (simp add: word_le_nat_alt)
  from tick_alone_wakes [OF s2(2) this] s1 s2 show ?thesis by (auto simp: alone_def)
qed

text \<open>C22: Going to sleep on a CPU whose sleep queue is not empty breaks the queue, because the insertion passes the
  two nodes in the wrong order: afterwards either the queue holds the new descriptor alone and every
  earlier sleeper has dropped out of it, or a walk over the queue never comes back to its head.\<close>

theorem nanosleep_breaks_queue:
  assumes "dlist (sl_links s) head xs" "xs \<noteq> []" "node \<notin> set (head # xs)"
  shows "\<exists>s'. sleep_enqueue head node task time_ns s = Some s' \<and>
    (dlist (sl_links s') head [node] \<or> (\<forall>fuel. list_for_each_entry fuel head (sl_links s') = None))"
proof -
  let ?l = "list_node_init node (sl_links s)"
  have d: "dlist ?l head xs" using assms(1,3) by (rule dlist_init_other)
  then have c: "chain ?l head xs head" "head \<notin> set xs" "distinct xs" by (auto simp: dlist_def)
  have ne: "\<not> list_empty head ?l" using list_empty_iff [OF d] assms(2) by simp
  obtain cur t where f: "find_place head (next_node ?l head) time_ns ?l (sl_delta s) = Some (cur, t)" "cur = head \<or> cur \<in> set xs"
    using find_place_chain [OF c(1,2)] by blast
  have nc: "cur \<noteq> node" using f(2) assms(3) by auto
  let ?l' = "list_add_tail node cur ?l"
  note sw = swapped_insert [where l = "sl_links s", OF nc]
  have "\<exists>s'. sleep_enqueue head node task time_ns s = Some s' \<and> sl_links s' = ?l'"
    using f(1) ne by (simp add: sleep_enqueue_def Let_def cas_status_def)
  moreover have "dlist ?l' head [node]" if "cur = head" using sw nc that by (simp add: dlist_def)
  moreover have "list_for_each_entry fuel head ?l' = None" if "cur \<in> set xs" for fuel
    unfolding list_for_each_entry_def
    by (rule walk_into_trap [OF c(1) that c(2,3) c(2)]) (use assms(3) sw in \<open>auto simp: list_node_init_def set_next_def set_prev_def\<close>)
  ultimately show ?thesis using f(2) by force
qed

section \<open>Witnesses\<close>

definition demo_sleepers :: sleepers where
  "demo_sleepers = \<lparr>status_of = (\<lambda>_. TASK_RUNNING), rsp0_of = (\<lambda>_. 0x1000),
     sched_pcpu_data = [\<lparr>idle = 9, runqueue = [], queue_entry_count = 0\<rparr>], current_task = [1],
     sl_links = \<lparr>prev = (\<lambda>n. n), next_node = (\<lambda>n. n)\<rparr>, sl_delta = (\<lambda>_. 0), sl_task = (\<lambda>_. 0), sl_heads = [100]\<rparr>"

lemma demo_sleepers_empty: "dlist (sl_links demo_sleepers) (sl_heads demo_sleepers ! 0) []"
  by (simp add: demo_sleepers_def dlist_def)

theorem nanosleep_alone_exact_witness:
  "\<exists>s1 s2 s3. sleep_enqueue 100 5 1 2500000 demo_sleepers = Some s1 \<and> run_ticks 0 [1000000, 1000000] s1 = Some s2 \<and>
    status_of s2 1 = TASK_INTR_SLEEPING \<and> sleep_queue_tick 0 1000000 s2 = Some s3 \<and> status_of s3 1 = TASK_RUNNING"
  using nanosleep_alone_exact [OF demo_sleepers_empty, of 5 1 "[1000000, 1000000]" 2500000 1000000]
  by (auto simp: demo_sleepers_def)

theorem nanosleep_breaks_queue_witness:
  "\<exists>s1 s'. sleep_enqueue 100 5 1 2500000 demo_sleepers = Some s1 \<and> sleep_enqueue 100 6 2 3000000 s1 = Some s' \<and>
    (dlist (sl_links s') 100 [6] \<or> (\<forall>fuel. list_for_each_entry fuel 100 (sl_links s') = None))"
proof -
  obtain s1 where s1: "sleep_enqueue (sl_heads demo_sleepers ! 0) 5 1 2500000 demo_sleepers = Some s1" "alone 0 5 1 2500000 s1"
    "sl_heads s1 = sl_heads demo_sleepers"
    using enqueue_alone [OF demo_sleepers_empty, of 5 1 2500000]
    by (auto simp: demo_sleepers_def sleep_enqueue_def Let_def cas_status_def bind_Some_iff split: prod.splits if_splits)
  then have "dlist (sl_links s1) 100 [5]" by (simp add: alone_def demo_sleepers_def)
  from nanosleep_breaks_queue [OF this, of 6 2 3000000] s1(1) show ?thesis by (auto simp: demo_sleepers_def)
qed

end
