(* ===== verification/Clock.thy ===== *)
theory Clock
  imports Sleep_Queue
begin

text \<open>
  Clock sources and timer devices (\<^verbatim>\<open>sys/clock.c\<close>, \<^verbatim>\<open>sys/timer.c\<close>).  Both keep the registered device of
  the highest priority; the locale \<^verbatim>\<open>prio_registry\<close> holds what they share.  The callbacks of a clock
  source are recorded as a trace of calls; its readings and the end-of-interrupt callback of a timer
  belong to the drivers and are arguments.
\<close>

section \<open>Clock sources\<close>

datatype source_call = Enable nat | Disable nat

text \<open>A source is its number in the list of registered sources, with its priority.\<close>

record clocks =
  sources :: "(nat \<times> u8) list"
  current_source :: "(nat \<times> u8) option"
  max_prio :: u8
  boot_time :: int
  source_calls :: "source_call list"

definition clocks_start :: clocks where
  "clocks_start = \<lparr>sources = [], current_source = None, max_prio = 0, boot_time = 0, source_calls = []\<rparr>"

definition clocksource_register :: "nat \<times> u8 \<Rightarrow> clocks \<Rightarrow> clocks" where
  "clocksource_register source c =
     (let c = c\<lparr>sources := sources c @ [source]\<rparr>
      in if max_prio c < snd source then
           let calls = (case current_source c of Some s \<Rightarrow> [Disable (fst s)] | None \<Rightarrow> [])
           in c\<lparr>max_prio := snd source, current_source := Some source,
                source_calls := source_calls c @ calls @ [Enable (fst source)]\<rparr>
         else c)"

text \<open>\<^term>\<open>rd n i\<close> is what source \<^term>\<open>n\<close> returns when it is read at the moment \<^term>\<open>i\<close>.\<close>

definition clock_uptime :: "(nat \<Rightarrow> nat \<Rightarrow> u64) \<Rightarrow> clocks \<Rightarrow> nat \<Rightarrow> u64" where
  "clock_uptime rd c i = (case current_source c of None \<Rightarrow> 0 | Some s \<Rightarrow> rd (fst s) i)"

partial_function (option) wait_loop :: "(nat \<Rightarrow> u64) \<Rightarrow> u64 \<Rightarrow> nat \<Rightarrow> nat option" where
  "wait_loop uptime target i = (if uptime i < target then wait_loop uptime target (Suc i) else Some i)"

text \<open>The moment at which \<^verbatim>\<open>clock_wait\<close>, called at the moment \<^term>\<open>i\<close>, returns.\<close>

definition clock_wait :: "(nat \<Rightarrow> nat \<Rightarrow> u64) \<Rightarrow> clocks \<Rightarrow> u64 \<Rightarrow> nat \<Rightarrow> nat option" where
  "clock_wait rd c nanos i =
     (if nanos = 0 then Some i else wait_loop (clock_uptime rd c) (clock_uptime rd c i + nanos) (Suc i))"

definition clock_set_boottime :: "int \<Rightarrow> clocks \<Rightarrow> clocks" where
  "clock_set_boottime t c = c\<lparr>boot_time := t\<rparr>"

definition sys_clock_gettime :: "(nat \<Rightarrow> nat \<Rightarrow> u64) \<Rightarrow> clocks \<Rightarrow> u32 \<Rightarrow> virtaddr \<Rightarrow> nat \<Rightarrow> (int \<times> int) result" where
  "sys_clock_gettime rd c clock tv i =
     (if clock \<noteq> CLOCK_REALTIME then Inl EINVAL
      else if \<not> vm_validate_ptr tv 16 then Inl EFAULT
      else let uptime = clock_uptime rd c i
           in Inr (uint (uptime div 1000000000) + boot_time c, uint (uptime mod 1000000000)))"

section \<open>Timers\<close>

record timers =
  timer_devices :: "(nat \<times> u8) list"
  current_timer :: "(nat \<times> u8) option"
  timer_max_prio :: u8

definition timers_start :: timers where
  "timers_start = \<lparr>timer_devices = [], current_timer = None, timer_max_prio = 0\<rparr>"

definition timer_device_register :: "nat \<times> u8 \<Rightarrow> timers \<Rightarrow> timers" where
  "timer_device_register device t =
     (let t = t\<lparr>timer_devices := timer_devices t @ [device]\<rparr>
      in if timer_max_prio t < snd device then t\<lparr>timer_max_prio := snd device, current_timer := Some device\<rparr> else t)"

text \<open>Starting the timer programs the current device; without one the kernel panics.\<close>

definition timer_start :: "timers \<Rightarrow> nat option" where
  "timer_start t = map_option fst (current_timer t)"

definition timer_interrupt :: "timers \<Rightarrow> nat \<Rightarrow> 'a sleepers_scheme \<Rightarrow> 'a sleepers_scheme option" where
  "timer_interrupt t cpu s =
     (case current_timer t of None \<Rightarrow> None
      | Some _ \<Rightarrow> do { s \<leftarrow> sleep_queue_tick cpu 1000000 s; schedule cpu s })"

section \<open>Registries by priority\<close>

text \<open>The first device of the highest priority; devices of priority zero are never chosen.\<close>

fun best :: "(nat \<times> u8) list \<Rightarrow> (nat \<times> u8) option \<Rightarrow> (nat \<times> u8) option" where
  "best [] b = b"
| "best (d # ds) b = best ds (if (case b of None \<Rightarrow> 0 | Some c \<Rightarrow> snd c) < snd d then Some d else b)"

lemma best_spec:
  "(case best ds b of
      None \<Rightarrow> b = None \<and> (\<forall>d\<in>set ds. snd d = 0)
    | Some c \<Rightarrow> (c \<in> set ds \<or> b = Some c) \<and> (\<forall>d\<in>set ds. snd d \<le> snd c) \<and> (\<forall>e. b = Some e \<longrightarrow> snd e \<le> snd c))"
proof (induction ds arbitrary: b)
  case Nil
  then show ?case by (simp split: option.split)
next
  case (Cons d ds)
  show ?case
  proof (cases "(case b of None \<Rightarrow> 0 | Some c \<Rightarrow> snd c) < snd d")
    case True
    then have e: "snd e \<le> snd d" if "b = Some e" for e using that by simp
    obtain c where c: "best ds (Some d) = Some c" using Cons.IH [of "Some d"] by (cases "best ds (Some d)") auto
    then have "(c \<in> set ds \<or> d = c) \<and> (\<forall>d\<in>set ds. snd d \<le> snd c) \<and> snd d \<le> snd c" using Cons.IH [of "Some d"] by auto
    then show ?thesis using e c True by (auto intro: order_trans)
  next
    case False
    then have d: "b = None \<Longrightarrow> snd d = 0" "\<And>e. b = Some e \<Longrightarrow> snd d \<le> snd e" by (simp_all add: word_neq_0_conv not_less)
    show ?thesis
    proof (cases "best ds b")
      case None
      then show ?thesis using Cons.IH [of b] False d(1) by simp
    next
      case (Some c)
      then have IH: "c \<in> set ds \<or> b = Some c" "\<forall>d\<in>set ds. snd d \<le> snd c" "\<And>e. b = Some e \<Longrightarrow> snd e \<le> snd c"
        using Cons.IH [of b] by auto
      then have "snd d \<le> snd c" using d by (cases b) (auto intro: order_trans)
      then show ?thesis using IH Some False by auto
    qed
  qed
qed

locale prio_registry =
  fixes register :: "nat \<times> u8 \<Rightarrow> 's \<Rightarrow> 's" and chosen :: "'s \<Rightarrow> (nat \<times> u8) option" and top_prio :: "'s \<Rightarrow> u8" and start :: 's
  assumes start_none: "chosen start = None" "top_prio start = 0"
    and register_higher: "top_prio s < snd d \<Longrightarrow> chosen (register d s) = Some d \<and> top_prio (register d s) = snd d"
    and register_lower: "\<not> top_prio s < snd d \<Longrightarrow> chosen (register d s) = chosen s \<and> top_prio (register d s) = top_prio s"
begin

lemma fold_best:
  "top_prio s = (case chosen s of None \<Rightarrow> 0 | Some c \<Rightarrow> snd c) \<Longrightarrow> chosen (fold register ds s) = best ds (chosen s)"
proof (induction ds arbitrary: s)
  case (Cons d ds)
  have "top_prio (register d s) = (case chosen (register d s) of None \<Rightarrow> 0 | Some c \<Rightarrow> snd c)"
    using Cons.prems register_higher register_lower by (cases "top_prio s < snd d") auto
  from Cons.IH [OF this] show ?case
    using Cons.prems register_higher [of s d] register_lower [of s d] by (cases "top_prio s < snd d") auto
qed simp

lemma chosen_best: "chosen (fold register ds start) = best ds None"
  using fold_best [of start ds] start_none by simp

end

interpretation clock_registry: prio_registry clocksource_register current_source max_prio clocks_start
  by unfold_locales (auto simp: clocksource_register_def clocks_start_def Let_def)

interpretation timer_registry: prio_registry timer_device_register current_timer timer_max_prio timers_start
  by unfold_locales (auto simp: timer_device_register_def timers_start_def Let_def)

section \<open>Waiting\<close>

lemma wait_loop_first:
  "\<lbrakk>\<not> uptime (i + k) < target; \<forall>j<k. uptime (i + j) < target\<rbrakk> \<Longrightarrow> wait_loop uptime target i = Some (i + k)"
proof (induction k arbitrary: i)
  case 0 then show ?case by (subst wait_loop.simps) simp
next
  case (Suc k)
  have "uptime i < target" using Suc.prems(2) by (metis add.right_neutral zero_less_Suc)
  moreover have "wait_loop uptime target (Suc i) = Some (Suc i + k)"
    by (rule Suc.IH) (use Suc.prems in \<open>force+\<close>)
  ultimately show ?case by (subst wait_loop.simps) simp
qed

lemma wait_loop_Some:
  assumes "wait_loop uptime target i = Some r"
  shows "i \<le> r \<and> \<not> uptime r < target \<and> (\<forall>j. i \<le> j \<and> j < r \<longrightarrow> uptime j < target)"
proof -
  have "(\<lambda>uptime target i r. i \<le> r \<and> \<not> uptime r < target \<and> (\<forall>j. i \<le> j \<and> j < r \<longrightarrow> uptime j < target)) uptime target i r"
  proof (rule wait_loop.raw_induct [OF _ assms], goal_cases)
    case (1 w uptime target i r)
    have split: "j = i \<or> Suc i \<le> j" if "i \<le> j" for j using that by auto
    show ?case
    proof (cases "uptime i < target")
      case True
      then have "Suc i \<le> r \<and> \<not> uptime r < target \<and> (\<forall>j. Suc i \<le> j \<and> j < r \<longrightarrow> uptime j < target)" using 1 by auto
      then show ?thesis using True split by (metis Suc_leD)
    next
      case False
      then show ?thesis using 1(2) by auto
    qed
  qed
  then show ?thesis .
qed

section \<open>Properties\<close>

text \<open>The clock source in use after any registrations, and the timer device in use, is the registered one of
  the highest priority (none if all priorities are zero).\<close>

lemma registered_highest_priority:
  "(case current_source (fold clocksource_register ds clocks_start) of
      None \<Rightarrow> \<forall>d\<in>set ds. snd d = 0
    | Some c \<Rightarrow> c \<in> set ds \<and> (\<forall>d\<in>set ds. snd d \<le> snd c)) \<and>
   (case current_timer (fold timer_device_register ds timers_start) of
      None \<Rightarrow> \<forall>d\<in>set ds. snd d = 0
    | Some c \<Rightarrow> c \<in> set ds \<and> (\<forall>d\<in>set ds. snd d \<le> snd c))"
  unfolding clock_registry.chosen_best timer_registry.chosen_best
  using best_spec [where ds = ds and b = None] by (cases "best ds None") auto

text \<open>Waiting for a time ends at the first reading, after the one that started it, that is not below the target;
  if no reading reaches the target, as when no clock source is registered, it never ends.\<close>

lemma clock_wait_first_reading:
  assumes "nanos \<noteq> 0"
  shows "clock_wait rd c nanos i = Some r \<longleftrightarrow>
    i < r \<and> \<not> clock_uptime rd c r < clock_uptime rd c i + nanos \<and>
    (\<forall>j. i < j \<and> j < r \<longrightarrow> clock_uptime rd c j < clock_uptime rd c i + nanos)" (is "?l \<longleftrightarrow> ?r")
proof
  assume ?l
  then show ?r using wait_loop_Some [of "clock_uptime rd c" "clock_uptime rd c i + nanos" "Suc i" r] assms
    by (simp add: clock_wait_def Suc_le_eq)
next
  assume r: ?r
  then obtain k where k: "r = Suc i + k" by (metis Suc_leI less_eqE)
  have "wait_loop (clock_uptime rd c) (clock_uptime rd c i + nanos) (Suc i) = Some (Suc i + k)"
    by (rule wait_loop_first) (use r k in auto)
  then show ?l using assms k by (simp add: clock_wait_def)
qed

end

