(* ===== verification/Vsprintf.thy ===== *)
theory Vsprintf
  imports Kernel_Prelude "HOL-Library.Signed_Division"
begin

text \<open>
  Formatted output (\<^verbatim>\<open>libk/vsprintf.c\<close>).  The output buffer is the string that is written, without the
  terminating zero; the format and string arguments are the characters before their terminating zero.
  \<^term>\<open>None\<close> is a write outside the local buffer, an argument of the wrong type, or a read behind the
  end of the format.
\<close>

section \<open>Numbers\<close>

definition digits :: string where "digits = ''0123456789abcdef''"

definition FLAG_SIGNED :: u32 where "FLAG_SIGNED = 1"
definition FLAG_ZERO :: u32 where "FLAG_ZERO = 2"

definition is_digit :: "char \<Rightarrow> bool" where
  "is_digit c \<longleftrightarrow> 48 \<le> (of_char c :: nat) \<and> (of_char c :: nat) \<le> 57"

lemma sdiv_smaller:
  assumes "n sdiv base \<noteq> 0" "\<not> base < (2 :: int)" shows "nat \<bar>n sdiv base\<bar> < nat \<bar>n\<bar>"
proof -
  have n: "n \<noteq> 0" using assms(1) by (auto simp: signed_divide_int_def)
  have "\<bar>n sdiv base\<bar> = \<bar>n\<bar> div base"
    using assms(2) n by (simp add: signed_divide_int_def abs_mult abs_sgn_eq pos_imp_zdiv_nonneg_iff)
  moreover have "\<bar>n\<bar> div base < \<bar>n\<bar>" using assms(2) n by (intro int_div_less_self) auto
  ultimately show ?thesis using n by simp
qed

text \<open>The digits of a number that is not positive, last digit first, as the loop stores them.  The
  caller has checked that the base is at least 2.\<close>

function digit_loop :: "int \<Rightarrow> int \<Rightarrow> string" where
  "digit_loop negative_num base =
     digits ! nat (- (negative_num smod base)) #
     (let negative_num' = negative_num sdiv base
      in if negative_num' = 0 \<or> base < 2 then [] else digit_loop negative_num' base)"
  by pat_completeness auto
termination
  by (relation "measure (\<lambda>(n, _). nat \<bar>n\<bar>)") (auto dest: sdiv_smaller simp del: nat_less_eq_zless zless_nat_eq_int_zless)

declare digit_loop.simps [simp del]

definition num_to_str :: "int \<Rightarrow> int \<Rightarrow> u32 \<Rightarrow> int \<Rightarrow> string option" where
  "num_to_str num base flags padding =
     (if base < 2 \<or> 16 < base then Some []
      else
        let tmp_str = digit_loop (if num < 0 then num else - num) base @ (if num < 0 \<and> flags AND FLAG_SIGNED \<noteq> 0 then ''-'' else [])
        in if 64 < length tmp_str then None
           else Some (replicate (nat (padding - int (length tmp_str))) (if flags AND FLAG_ZERO \<noteq> 0 then CHR ''0'' else CHR '' '') @ rev tmp_str))"

fun ptr_digits :: "nat \<Rightarrow> string" where
  "ptr_digits p = digits ! (p mod 16) # (if p div 16 = 0 then [] else ptr_digits (p div 16))"

declare ptr_digits.simps [simp del]

definition ptr_to_str :: "u64 \<Rightarrow> u32 \<Rightarrow> int \<Rightarrow> string option" where
  "ptr_to_str ptr flags padding =
     (let tmp_str = ptr_digits (unat ptr)
      in if 32 < length tmp_str then None
         else Some (''0x'' @ replicate (nat (padding - int (length tmp_str))) (if flags AND FLAG_ZERO \<noteq> 0 then CHR ''0'' else CHR '' '') @ rev tmp_str))"

section \<open>Formats\<close>

datatype vararg = VInt u32 | VLong u64 | VStr string

fun parse_width :: "int \<Rightarrow> string \<Rightarrow> int \<times> string" where
  "parse_width width [] = (width, [])"
| "parse_width width (c # cs) =
     (if is_digit c then parse_width (width * 10 + (of_char c - 48)) cs else (width, c # cs))"

lemma parse_width_length: "length (snd (parse_width w cs)) \<le> length cs"
  by (induction w cs rule: parse_width.induct) auto

definition parse_zero :: "string \<Rightarrow> u32 \<times> string" where
  "parse_zero cs = (case cs of [] \<Rightarrow> (0, []) | c # r \<Rightarrow> if c = CHR ''0'' then (FLAG_ZERO, r) else (0, cs))"

definition parse_length :: "string \<Rightarrow> char option \<times> string" where
  "parse_length cs = (case cs of [] \<Rightarrow> (None, []) | c # r \<Rightarrow> if c = CHR ''l'' \<or> c = CHR ''z'' then (Some c, r) else (None, cs))"

text \<open>The flags, the width, the length modifier and the rest of a conversion.\<close>

definition parse_spec :: "string \<Rightarrow> u32 \<times> int \<times> char option \<times> string" where
  "parse_spec cs =
     (let (flags, cs) = parse_zero cs; (width, cs) = parse_width 0 cs; (len, cs) = parse_length cs
      in (flags, width, len, cs))"

lemma parse_spec_length: "parse_spec cs = (f, w, l, r) \<Longrightarrow> length r \<le> length cs"
proof -
  assume p: "parse_spec cs = (f, w, l, r)"
  have z: "length (snd (parse_zero cs)) \<le> length cs" by (simp add: parse_zero_def split: list.split)
  have "length (snd (parse_length xs)) \<le> length xs" for xs by (simp add: parse_length_def split: list.split)
  then have "length r \<le> length (snd (parse_width 0 (snd (parse_zero cs))))" using p
    by (auto simp: parse_spec_def split: prod.splits) (metis snd_conv)
  then show ?thesis using parse_width_length [of 0 "snd (parse_zero cs)"] z by linarith
qed

definition signed_arg :: "char option \<Rightarrow> vararg \<Rightarrow> int option" where
  "signed_arg len a =
     (case (len, a) of (None, VInt w) \<Rightarrow> Some (sint w) | (Some _, VLong w) \<Rightarrow> Some (sint w) | _ \<Rightarrow> None)"

text \<open>One conversion: the text and the arguments left.\<close>

definition convert :: "u32 \<Rightarrow> int \<Rightarrow> char option \<Rightarrow> char \<Rightarrow> vararg list \<Rightarrow> (string \<times> vararg list) option" where
  "convert flags width len c args =
     (if c \<in> {CHR ''d'', CHR ''i'', CHR ''x'', CHR ''o'', CHR ''u''} then
        case args of [] \<Rightarrow> None
        | a # rest \<Rightarrow> do {
            n \<leftarrow> signed_arg len a;
            s \<leftarrow> num_to_str n (if c = CHR ''x'' then 16 else if c = CHR ''o'' then 8 else 10)
                   (if c = CHR ''d'' \<or> c = CHR ''i'' then flags OR FLAG_SIGNED else flags) width;
            Some (s, rest)
          }
      else if c = CHR ''%'' then Some (''%'', args)
      else if c = CHR ''c'' then (case args of VInt w # rest \<Rightarrow> Some ([char_of (unat (w AND 0xFF))], rest) | _ \<Rightarrow> None)
      else if c = CHR ''s'' then (case args of VStr s # rest \<Rightarrow> Some (s, rest) | _ \<Rightarrow> None)
      else if c = CHR ''p'' then
        (case args of VLong w # rest \<Rightarrow> do { s \<leftarrow> ptr_to_str w flags width; Some (s, rest) } | _ \<Rightarrow> None)
      else Some ([], args))"

function format :: "string \<Rightarrow> vararg list \<Rightarrow> string option" where
  "format [] args = Some []"
| "format (c # cs) args =
     (if c \<noteq> CHR ''%'' then map_option (Cons c) (format cs args)
      else case parse_spec cs of (flags, width, len, r) \<Rightarrow>
        (case r of [] \<Rightarrow> None
         | spec # rest \<Rightarrow> do {
             (out, args) \<leftarrow> convert flags width len spec args;
             more \<leftarrow> format rest args;
             Some (out @ more)
           }))"
  by pat_completeness auto
termination
  by (relation "measure (\<lambda>(cs, _). length cs)") (auto dest!: parse_spec_length [OF sym])

text \<open>The text and the returned count, which includes the terminating zero.\<close>

definition vsprintf :: "string \<Rightarrow> vararg list \<Rightarrow> (string \<times> int) option" where
  "vsprintf fmt args = map_option (\<lambda>s. (s, int (length s) + 1)) (format fmt args)"

definition sprintf :: "string \<Rightarrow> vararg list \<Rightarrow> (string \<times> int) option" where
  "sprintf fmt args = vsprintf fmt args"

section \<open>Digits and values\<close>

definition digit_value :: "char \<Rightarrow> int" where
  "digit_value c = (if is_digit c then of_char c - 48 else of_char c - 87)"

definition value_of :: "int \<Rightarrow> string \<Rightarrow> int" where
  "value_of base s = foldl (\<lambda>a c. a * base + digit_value c) 0 s"

lemma digit_value_digit: "n < 16 \<Longrightarrow> digit_value (digits ! n) = int n"
proof -
  assume "n < 16"
  then have "n \<in> {0, 1, 2, 3, 4, 5, 6, 7, 8, 9, 10, 11, 12, 13, 14, 15}" by (simp add: numeral_eq_Suc less_Suc_eq)
  then show ?thesis by (auto simp: digits_def digit_value_def is_digit_def)
qed

lemma value_of_snoc: "value_of base (s @ [c]) = value_of base s * base + digit_value c"
  by (simp add: value_of_def)

text \<open>For a natural number the loop stores its digits: the C remainder and quotient of the negated
  number are those of the number.\<close>

lemma digit_loop_nat:
  assumes "2 \<le> base" "0 \<le> n"
  shows "digit_loop (- n) base = digits ! nat (n mod base) # (if n div base = 0 then [] else digit_loop (- (n div base)) base)"
proof -
  have "- ((- n) smod base) = n mod base" "(- n) sdiv base = - (n div base)"
    using assms by (auto simp: signed_modulo_int_def signed_divide_int_def sgn_if minus_div_mult_eq_mod algebra_simps)
  then show ?thesis using assms(1) by (subst digit_loop.simps) (simp add: Let_def)
qed

lemma digit_loop_value:
  assumes "2 \<le> base" "base \<le> 16" "0 \<le> n"
  shows "value_of base (rev (digit_loop (- n) base)) = n \<and>
    (0 < n \<longrightarrow> base ^ (length (digit_loop (- n) base) - 1) \<le> n \<and> last (digit_loop (- n) base) \<noteq> CHR ''0'') \<and>
    (n = 0 \<longrightarrow> digit_loop (- n) base = ''0'')"
  using assms(3)
proof (induction "nat n" arbitrary: n rule: less_induct)
  case less
  let ?q = "n div base" and ?r = "n mod base"
  have r: "0 \<le> ?r" "?r < base" using assms(1) by simp_all
  then have d: "digit_value (digits ! nat ?r) = ?r" using digit_value_digit [of "nat ?r"] assms(2) by simp
  note unfold = digit_loop_nat [OF assms(1) less.prems]
  show ?case
  proof (cases "?q = 0")
    case True
    then have "n = ?r" using mult_div_mod_eq [of base n] by simp
    moreover have "digits ! nat ?r \<noteq> CHR ''0''" if "0 < n" using d that calculation by (auto simp: digit_value_def is_digit_def)
    ultimately show ?thesis using unfold True d by (auto simp: value_of_def digits_def)
  next
    case False
    have "n \<noteq> 0" using False by auto
    then have q: "0 \<le> ?q" "0 < n" using less.prems assms(1) by (auto simp: pos_imp_zdiv_nonneg_iff)
    then have "nat ?q < nat n" using assms(1) int_div_less_self [of n base] by simp
    from less.hyps [OF this q(1)] False q have IH: "value_of base (rev (digit_loop (- ?q) base)) = ?q"
      "base ^ (length (digit_loop (- ?q) base) - 1) \<le> ?q" "last (digit_loop (- ?q) base) \<noteq> CHR ''0''" by auto
    let ?l = "length (digit_loop (- ?q) base)"
    have l: "digit_loop (- ?q) base \<noteq> []" by (subst digit_loop.simps) simp
    then have "base ^ ?l = base * base ^ (?l - 1)" by (cases ?l) auto
    also have "\<dots> \<le> base * ?q" using IH(2) assms(1) by (intro mult_left_mono) auto
    also have "\<dots> \<le> n" using mult_div_mod_eq [of base n] r by linarith
    finally have "base ^ ?l \<le> n" .
    moreover have "value_of base (rev (digit_loop (- n) base)) = n"
      using unfold False IH(1) d mult_div_mod_eq [of base n] by (simp add: value_of_snoc mult.commute)
    ultimately show ?thesis using unfold False IH(3) l q(2) by simp
  qed
qed

lemma digit_loop_length:
  assumes "4 \<le> base" "base \<le> 16" "0 \<le> n" "n \<le> 2 ^ 63"
  shows "length (digit_loop (- n) base) \<le> 32"
proof (cases "n = 0")
  case True
  then show ?thesis using digit_loop_value [of base 0] assms by simp
next
  case False
  let ?k = "length (digit_loop (- n) base) - 1"
  have "(4 :: int) ^ ?k \<le> base ^ ?k" using assms(1) by (intro power_mono) auto
  also have "\<dots> \<le> n" using digit_loop_value [of base n] assms False by simp
  finally have "(2 :: int) ^ (2 * ?k) \<le> 2 ^ 63" using assms(4) by (simp add: power_mult)
  then have "2 * ?k \<le> 63" by (rule power_le_imp_le_exp [rotated]) simp
  then show ?thesis by linarith
qed

lemma num_to_str_eq:
  assumes "4 \<le> base" "base \<le> 16" "\<bar>num\<bar> \<le> 2 ^ 63"
  shows "num_to_str num base flags 0 =
    Some ((if num < 0 \<and> flags AND FLAG_SIGNED \<noteq> 0 then ''-'' else []) @ rev (digit_loop (- \<bar>num\<bar>) base))"
proof -
  have "(if num < 0 then num else - num) = - \<bar>num\<bar>" by simp
  then show ?thesis
    using assms(1,2) digit_loop_length [OF assms(1,2) abs_ge_zero assms(3)] unfolding num_to_str_def Let_def by (cases "num < 0") simp_all
qed

section \<open>Properties\<close>



text \<open>C24: An unsigned 32-bit argument of an unsigned decimal conversion is read as a signed number and its sign is dropped: values
  below 2^31 are printed as they are, and every other value w is printed as 2^32 - w.\<close>

theorem vsprintf_unsigned:
  "\<exists>ds. vsprintf ''%u'' [VInt w] = Some (ds, int (length ds) + 1) \<and>
    value_of 10 ds = (if uint w < 2 ^ 31 then uint w else 2 ^ 32 - uint w)"
proof -
  have u: "0 \<le> uint w" "uint w < 2 ^ 32" using unsigned_less [of w] by simp_all
  have "\<bar>sint w\<bar> = (if uint w < 2 ^ 31 then uint w else 2 ^ 32 - uint w)"
    using u by (cases "uint w < 2 ^ 31")
      (simp_all add: sint_uint signed_take_bit_eq_take_bit_shift take_bit_eq_mod mod_pos_geq)
  moreover have b: "\<bar>sint w\<bar> \<le> 2 ^ 63" using u calculation by (simp split: if_splits)
  moreover have "0 AND FLAG_SIGNED = 0" by simp
  ultimately show ?thesis
    using num_to_str_eq [of 10 "sint w" 0] digit_loop_value [of 10 "\<bar>sint w\<bar>"]
    by (simp add: vsprintf_def parse_spec_def parse_zero_def parse_length_def convert_def signed_arg_def is_digit_def)
qed

end
