(* ===== verification/Libk_String.thy ===== *)
theory Libk_String
  imports Kernel_Prelude
begin

text \<open>
  The memory and string routines (\<^verbatim>\<open>libk/string.c\<close>) on a byte-addressed memory with 64-bit addresses.
  The loops over a byte count run byte by byte in the order of the code, so that overlapping areas
  behave as they do there.
\<close>

section \<open>Operations\<close>

type_synonym bytes = "u64 \<Rightarrow> u8"

text \<open>\<^term>\<open>None\<close> is a scan that never finds a terminating zero.\<close>

partial_function (option) strlen :: "bytes \<Rightarrow> u64 \<Rightarrow> u64 option" where
  "strlen m s = (if m s = 0 then Some 0 else do { n \<leftarrow> strlen m (s + 1); Some (n + 1) })"

definition copy_bytes :: "nat \<Rightarrow> u64 \<Rightarrow> u64 \<Rightarrow> bytes \<Rightarrow> bytes" where
  "copy_bytes n dest src m = fold (\<lambda>i m. m(dest + of_nat i := m (src + of_nat i))) [0..<n] m"

definition fill_bytes :: "nat \<Rightarrow> nat \<Rightarrow> u64 \<Rightarrow> u8 \<Rightarrow> bytes \<Rightarrow> bytes" where
  "fill_bytes i n dest v m = fold (\<lambda>i m. m(dest + of_nat i := v)) [i..<n] m"

text \<open>The number of bytes the first loop of \<^verbatim>\<open>strncpy\<close> copies, while it copies them.\<close>

fun strncpy_loop :: "nat \<Rightarrow> nat \<Rightarrow> u64 \<Rightarrow> u64 \<Rightarrow> bytes \<Rightarrow> nat \<times> bytes" where
  "strncpy_loop 0 i dst src m = (i, m)"
| "strncpy_loop (Suc k) i dst src m =
     (if m (src + of_nat i) \<noteq> 0 then strncpy_loop k (Suc i) dst src (m(dst + of_nat i := m (src + of_nat i))) else (i, m))"

definition strncpy :: "u64 \<Rightarrow> u64 \<Rightarrow> nat \<Rightarrow> bytes \<Rightarrow> bytes" where
  "strncpy dst src n m = (let (i, m) = strncpy_loop n 0 dst src m in fill_bytes i n dst 0 m)"

fun strncmp :: "bytes \<Rightarrow> u64 \<Rightarrow> u64 \<Rightarrow> nat \<Rightarrow> int" where
  "strncmp m src dst 0 = 0"
| "strncmp m src dst (Suc len) =
     (if m src \<noteq> 0 \<and> m src = m dst then strncmp m (src + 1) (dst + 1) len
      else uint (m src) - uint (m dst))"

definition memcpy :: "u64 \<Rightarrow> u64 \<Rightarrow> nat \<Rightarrow> bytes \<Rightarrow> bytes" where
  "memcpy dest src n m = copy_bytes n dest src m"

definition memset :: "u64 \<Rightarrow> u8 \<Rightarrow> nat \<Rightarrow> bytes \<Rightarrow> bytes" where
  "memset dest data n m = fill_bytes 0 n dest data m"

definition memmove :: "u64 \<Rightarrow> u64 \<Rightarrow> nat \<Rightarrow> bytes \<Rightarrow> bytes" where
  "memmove dest src n m =
     (if dest < src then copy_bytes n dest src m
      else if src < dest then copy_bytes n (dest - 1) (src - 1) m
      else m)"

fun memcmp_from :: "bytes \<Rightarrow> nat \<Rightarrow> nat \<Rightarrow> u64 \<Rightarrow> u64 \<Rightarrow> int" where
  "memcmp_from m 0 i s1 s2 = 0"
| "memcmp_from m (Suc k) i s1 s2 =
     (let a = m (s1 + of_nat i); b = m (s2 + of_nat i)
      in if a \<noteq> b then if a < b then -1 else 1 else memcmp_from m k (Suc i) s1 s2)"

definition memcmp :: "bytes \<Rightarrow> u64 \<Rightarrow> u64 \<Rightarrow> nat \<Rightarrow> int" where
  "memcmp m s1 s2 n = memcmp_from m n 0 s1 s2"

section \<open>Copying\<close>

lemma offset_iff:
  assumes "i < 2 ^ 64" shows "x = d + of_nat i \<longleftrightarrow> unat (x - d :: u64) = i"
proof
  assume "x = d + of_nat i"
  then show "unat (x - d) = i" using assms by (simp add: unat_of_nat_small)
next
  assume "unat (x - d) = i"
  then have "of_nat i = x - d" by auto
  then show "x = d + of_nat i" by simp
qed

text \<open>A forward copy whose writes never hit a byte that is still to be read.\<close>

lemma copy_bytes_forward:
  assumes "n \<le> 2 ^ 64" "\<And>i j. i < j \<Longrightarrow> j < n \<Longrightarrow> d + of_nat i \<noteq> s + of_nat j"
  shows "copy_bytes n d s m x = (if unat (x - d) < n then m (s + (x - d)) else m x)"
  using assms
proof (induction n arbitrary: x)
  case 0
  then show ?case by (simp add: copy_bytes_def)
next
  case (Suc n)
  have n: "n < 2 ^ 64" using Suc.prems(1) by simp
  have IH: "copy_bytes n d s m y = (if unat (y - d) < n then m (s + (y - d)) else m y)" for y
    by (rule Suc.IH) (use Suc.prems in auto)
  have "\<not> unat (s + of_nat n - d) < n"
  proof
    assume lt: "unat (s + of_nat n - d) < n"
    then have "s + of_nat n = d + of_nat (unat (s + of_nat n - d))" using n by (subst offset_iff) auto
    then show False using Suc.prems(2) [OF lt] by simp
  qed
  then have "copy_bytes n d s m (s + of_nat n) = m (s + of_nat n)" using IH by simp
  moreover have "copy_bytes (Suc n) d s m x = ((copy_bytes n d s m)(d + of_nat n := copy_bytes n d s m (s + of_nat n))) x"
    by (simp add: copy_bytes_def)
  moreover have "x = d + of_nat n \<longleftrightarrow> unat (x - d) = n" by (rule offset_iff [OF n])
  ultimately show ?case using IH [of x] by (auto simp: less_Suc_eq)
qed

lemma fill_bytes_range:
  assumes "n \<le> 2 ^ 64"
  shows "fill_bytes i n d v m x = (if i \<le> unat (x - d) \<and> unat (x - d) < n then v else m x)"
  using assms
proof (induction n arbitrary: x)
  case 0
  then show ?case by (simp add: fill_bytes_def)
next
  case (Suc n)
  have n: "n < 2 ^ 64" using Suc.prems by simp
  then have IH: "fill_bytes i n d v m x = (if i \<le> unat (x - d) \<and> unat (x - d) < n then v else m x)" by (intro Suc.IH) simp
  have "fill_bytes i (Suc n) d v m x = (if i \<le> n then ((fill_bytes i n d v m)(d + of_nat n := v)) x else m x)"
    by (simp add: fill_bytes_def)
  then show ?case using IH offset_iff [OF n, of x d] by (auto simp: less_Suc_eq)
qed

section \<open>Properties\<close>

text \<open>C25: memcpy copies an area onto one that does not overlap it, memset fills exactly its area, and memmove
  copies to a lower address even when the areas overlap; nothing outside the target changes.\<close>

theorem memcpy_memset_memmove:
  assumes "unat dest + n \<le> 2 ^ 64" "unat src + n \<le> 2 ^ 64"
  shows "(unat dest + n \<le> unat src \<or> unat src + n \<le> unat dest \<longrightarrow>
      memcpy dest src n m x = (if unat (x - dest) < n then m (src + (x - dest)) else m x)) \<and>
    memset dest v n m x = (if unat (x - dest) < n then v else m x) \<and>
    (dest < src \<longrightarrow> memmove dest src n m x = (if unat (x - dest) < n then m (src + (x - dest)) else m x))"
proof -
  have n: "n \<le> 2 ^ 64" using assms(1) by simp
  have at: "unat (p + of_nat i) = unat p + i" if "i < n" "unat p + n \<le> 2 ^ 64" for p :: u64 and i
    using that by (subst unat_add_of_nat) (simp add: mod_less)
  have ne: "dest + of_nat i \<noteq> src + of_nat j" if "unat dest + i \<noteq> unat src + j" "i < n" "j < n" for i j
    using that(1) at [OF that(2) assms(1)] at [OF that(3) assms(2)] by auto
  have "memcpy dest src n m x = (if unat (x - dest) < n then m (src + (x - dest)) else m x)"
    if "unat dest + n \<le> unat src \<or> unat src + n \<le> unat dest"
    unfolding memcpy_def by (rule copy_bytes_forward [OF n ne]) (use that in auto)
  moreover have "memmove dest src n m x = (if unat (x - dest) < n then m (src + (x - dest)) else m x)" if "dest < src"
    using that unfolding memmove_def if_P [OF that]
    by (intro copy_bytes_forward [OF n ne]) (auto simp: word_less_nat_alt)
  moreover have "memset dest v n m x = (if unat (x - dest) < n then v else m x)"
    unfolding memset_def by (simp add: fill_bytes_range [OF n])
  ultimately show ?thesis by blast
qed


section \<open>Strings\<close>

text \<open>A string of non-zero bytes with its terminating zero at an address.\<close>

definition cstring :: "bytes \<Rightarrow> u64 \<Rightarrow> u8 list \<Rightarrow> bool" where
  "cstring m p s \<longleftrightarrow> (\<forall>i<length s. m (p + of_nat i) = s ! i) \<and> 0 \<notin> set s \<and> m (p + of_nat (length s)) = 0"

lemma cstring_Cons: "cstring m p (c # s) \<longleftrightarrow> m p = c \<and> c \<noteq> 0 \<and> cstring m (p + 1) s"
proof -
  have e: "p + of_nat (Suc i) = p + 1 + of_nat i" for i by (simp add: algebra_simps)
  have "(\<forall>i<length (c # s). m (p + of_nat i) = (c # s) ! i) \<longleftrightarrow> m p = c \<and> (\<forall>i<length s. m (p + of_nat (Suc i)) = s ! i)"
    by (auto simp: less_Suc_eq_0_disj simp del: of_nat_Suc)
  moreover have "p + of_nat (length (c # s)) = p + 1 + of_nat (length s)" by (simp add: algebra_simps)
  ultimately show ?thesis unfolding cstring_def e by (auto simp only: list.set insert_iff)
qed

lemma strlen_cstring: "cstring m p s \<Longrightarrow> strlen m p = Some (of_nat (length s))"
proof (induction s arbitrary: p)
  case Nil
  then show ?case by (subst strlen.simps) (simp add: cstring_def)
next
  case (Cons c s)
  then have "m p \<noteq> 0" "strlen m (p + 1) = Some (of_nat (length s))" by (auto simp: cstring_Cons)
  then show ?case by (subst strlen.simps) (simp add: add.commute)
qed

lemma strncpy_loop_spec:
  assumes "cstring m src s" "i + k \<le> 2 ^ 64" "i \<le> length s" "length s < i + k"
    and "\<And>a b. a < i + k \<Longrightarrow> b \<le> length s \<Longrightarrow> dst + of_nat a \<noteq> src + of_nat b"
    and "\<And>x. m' x = (if unat (x - dst) < i then m (src + (x - dst)) else m x)"
  shows "fst (strncpy_loop k i dst src m') = length s \<and>
    (\<forall>x. snd (strncpy_loop k i dst src m') x = (if unat (x - dst) < length s then m (src + (x - dst)) else m x))"
  using assms(2-)
proof (induction k arbitrary: i m')
  case 0
  then show ?case by simp
next
  case (Suc k)
  have i64: "i < 2 ^ 64" using Suc.prems(1) by simp
  have rd: "m' (src + of_nat i) = m (src + of_nat i)"
  proof -
    have "\<not> unat (src + of_nat i - dst) < i"
    proof
      assume lt: "unat (src + of_nat i - dst) < i"
      then have "src + of_nat i = dst + of_nat (unat (src + of_nat i - dst))" using i64 by (subst offset_iff) auto
      then show False using Suc.prems(4) [of "unat (src + of_nat i - dst)" i] lt Suc.prems(2) by simp
    qed
    then show ?thesis using Suc.prems(5) by simp
  qed
  show ?case
  proof (cases "i = length s")
    case True
    then have "m (src + of_nat i) = 0" using assms(1) by (simp add: cstring_def)
    then show ?thesis using rd True Suc.prems(5) by simp
  next
    case False
    then have lt: "i < length s" using Suc.prems(2) by simp
    then have "s ! i \<in> set s" by simp
    then have nz: "m (src + of_nat i) \<noteq> 0" using assms(1) lt unfolding cstring_def by metis
    let ?m = "m'(dst + of_nat i := m' (src + of_nat i))"
    have upd: "?m x = (if unat (x - dst) < Suc i then m (src + (x - dst)) else m x)" for x
      using rd Suc.prems(5) [of x] offset_iff [OF i64, of x dst] by (auto simp: less_Suc_eq)
    have "fst (strncpy_loop k (Suc i) dst src ?m) = length s \<and>
      (\<forall>x. snd (strncpy_loop k (Suc i) dst src ?m) x = (if unat (x - dst) < length s then m (src + (x - dst)) else m x))"
      by (rule Suc.IH) (use Suc.prems lt upd in auto)
    then show ?thesis using rd nz by simp
  qed
qed

text \<open>Copying a string that is shorter than the limit with strncpy, to an area that does not overlap it, gives
  the same terminated string there, zero up to the limit, and changes nothing else; its length is then
  the length strlen finds.\<close>

lemma strncpy_strlen:
  assumes "cstring m src s" "length s < n" "unat dst + n \<le> 2 ^ 64" "unat src + length s < 2 ^ 64"
    and "unat dst + n \<le> unat src \<or> unat src + length s < unat dst"
  shows "strncpy dst src n m x = (if unat (x - dst) < length s then m (src + (x - dst)) else if unat (x - dst) < n then 0 else m x) \<and>
    cstring (strncpy dst src n m) dst s \<and> strlen (strncpy dst src n m) dst = Some (of_nat (length s))"
proof -
  have n: "n \<le> 2 ^ 64" using assms(3) by simp
  have at: "unat (dst + of_nat a) = unat dst + a" if "a < n" for a
    using that assms(3) by (subst unat_add_of_nat) (simp add: mod_less)
  have bt: "unat (src + of_nat b) = unat src + b" if "b \<le> length s" for b
    using that assms(4) by (subst unat_add_of_nat) (simp add: mod_less)
  have ne: "dst + of_nat a \<noteq> src + of_nat b" if "a < n" "b \<le> length s" for a b
    using at [OF that(1)] bt [OF that(2)] that assms(5) by auto
  have loop: "fst (strncpy_loop n 0 dst src m) = length s \<and>
      (\<forall>x. snd (strncpy_loop n 0 dst src m) x = (if unat (x - dst) < length s then m (src + (x - dst)) else m x))"
    by (rule strncpy_loop_spec [OF assms(1)]) (use n assms(2) ne in auto)
  have res: "strncpy dst src n m x = (if unat (x - dst) < length s then m (src + (x - dst)) else if unat (x - dst) < n then 0 else m x)" for x
    using loop unfolding strncpy_def by (simp add: case_prod_beta fill_bytes_range [OF n])
  have "cstring (strncpy dst src n m) dst s"
    using assms(1,2) n unfolding cstring_def res by (auto simp: unat_of_nat_small)
  then show ?thesis using res strlen_cstring by blast
qed

section \<open>Witnesses\<close>

definition demo_bytes :: bytes where
  "demo_bytes a = (if a = 0x100 then 65 else if a = 0x101 then 66 else if a = 0x1FF then 7 else 0)"

theorem memcpy_memset_memmove_witness: "memcpy 0x200 0x100 2 demo_bytes 0x201 = 66 \<and> memset 0x200 9 2 demo_bytes 0x201 = 9"
  using memcpy_memset_memmove [of "0x200" 2 "0x100" demo_bytes "0x201" 9] by (simp add: demo_bytes_def)


end
