(* ===== verification/Hash_Chain.thy ===== *)
theory Hash_Chain
  imports Kernel_Prelude
begin

text \<open>
  Hash tables whose slots are singly linked chains, as the device tables, the ARP table, the UDP table
  and the directory cache keep them, and the device tables themselves (\<^verbatim>\<open>sys/device.c\<close>).  A table is
  the sequence of entries of every slot; new entries go to the front of their chain.
\<close>

section \<open>The contract\<close>

type_synonym 'v chains = "nat \<Rightarrow> 'v list"

text \<open>\<^term>\<open>slot\<close> is the slot of a key; the laws are what the code of each operation does to the chain.\<close>

locale chained_table =
  fixes slot :: "'k \<Rightarrow> nat" and key :: "'v \<Rightarrow> 'k" and get :: "'k \<Rightarrow> 'v chains \<Rightarrow> 'v option"
    and insert :: "'v \<Rightarrow> 'v chains \<Rightarrow> 'v chains"
  assumes get_find: "get k t = find (\<lambda>v. key v = k) (t (slot k))"
    and insert_front: "insert v t = t(slot (key v) := v # t (slot (key v)))"
begin

definition placed :: "'v chains \<Rightarrow> bool" where
  "placed t \<longleftrightarrow> (\<forall>i. \<forall>v\<in>set (t i). slot (key v) = i)"

lemma placed_insert: "placed t \<Longrightarrow> placed (insert v t)"
  by (auto simp: placed_def insert_front)

lemma get_insert: "get k (insert v t) = (if key v = k then Some v else get k t)"
  by (auto simp: get_find insert_front)

lemma get_Some: "get k t = Some v \<Longrightarrow> key v = k \<and> v \<in> set (t (slot k))"
  unfolding get_find by (auto simp: find_Some_iff)

lemma get_None: "placed t \<Longrightarrow> get k t = None \<longleftrightarrow> (\<forall>i. \<forall>v\<in>set (t i). key v \<noteq> k)"
  unfolding get_find find_None_iff placed_def by auto

text \<open>After any number of insertions a key is found exactly when it was inserted, with the last value.\<close>

lemma get_inserted: "get k (fold insert vs (\<lambda>_. [])) = find (\<lambda>v. key v = k) (rev vs)"
proof (induction vs rule: rev_induct)
  case Nil
  then show ?case by (simp add: get_find)
next
  case (snoc v vs)
  then show ?case by (simp add: get_insert)
qed

end

text \<open>A table whose entries can be taken out again.\<close>

locale removable_table = chained_table slot key get insert
  for slot :: "'k \<Rightarrow> nat" and key :: "'v \<Rightarrow> 'k" and get insert +
  fixes remove :: "'v \<Rightarrow> 'v chains \<Rightarrow> 'v chains"
  assumes remove_unlink: "remove v t = t(slot (key v) := remove1 v (t (slot (key v))))"
begin

lemma placed_remove: "placed t \<Longrightarrow> placed (remove v t)"
  unfolding placed_def remove_unlink by (auto dest: notin_set_remove1 [rotated] set_remove1_subset [THEN subsetD])

lemma remove_insert: "remove v (insert v t) = t"
  by (simp add: remove_unlink insert_front)

lemma get_remove_other: "key v \<noteq> k \<Longrightarrow> get k (remove v t) = get k t"
proof -
  assume ne: "key v \<noteq> k"
  have "find (\<lambda>u. key u = k) (remove1 v xs) = find (\<lambda>u. key u = k) xs" for xs using ne by (induction xs) auto
  then show ?thesis by (simp add: get_find remove_unlink)
qed

end

section \<open>Devices\<close>

definition make_dev :: "u32 \<Rightarrow> u32 \<Rightarrow> u64" where
  "make_dev major minor = push_bit 32 (ucast major) OR ucast minor"

definition dev_major :: "u64 \<Rightarrow> u32" where
  "dev_major dev = ucast (drop_bit 32 dev AND 0xFFFFFFFF)"

definition dev_minor :: "u64 \<Rightarrow> u32" where
  "dev_minor dev = ucast (dev AND 0xFFFFFFFF)"

text \<open>A device is its number, the address of its private data and the tables of operations it uses;
  operation tables are numbered, and number 0 is the empty default table.\<close>

record char_device =
  cdev :: u64
  cdata :: "nat option"
  cfops :: nat

record block_device =
  bdev :: u64
  bdata :: "nat option"
  bfops :: nat
  bd_ops :: nat

definition dev_slot :: "u64 \<Rightarrow> nat" where
  "dev_slot dev = unat (dev_major dev mod 256)"

definition chardev_insert :: "char_device \<Rightarrow> char_device chains \<Rightarrow> char_device chains" where
  "chardev_insert device t = t(dev_slot (cdev device) := device # t (dev_slot (cdev device)))"

definition chardev_new :: "u64 \<Rightarrow> char_device chains \<Rightarrow> char_device chains" where
  "chardev_new dev t = chardev_insert \<lparr>cdev = dev, cdata = None, cfops = 0\<rparr> t"

definition chardev_lookup :: "u64 \<Rightarrow> char_device chains \<Rightarrow> char_device option" where
  "chardev_lookup dev t = find (\<lambda>cur. cdev cur = dev) (t (dev_slot dev))"

definition blockdev_insert :: "block_device \<Rightarrow> block_device chains \<Rightarrow> block_device chains" where
  "blockdev_insert device t = t(dev_slot (bdev device) := device # t (dev_slot (bdev device)))"

definition blockdev_new :: "u64 \<Rightarrow> block_device chains \<Rightarrow> block_device chains" where
  "blockdev_new dev t = blockdev_insert \<lparr>bdev = dev, bdata = None, bfops = 0, bd_ops = 0\<rparr> t"

definition blockdev_lookup :: "u64 \<Rightarrow> block_device chains \<Rightarrow> block_device option" where
  "blockdev_lookup dev t = find (\<lambda>cur. bdev cur = dev) (t (dev_slot dev))"

interpretation char_devices: chained_table dev_slot cdev chardev_lookup chardev_insert
  by unfold_locales (simp_all add: chardev_lookup_def chardev_insert_def)

interpretation block_devices: chained_table dev_slot bdev blockdev_lookup blockdev_insert
  by unfold_locales (simp_all add: blockdev_lookup_def blockdev_insert_def)

lemma bit_make_dev: "bit (make_dev major minor) n \<longleftrightarrow> (if n < 32 then bit minor n else n < 64 \<and> bit major (n - 32))"
  by (auto simp: make_dev_def bit_or_iff bit_push_bit_iff bit_ucast_iff dest: bit_imp_le_length)

text \<open>A device number is the pair of its major and minor numbers, and a device that has been created is found
  under its number: the last one created, whatever other devices share its slot.\<close>

lemma device_lookup:
  "dev_major (make_dev major minor) = major \<and> dev_minor (make_dev major minor) = minor \<and>
   chardev_lookup dev (chardev_new dev' t) = (if dev = dev' then Some \<lparr>cdev = dev', cdata = None, cfops = 0\<rparr> else chardev_lookup dev t) \<and>
   blockdev_lookup dev (blockdev_new dev' bt) =
     (if dev = dev' then Some \<lparr>bdev = dev', bdata = None, bfops = 0, bd_ops = 0\<rparr> else blockdev_lookup dev bt)"
proof -
  have m: "(0xFFFFFFFF :: u64) = mask 32" by (simp add: mask_eq_exp_minus_1)
  have "dev_major (make_dev major minor) = major"
    unfolding dev_major_def m by (rule bit_word_eqI) (simp add: bit_simps bit_make_dev)
  moreover have "dev_minor (make_dev major minor) = minor"
    unfolding dev_minor_def m by (rule bit_word_eqI) (simp add: bit_simps bit_make_dev)
  ultimately show ?thesis
    unfolding chardev_new_def blockdev_new_def char_devices.get_insert block_devices.get_insert by auto
qed

end
