(* ===== verification/Task.thy ===== *)
theory Task
  imports Wait_Queue
begin

text \<open>
  Tasks and signals (\<^verbatim>\<open>include/sched/task.h\<close>, \<^verbatim>\<open>sched/task.c\<close>, \<^verbatim>\<open>sched/signal.c\<close>).  A task is named by its
  address, a number; its status and its kernel stack pointer are in the scheduler's state, and the wait
  queue node inside it has the same number as the task.  Process numbers are unbounded.
\<close>

section \<open>Data\<close>

record cred =
  uid :: u32
  euid :: u32
  suid :: u32
  gid :: u32
  egid :: u32
  sgid :: u32

definition cred_superuser :: u32 where "cred_superuser = 0"

definition TASK_CAN_REAP :: u32 where "TASK_CAN_REAP = 1"

record task =
  tname :: string
  tflags :: u32
  trsp :: u64
  rsp0_top :: u64
  kstack :: "u64 list"
  owned_vm_space :: "nat option"
  current_vm_space :: "nat option"
  has_context :: bool
  tls_base :: u64
  pid :: int
  tgid :: int
  pgid :: int
  sid :: int
  parent :: "nat option"
  children :: "nat list"
  tcred :: cred
  cwd :: "nat option"
  tty :: "nat option"
  open_files :: "int list"
  return_status :: int
  return_signal :: int
  sig_pending :: u32
  sig_blocked :: u32
  argv :: "u64 list"
  envp :: "u64 list"

record ktasks = waits +
  task_of :: "nat \<Rightarrow> task"
  g_task_list :: "nat list"
  next_pid :: int
  init_task :: "nat option"

definition upd_task :: "nat \<Rightarrow> (task \<Rightarrow> task) \<Rightarrow> 'a ktasks_scheme \<Rightarrow> 'a ktasks_scheme" where
  "upd_task t f s = s\<lparr>task_of := (task_of s)(t := f (task_of s t))\<rparr>"

definition set_status :: "nat \<Rightarrow> task_status \<Rightarrow> 'a sched_scheme \<Rightarrow> 'a sched_scheme" where
  "set_status t st s = s\<lparr>status_of := (status_of s)(t := st)\<rparr>"

definition is_session_leader :: "task \<Rightarrow> bool" where
  "is_session_leader t \<longleftrightarrow> sid t = tgid t"

definition kernel_stack_size :: u64 where "kernel_stack_size = 0x2000"
definition user_stack_size :: u64 where "user_stack_size = 0x8000"

section \<open>Creating and finding tasks\<close>

definition root_cred :: cred where
  "root_cred = \<lparr>uid = 0, euid = 0, suid = 0, gid = 0, egid = 0, sgid = 0\<rparr>"

text \<open>\<^term>\<open>t\<close> is the address of the new task; its table of open files keeps what the memory held.\<close>

definition task_new :: "nat \<Rightarrow> string \<Rightarrow> int \<Rightarrow> 'a ktasks_scheme \<Rightarrow> 'a ktasks_scheme option" where
  "task_new t name forcepid s = do {
     let p = (if forcepid \<ge> 0 then forcepid else next_pid s);
     let s = (if forcepid \<ge> 0 then s else s\<lparr>next_pid := next_pid s + 1\<rparr>);
     let s = (if forcepid < 0 \<and> p = 1 then s\<lparr>init_task := Some t\<rparr> else s);
     let s = upd_task t (\<lambda>old. \<lparr>tname = take 32 name, tflags = 0, trsp = 0, rsp0_top = 0, kstack = kstack old,
               owned_vm_space = None, current_vm_space = None, has_context = False, tls_base = 0,
               pid = p, tgid = p, pgid = p, sid = p, parent = None, children = [], tcred = root_cred,
               cwd = None, tty = None, open_files = open_files old, return_status = 0, return_signal = 0,
               sig_pending = 0, sig_blocked = 0, argv = [], envp = []\<rparr>) s;
     let s = (set_status t TASK_RUNNING s)\<lparr>rsp0_of := (rsp0_of s)(t := 0)\<rparr>;
     s \<leftarrow> wait_queue_node_init t t s;
     Some (if p \<noteq> 0 then s\<lparr>g_task_list := g_task_list s @ [t]\<rparr> else s)
   }"

definition kernel_stack_init :: "nat \<Rightarrow> u64 \<Rightarrow> u64 \<Rightarrow> 'a ktasks_scheme \<Rightarrow> 'a ktasks_scheme" where
  "kernel_stack_init t stack_alloc entry s =
     (let stack_ptr = stack_alloc + kernel_stack_size - 7 * 8
      in (upd_task t (\<lambda>x. x\<lparr>rsp0_top := stack_ptr, kstack := [0, 0, 0, 0, 0, 0, entry]\<rparr>) s)
           \<lparr>rsp0_of := (rsp0_of s)(t := stack_ptr)\<rparr>)"

definition fd_table_init :: "nat \<Rightarrow> 'a ktasks_scheme \<Rightarrow> 'a ktasks_scheme" where
  "fd_table_init t s = upd_task t (\<lambda>x. x\<lparr>open_files := replicate 32 (-1)\<rparr>) s"

text \<open>\<^term>\<open>kspace\<close> is the kernel's address space and \<^term>\<open>stack_alloc\<close> the stack memory.\<close>

definition thread_kernel_new :: "nat \<Rightarrow> string \<Rightarrow> u64 \<Rightarrow> nat \<Rightarrow> u64 \<Rightarrow> 'a ktasks_scheme \<Rightarrow> 'a ktasks_scheme option" where
  "thread_kernel_new t name entry kspace stack_alloc s = do {
     s \<leftarrow> task_new t name 0 s;
     Some (fd_table_init t (kernel_stack_init t stack_alloc entry (upd_task t (\<lambda>x. x\<lparr>current_vm_space := Some kspace\<rparr>) s)))
   }"

definition lookup_by_pid :: "int \<Rightarrow> 'a ktasks_scheme \<Rightarrow> nat option" where
  "lookup_by_pid p s = find (\<lambda>t. pid (task_of s t) = p) (g_task_list s)"

definition get_pgrp_leader :: "int \<Rightarrow> 'a ktasks_scheme \<Rightarrow> nat option" where
  "get_pgrp_leader pgrp s = find (\<lambda>t. pid (task_of s t) = pgrp) (g_task_list s)"

section \<open>Signals\<close>

definition NSIG :: u32 where "NSIG = 32"
definition SIGCHLD :: u32 where "SIGCHLD = 17"

definition signal_pending :: "nat \<Rightarrow> 'a ktasks_scheme \<Rightarrow> bool" where
  "signal_pending t s \<longleftrightarrow> 0 < sig_pending (task_of s t) AND NOT (sig_blocked (task_of s t))"

definition send_signal :: "nat \<Rightarrow> nat \<Rightarrow> u32 \<Rightarrow> 'a ktasks_scheme \<Rightarrow> 'a ktasks_scheme option" where
  "send_signal cpu t signal s =
     (let s = upd_task t (\<lambda>x. x\<lparr>sig_pending := sig_pending x OR push_bit (unat (signal - 1)) 1\<rparr>) s;
          (woken, _, s) = cas_status t TASK_INTR_SLEEPING TASK_RUNNING s
      in if woken then sched_add_ready cpu t s else Some s)"

definition pid_send_signal :: "nat \<Rightarrow> int \<Rightarrow> u32 \<Rightarrow> 'a ktasks_scheme \<Rightarrow> (unit result \<times> 'a ktasks_scheme) option" where
  "pid_send_signal cpu p signal s =
     (if signal < 1 \<or> NSIG \<le> signal then Some (Inl EINVAL, s)
      else case find (\<lambda>t. pid (task_of s t) = p) (g_task_list s) of
        None \<Rightarrow> Some (Inl ESRCH, s)
      | Some t \<Rightarrow> do { s \<leftarrow> send_signal cpu t signal s; Some (Inr (), s) })"

fun signal_group :: "nat \<Rightarrow> int \<Rightarrow> u32 \<Rightarrow> nat list \<Rightarrow> unit result \<Rightarrow> 'a ktasks_scheme \<Rightarrow> (unit result \<times> 'a ktasks_scheme) option" where
  "signal_group cpu pgrp signal [] res s = Some (res, s)"
| "signal_group cpu pgrp signal (t # ts) res s =
     (if pgid (task_of s t) = pgrp then do {
        s \<leftarrow> send_signal cpu t signal s;
        signal_group cpu pgrp signal ts (Inr ()) s
      } else signal_group cpu pgrp signal ts res s)"

definition pgrp_send_signal :: "nat \<Rightarrow> int \<Rightarrow> u32 \<Rightarrow> 'a ktasks_scheme \<Rightarrow> (unit result \<times> 'a ktasks_scheme) option" where
  "pgrp_send_signal cpu pgrp signal s =
     (if signal < 1 \<or> NSIG \<le> signal then Some (Inl EINVAL, s)
      else signal_group cpu pgrp signal (g_task_list s) (Inl ESRCH) s)"

lemma finite_bits: "finite {n. bit (w :: 'a::len word) n}"
  by (rule finite_subset [of _ "{..<LENGTH('a)}"]) (auto dest: bit_imp_le_length)

lemma clear_bit: "bit (w AND NOT (2 ^ k)) n \<longleftrightarrow> bit (w :: 'a::len word) n \<and> n \<noteq> k"
  by (auto simp: bit_and_iff bit_not_iff bit_exp_iff dest: bit_imp_le_length)

lemma clear_bit_card:
  assumes "bit (w :: 'a::len word) k" shows "card (Collect (bit (w AND NOT (2 ^ k)))) < card (Collect (bit w))"
  using assms by (intro psubset_card_mono) (auto simp: clear_bit finite_bits [simplified])

lemma ctz_pending: "p AND NOT b \<noteq> 0 \<Longrightarrow> bit (p :: u32) (builtin_ctz (p AND NOT b))"
  using builtin_ctz_bit(1) [of "p AND NOT b"] by (simp add: bit_and_iff)

text \<open>The loop of \<^verbatim>\<open>signal_try_handle\<close>: the signal that ends the task, if any, and the signals still
  pending.  Ending the task does not return.\<close>

function signal_loop :: "u32 \<Rightarrow> u32 \<Rightarrow> nat option \<times> u32" where
  "signal_loop pending blocked =
     (if pending AND NOT blocked = 0 then (None, pending)
      else let sigidx = builtin_ctz (pending AND NOT blocked);
               pending = pending AND NOT (push_bit sigidx 1)
           in if of_nat (sigidx + 1) = SIGCHLD then signal_loop pending blocked
              else (Some (sigidx + 1), pending))"
  by pat_completeness auto
termination
  by (relation "measure (\<lambda>(p, _). card {n. bit p n})") (auto intro: clear_bit_card ctz_pending)

declare signal_loop.simps [simp del]

text \<open>Handling the signals of the current task; ending it is the exit of the task, an argument.\<close>

definition signal_try_handle :: "(nat \<Rightarrow> int \<Rightarrow> 'a ktasks_scheme \<Rightarrow> 'a ktasks_scheme option) \<Rightarrow> nat \<Rightarrow> 'a ktasks_scheme \<Rightarrow> 'a ktasks_scheme option" where
  "signal_try_handle sys_exit cpu s =
     (if length (current_task s) \<le> cpu then Some s
      else
        let t = current_task s ! cpu; x = task_of s t
        in if trsp x = 0 \<or> sig_pending x = 0 then Some s
           else case signal_loop (sig_pending x) (sig_blocked x) of
             (None, pending) \<Rightarrow> Some (upd_task t (\<lambda>x. x\<lparr>sig_pending := pending\<rparr>) s)
           | (Some sig, pending) \<Rightarrow>
               sys_exit cpu 0 (upd_task t (\<lambda>x. x\<lparr>sig_pending := pending, return_signal := int sig\<rparr>) s))"

section \<open>Lemmas\<close>

text \<open>The signal chosen is the lowest pending one that is not blocked and not the child signal.\<close>

lemma signal_loop_lowest:
  "fst (signal_loop p b) = map_option Suc (find (\<lambda>n. bit p n \<and> \<not> bit b n \<and> n \<noteq> 16) [0..<32])"
proof (induction p b rule: signal_loop.induct)
  case (1 p b)
  let ?k = "builtin_ctz (p AND NOT b)"
  show ?case
  proof (cases "p AND NOT b = 0")
    case True
    then have "\<not> bit (p AND NOT b) n" for n by simp
    then have "\<not> (bit p n \<and> \<not> bit b n)" for n
      using bit_imp_le_length [of p n] by (auto simp: bit_and_iff bit_not_iff)
    then show ?thesis using True by (subst signal_loop.simps) (simp add: find_None_iff)
  next
    case False
    have k: "?k < 32" "bit p ?k" "\<not> bit b ?k" "\<And>n. n < ?k \<Longrightarrow> \<not> (bit p n \<and> \<not> bit b n)"
      using builtin_ctz_bit [OF False] by (auto simp: bit_and_iff bit_not_iff)
    have c: "of_nat (?k + 1) = SIGCHLD \<longleftrightarrow> ?k = 16"
    proof
      assume "of_nat (?k + 1) = SIGCHLD"
      then have "unat (of_nat (?k + 1) :: u32) = 17" by (simp only: SIGCHLD_def) simp
      moreover have "unat (of_nat (?k + 1) :: u32) = ?k + 1" using k(1) by (intro unat_of_nat_small) simp
      ultimately show "?k = 16" by linarith
    qed (simp add: SIGCHLD_def)
    show ?thesis
    proof (cases "?k = 16")
      case True
      have "fst (signal_loop p b) = fst (signal_loop (p AND NOT (push_bit ?k 1)) b)"
        using False c True by (subst signal_loop.simps) (simp only: Let_def if_False if_True simp_thms)
      also have "\<dots> = map_option Suc (find (\<lambda>n. bit (p AND NOT (push_bit ?k 1)) n \<and> \<not> bit b n \<and> n \<noteq> 16) [0..<32])"
        by (rule "1.IH" [OF False refl refl]) (use c True in blast)
      also have "(\<lambda>n. bit (p AND NOT (push_bit ?k 1)) n \<and> \<not> bit b n \<and> n \<noteq> 16) = (\<lambda>n. bit p n \<and> \<not> bit b n \<and> n \<noteq> 16)"
        using clear_bit [of p 16] unfolding True by (simp only: push_bit_of_1) blast
      finally show ?thesis .
    next
      case ne: False
      have "find (\<lambda>n. bit p n \<and> \<not> bit b n \<and> n \<noteq> 16) [0..<32] = Some ?k"
        unfolding find_Some_iff using k ne by (auto intro!: exI [of _ ?k])
      moreover have "fst (signal_loop p b) = Some (?k + 1)"
        using False c ne by (subst signal_loop.simps) (simp only: Let_def if_False fst_conv simp_thms)
      ultimately show ?thesis by simp
    qed
  qed
qed

lemma signal_loop_pending: "signal_loop p b = (r, q) \<Longrightarrow> bit q n \<Longrightarrow> bit p n"
proof (induction p b rule: signal_loop.induct)
  case (1 p b)
  let ?k = "builtin_ctz (p AND NOT b)"
  have sub: "bit (p AND NOT (push_bit ?k 1)) n \<Longrightarrow> bit p n" by (simp add: bit_and_iff)
  show ?case
  proof (cases "p AND NOT b \<noteq> 0 \<and> of_nat (?k + 1) = SIGCHLD")
    case True
    then have "signal_loop (p AND NOT (push_bit ?k 1)) b = (r, q)" using "1.prems"(1) by (subst (asm) signal_loop.simps) (simp only: Let_def if_False if_True simp_thms)
    then show ?thesis using "1.IH" [OF _ refl refl] True "1.prems"(2) sub by blast
  next
    case False
    then have "q = p \<or> q = p AND NOT (push_bit ?k 1)" using "1.prems"(1)
      by (subst (asm) signal_loop.simps) (simp only: Let_def split: if_splits, auto)
    then show ?thesis using "1.prems"(2) sub by blast
  qed
qed

text \<open>One signal: the bit of the signal, and a run queue entry for a task in interruptible sleep.\<close>

definition sig_bit :: "u32 \<Rightarrow> task \<Rightarrow> task" where
  "sig_bit signal x = x\<lparr>sig_pending := sig_pending x OR push_bit (unat (signal - 1)) 1\<rparr>"

definition sleeping_of :: "'a sched_scheme \<Rightarrow> nat list \<Rightarrow> nat list" where
  "sleeping_of s ts = filter (\<lambda>t. status_of s t = TASK_INTR_SLEEPING) ts"

definition signalled :: "nat \<Rightarrow> u32 \<Rightarrow> nat list \<Rightarrow> 'a ktasks_scheme \<Rightarrow> 'a ktasks_scheme \<Rightarrow> bool" where
  "signalled cpu signal ts s s' \<longleftrightarrow>
     task_of s' = (\<lambda>t. if t \<in> set ts then sig_bit signal (task_of s t) else task_of s t) \<and>
     status_of s' = (\<lambda>t. if t \<in> set (sleeping_of s ts) then TASK_RUNNING else status_of s t) \<and>
     g_task_list s' = g_task_list s \<and>
     length (sched_pcpu_data s') = length (sched_pcpu_data s) \<and>
     runqueue (sched_pcpu_data s' ! cpu) = runqueue (sched_pcpu_data s ! cpu) @ sleeping_of s ts"

lemma send_signal_spec:
  assumes "cpu < length (sched_pcpu_data s)"
  shows "\<exists>s'. send_signal cpu t signal s = Some s' \<and> signalled cpu signal [t] s s'"
  using assms
  by (auto simp: send_signal_def signalled_def upd_task_def cas_status_def sched_add_ready_def update_queue_def
      queue_push_def sig_bit_def sleeping_of_def Let_def fun_eq_iff)

lemma sig_bit_pgid [simp]: "pgid (sig_bit signal x) = pgid x"
  by (simp add: sig_bit_def)

lemma signal_group_spec:
  assumes "cpu < length (sched_pcpu_data s)" "distinct ts"
  shows "\<exists>s'. signal_group cpu pgrp signal ts res s =
      Some (if \<exists>t\<in>set ts. pgid (task_of s t) = pgrp then Inr () else res, s') \<and>
    signalled cpu signal (filter (\<lambda>t. pgid (task_of s t) = pgrp) ts) s s'"
  using assms
proof (induction ts arbitrary: res s)
  case Nil
  then show ?case by (simp add: signalled_def sleeping_of_def)
next
  case (Cons t ts)
  show ?case
  proof (cases "pgid (task_of s t) = pgrp")
    case False
    then show ?thesis using Cons.IH [of s res] Cons.prems by auto
  next
    case True
    obtain s1 where s1: "send_signal cpu t signal s = Some s1" "signalled cpu signal [t] s s1"
      using send_signal_spec [OF Cons.prems(1)] by blast
    have pg: "pgid (task_of s1 u) = pgid (task_of s u)" for u using s1(2) by (simp add: signalled_def)
    have "cpu < length (sched_pcpu_data s1)" using s1(2) Cons.prems(1) by (simp add: signalled_def)
    then obtain s' where s': "signal_group cpu pgrp signal ts (Inr ()) s1 = Some (Inr (), s')"
      "signalled cpu signal (filter (\<lambda>t. pgid (task_of s t) = pgrp) ts) s1 s'"
      using Cons.IH [of s1 "Inr ()"] Cons.prems(2) unfolding pg by auto
    let ?f = "filter (\<lambda>t. pgid (task_of s t) = pgrp) ts"
    have "sleeping_of s1 ?f = sleeping_of s ?f"
      unfolding sleeping_of_def by (rule filter_cong [OF refl]) (use s1(2) Cons.prems(2) in \<open>auto simp: signalled_def sleeping_of_def\<close>)
    moreover have "t \<notin> set ?f" using Cons.prems(2) by simp
    ultimately have "signalled cpu signal (t # ?f) s s'"
      using s1(2) s'(2) unfolding signalled_def by (auto simp: fun_eq_iff sleeping_of_def)
    then show ?thesis using True s1(1) s'(1) by auto
  qed
qed

text \<open>Process numbers: listed tasks have distinct ones, all below the next number to be given out.\<close>

definition tasks_inv :: "'a ktasks_scheme \<Rightarrow> bool" where
  "tasks_inv s \<longleftrightarrow> distinct (g_task_list s) \<and> distinct (map (\<lambda>t. pid (task_of s t)) (g_task_list s)) \<and>
     (\<forall>t\<in>set (g_task_list s). 0 < pid (task_of s t) \<and> pid (task_of s t) < next_pid s) \<and> 0 < next_pid s"

lemma lookup_by_pid_iff:
  assumes "tasks_inv s"
  shows "lookup_by_pid p s = Some t \<longleftrightarrow> t \<in> set (g_task_list s) \<and> pid (task_of s t) = p"
proof
  assume "lookup_by_pid p s = Some t"
  then show "t \<in> set (g_task_list s) \<and> pid (task_of s t) = p" by (auto simp: lookup_by_pid_def find_Some_iff)
next
  assume t: "t \<in> set (g_task_list s) \<and> pid (task_of s t) = p"
  then have "lookup_by_pid p s \<noteq> None" by (auto simp: lookup_by_pid_def find_None_iff)
  then obtain u where u: "lookup_by_pid p s = Some u" by blast
  then have "u \<in> set (g_task_list s)" "pid (task_of s u) = p" by (auto simp: lookup_by_pid_def find_Some_iff)
  moreover have "inj_on (\<lambda>t. pid (task_of s t)) (set (g_task_list s))" using assms by (simp add: tasks_inv_def distinct_map)
  ultimately show "lookup_by_pid p s = Some t" using t u by (auto dest: inj_onD)
qed

lemma task_new_spec:
  assumes "tasks_inv s" "t \<notin> set (g_task_list s)" "\<not> linked t s"
  shows "\<exists>s'. task_new t name (-1) s = Some s' \<and> tasks_inv s' \<and> g_task_list s' = g_task_list s @ [t] \<and>
    pid (task_of s' t) = next_pid s \<and> (\<forall>u. u \<noteq> t \<longrightarrow> task_of s' u = task_of s u)"
proof -
  have n: "0 < next_pid s" using assms(1) by (simp add: tasks_inv_def)
  have "\<exists>s'. task_new t name (-1) s = Some s' \<and> g_task_list s' = g_task_list s @ [t] \<and>
    pid (task_of s' t) = next_pid s \<and> (\<forall>u. u \<noteq> t \<longrightarrow> task_of s' u = task_of s u) \<and> next_pid s' = next_pid s + 1"
    using assms(3) n
    by (cases "next_pid s = 1") (simp_all add: task_new_def upd_task_def set_status_def wait_queue_node_init_def linked_def Let_def)
  then obtain s' where s': "task_new t name (-1) s = Some s'" "g_task_list s' = g_task_list s @ [t]"
    "pid (task_of s' t) = next_pid s" "\<forall>u. u \<noteq> t \<longrightarrow> task_of s' u = task_of s u" "next_pid s' = next_pid s + 1" by blast
  have same: "pid (task_of s' u) = pid (task_of s u)" if "u \<in> set (g_task_list s)" for u using s'(4) assms(2) that by metis
  then have m: "map (\<lambda>t. pid (task_of s' t)) (g_task_list s) = map (\<lambda>t. pid (task_of s t)) (g_task_list s)" by simp
  have "next_pid s \<notin> (\<lambda>t. pid (task_of s t)) ` set (g_task_list s)" using assms(1) by (auto simp: tasks_inv_def)
  then have "next_pid s \<notin> set (map (\<lambda>t. pid (task_of s' t)) (g_task_list s))" unfolding m by simp
  moreover have "distinct (map (\<lambda>t. pid (task_of s' t)) (g_task_list s))" using assms(1) unfolding m tasks_inv_def by simp
  moreover have "\<forall>u\<in>set (g_task_list s). 0 < pid (task_of s' u) \<and> pid (task_of s' u) < next_pid s + 1"
    using assms(1) same unfolding tasks_inv_def by fastforce
  moreover have "distinct (g_task_list s @ [t])" using assms(1,2) by (simp add: tasks_inv_def)
  ultimately have "tasks_inv s'" using n s' by (simp add: tasks_inv_def)
  then show ?thesis using s' by blast
qed

section \<open>Properties\<close>

text \<open>C27: A signal to a process group reaches exactly the listed tasks of that group: every one of them gets the
  bit of the signal, those in interruptible sleep become running and are queued in the order of the list, no
  other task changes, and the caller learns whether the group has any task.\<close>

theorem pgrp_signal_reaches_group:
  assumes "cpu < length (sched_pcpu_data s)" "distinct (g_task_list s)" "1 \<le> signal" "signal < NSIG"
  shows "\<exists>s'. pgrp_send_signal cpu pgrp signal s =
      Some (if \<exists>t\<in>set (g_task_list s). pgid (task_of s t) = pgrp then Inr () else Inl ESRCH, s') \<and>
    signalled cpu signal (filter (\<lambda>t. pgid (task_of s t) = pgrp) (g_task_list s)) s s'"
proof -
  have "\<not> (signal < 1 \<or> NSIG \<le> signal)" using assms(3,4) leD by blast
  then show ?thesis using signal_group_spec [OF assms(1,2)] unfolding pgrp_send_signal_def by (simp only: if_False)
qed

definition demo_tasks :: ktasks where
  "demo_tasks = \<lparr>status_of = (\<lambda>t. if t = 3 then TASK_INTR_SLEEPING else TASK_RUNNING), rsp0_of = (\<lambda>_. 0),
     sched_pcpu_data = [\<lparr>idle = 0, runqueue = [], queue_entry_count = 0\<rparr>], current_task = [1],
     wait_queues = [], node_queue = (\<lambda>_. None), node_task = id,
     task_of = (\<lambda>t. \<lparr>tname = ''t'', tflags = 0, trsp = 0x1000, rsp0_top = 0, kstack = [], owned_vm_space = None,
       current_vm_space = None, has_context = True, tls_base = 0, pid = int t, tgid = int t, pgid = 2, sid = 1,
       parent = (if t = 1 then None else Some 1), children = (if t = 1 then [3, 2] else []), tcred = root_cred,
       cwd = None, tty = None, open_files = replicate 32 (-1), return_status = 0, return_signal = 0,
       sig_pending = 0, sig_blocked = 0, argv = [], envp = []\<rparr>),
     g_task_list = [1, 2, 3], next_pid = 4, init_task = Some 1\<rparr>"

theorem pgrp_signal_reaches_group_witness:
  "\<exists>s'. pgrp_send_signal 0 2 9 demo_tasks = Some (Inr (), s') \<and> signalled 0 9 [1, 2, 3] demo_tasks s'"
proof -
  have d: "0 < length (sched_pcpu_data demo_tasks)" "g_task_list demo_tasks = [1, 2, 3]" "\<And>t. pgid (task_of demo_tasks t) = 2"
    by (simp_all add: demo_tasks_def)
  then show ?thesis using pgrp_signal_reaches_group [of 0 demo_tasks 9 2] by (auto simp: NSIG_def split: if_splits)
qed



text \<open>C29: A task that handles its signals is ended by the lowest pending signal that is neither blocked nor the
  child signal; when there is none, it goes on, and no signal becomes pending by it.\<close>

theorem lowest_signal_ends_task:
  assumes "cpu < length (current_task s)" "t = current_task s ! cpu" "trsp (task_of s t) \<noteq> 0" "sig_pending (task_of s t) \<noteq> 0"
  shows "\<exists>q. (\<forall>n. bit q n \<longrightarrow> bit (sig_pending (task_of s t)) n) \<and>
    signal_try_handle sys_exit cpu s =
      (case find (\<lambda>n. bit (sig_pending (task_of s t)) n \<and> \<not> bit (sig_blocked (task_of s t)) n \<and> n \<noteq> 16) [0..<32] of
         None \<Rightarrow> Some (upd_task t (\<lambda>x. x\<lparr>sig_pending := q\<rparr>) s)
       | Some n \<Rightarrow> sys_exit cpu 0 (upd_task t (\<lambda>x. x\<lparr>sig_pending := q, return_signal := int n + 1\<rparr>) s))"
proof -
  obtain r q where q: "signal_loop (sig_pending (task_of s t)) (sig_blocked (task_of s t)) = (r, q)" by fastforce
  have "\<forall>n. bit q n \<longrightarrow> bit (sig_pending (task_of s t)) n" using signal_loop_pending [OF q] by blast
  moreover have "r = map_option Suc (find (\<lambda>n. bit (sig_pending (task_of s t)) n \<and> \<not> bit (sig_blocked (task_of s t)) n \<and> n \<noteq> 16) [0..<32])"
    using signal_loop_lowest [of "sig_pending (task_of s t)" "sig_blocked (task_of s t)"] q by simp
  ultimately show ?thesis using assms q
    by (intro exI [of _ q]) (auto simp: signal_try_handle_def Let_def add.commute split: option.split)
qed

theorem lowest_signal_ends_task_witness:
  "\<exists>q. signal_try_handle (\<lambda>cpu st s. Some s) 0 (upd_task 1 (\<lambda>x. x\<lparr>sig_pending := 5, sig_blocked := 1\<rparr>) demo_tasks) =
     Some (upd_task 1 (\<lambda>x. x\<lparr>sig_pending := q, return_signal := 3\<rparr>) (upd_task 1 (\<lambda>x. x\<lparr>sig_pending := 5, sig_blocked := 1\<rparr>) demo_tasks))"
proof -
  let ?s = "upd_task 1 (\<lambda>x. x\<lparr>sig_pending := 5, sig_blocked := 1\<rparr>) demo_tasks"
  have f: "find (\<lambda>n. bit (5 :: u32) n \<and> \<not> bit (1 :: u32) n \<and> n \<noteq> 16) [0..<32] = Some 2" by code_simp
  show ?thesis using lowest_signal_ends_task [of 0 ?s 1 "\<lambda>cpu st s. Some s"] f by (auto simp: demo_tasks_def upd_task_def)
qed

end
