(* ===== verification/Vfs.thy ===== *)
theory Vfs
  imports Task Spinlock Hash_Chain
begin

text \<open>
  The virtual file system: nodes (\<^verbatim>\<open>fs/vnode.c\<close>), directory entries and their cache (\<^verbatim>\<open>fs/ventry.c\<close>),
  file system types (\<^verbatim>\<open>fs/filesystem.c\<close>), path lookup (\<^verbatim>\<open>fs/lookup.c\<close>) and mounting (\<^verbatim>\<open>fs/super.c\<close>).
  Objects are named by their addresses, numbers other than 0, and are never moved; an object that was freed is
  not live.  The tables of operations of the file systems are numbered, and the functions in them are
  a parameter of the model, so that the operations of every file system can be plugged in; a null pointer in a
  table is \<^term>\<open>None\<close>.  The node mutexes, taken around single list insertions, are left out.
\<close>

section \<open>Data\<close>

record vnode =
  nmode :: u32
  nsize :: u64
  nuid :: u32
  ngid :: u32
  ndev :: u64
  nlink :: u64
  nref :: u32
  ndata :: "nat option"
  nsb :: "nat option"
  niops :: "nat option"
  nfops :: "nat option"

record ventry =
  ename :: string
  enode :: "nat option"
  eparent :: "nat option"
  echildren :: "nat list"
  emount :: "nat option"
  eref :: reflock

record filesystem =
  fs_name :: string
  fs_flags :: u32
  fs_iops :: nat
  fs_fops :: nat
  fs_sbops :: nat

record superblock =
  sfs :: "filesystem option"
  sbdev :: "block_device option"
  sdata :: nat

record mount =
  mfs :: filesystem
  msb :: nat
  mountpoint :: nat

record file_descriptor =
  fpos :: u64
  finode :: "nat option"
  fpath :: "nat option"
  fs_id :: int
  refcount :: u32

text \<open>The context of the file system, the objects in memory, and the fresh address of the next object.\<close>

record vfs = ktasks +
  vnode_of :: "nat \<Rightarrow> vnode"
  vnode_live :: "nat \<Rightarrow> bool"
  ventry_of :: "nat \<Rightarrow> ventry"
  ventry_live :: "nat \<Rightarrow> bool"
  super_of :: "nat \<Rightarrow> superblock"
  mount_of :: "nat \<Rightarrow> mount"
  next_object :: nat
  hash_table :: "nat chains"
  fs_list :: "filesystem list"
  root_node :: nat
  mounts :: "nat list"
  files :: "file_descriptor list"
  char_devs :: "char_device chains"
  block_devs :: "block_device chains"
  file_pages :: "nat \<Rightarrow> u8 list list"

text \<open>Operation tables over a state \<^typ>\<open>'s\<close>.\<close>

record 's inode_ops =
  op_lookup :: "(nat \<Rightarrow> string \<Rightarrow> 's \<Rightarrow> (nat option \<times> 's) option) option"
  op_mkdir :: "(nat \<Rightarrow> string \<Rightarrow> u32 \<Rightarrow> 's \<Rightarrow> (unit result \<times> 's) option) option"
  op_create :: "(nat \<Rightarrow> string \<Rightarrow> u32 \<Rightarrow> 's \<Rightarrow> (unit result \<times> 's) option) option"
  op_mknod :: "(nat \<Rightarrow> string \<Rightarrow> u32 \<Rightarrow> u64 \<Rightarrow> 's \<Rightarrow> (unit result \<times> 's) option) option"
  op_getdents :: "(nat \<Rightarrow> u64 \<Rightarrow> 's \<Rightarrow> (u8 list result \<times> 's) option) option"

record 's file_ops =
  op_open :: "(nat \<Rightarrow> u32 \<Rightarrow> 's \<Rightarrow> (int result \<times> 's) option) option"
  op_close :: "(nat \<Rightarrow> 's \<Rightarrow> (unit result \<times> 's) option) option"
  op_read :: "(nat \<Rightarrow> u64 \<Rightarrow> 's \<Rightarrow> (u8 list result \<times> 's) option) option"
  op_write :: "(nat \<Rightarrow> u8 list \<Rightarrow> 's \<Rightarrow> (u64 result \<times> 's) option) option"
  op_ioctl :: "(nat \<Rightarrow> u64 \<Rightarrow> u64 \<Rightarrow> 's \<Rightarrow> (int result \<times> 's) option) option"

record 's super_ops =
  op_init :: "block_device option \<Rightarrow> 's \<Rightarrow> (nat result \<times> 's) option"
  op_root :: "nat \<Rightarrow> 's \<Rightarrow> (nat result \<times> 's) option"

text \<open>What the code below relies on: the CPU it runs on, the operation tables, the release of a socket, and the value
  a caller sees when \<^verbatim>\<open>vfs_put_file\<close> falls off its end without a return.\<close>

record 's kernel_ops =
  this_cpu :: nat
  iops_tab :: "nat \<Rightarrow> 's inode_ops"
  fops_tab :: "nat \<Rightarrow> 's file_ops"
  sb_tab :: "nat \<Rightarrow> 's super_ops"
  socket_put_op :: "nat \<Rightarrow> 's \<Rightarrow> 's option"
  no_return :: "unit result"

definition S_IFMT :: u32 where "S_IFMT = 0xF000"
definition S_IFDIR :: u32 where "S_IFDIR = 0x4000"
definition S_IFCHR :: u32 where "S_IFCHR = 0x2000"
definition S_IFBLK :: u32 where "S_IFBLK = 0x6000"
definition S_IFREG :: u32 where "S_IFREG = 0x8000"
definition S_IFSOCK :: u32 where "S_IFSOCK = 0xC000"
definition S_IFIFO :: u32 where "S_IFIFO = 0x1000"

definition S_ISREG :: "u32 \<Rightarrow> bool" where "S_ISREG flags \<longleftrightarrow> flags AND S_IFMT = S_IFREG"
definition S_ISDIR :: "u32 \<Rightarrow> bool" where "S_ISDIR flags \<longleftrightarrow> flags AND S_IFMT = S_IFDIR"
definition S_ISBLK :: "u32 \<Rightarrow> bool" where "S_ISBLK flags \<longleftrightarrow> flags AND S_IFMT = S_IFBLK"
definition S_ISCHR :: "u32 \<Rightarrow> bool" where "S_ISCHR flags \<longleftrightarrow> flags AND S_IFMT = S_IFCHR"
definition S_ISSOCK :: "u32 \<Rightarrow> bool" where "S_ISSOCK flags \<longleftrightarrow> flags AND S_IFMT = S_IFSOCK"
definition S_ISFIFO :: "u32 \<Rightarrow> bool" where "S_ISFIFO flags \<longleftrightarrow> flags AND S_IFMT = S_IFIFO"

text \<open>Reading and writing an object; an access to a freed object is not a behaviour of the model.\<close>

definition get_node :: "nat \<Rightarrow> 'a vfs_scheme \<Rightarrow> vnode option" where
  "get_node n s = (if vnode_live s n then Some (vnode_of s n) else None)"

definition upd_node :: "nat \<Rightarrow> (vnode \<Rightarrow> vnode) \<Rightarrow> 'a vfs_scheme \<Rightarrow> 'a vfs_scheme" where
  "upd_node n f s = s\<lparr>vnode_of := (vnode_of s)(n := f (vnode_of s n))\<rparr>"

definition get_entry :: "nat \<Rightarrow> 'a vfs_scheme \<Rightarrow> ventry option" where
  "get_entry e s = (if ventry_live s e then Some (ventry_of s e) else None)"

definition upd_entry :: "nat \<Rightarrow> (ventry \<Rightarrow> ventry) \<Rightarrow> 'a vfs_scheme \<Rightarrow> 'a vfs_scheme" where
  "upd_entry e f s = s\<lparr>ventry_of := (ventry_of s)(e := f (ventry_of s e))\<rparr>"

section \<open>Nodes\<close>

definition vnode_new :: "u32 \<Rightarrow> 'a vfs_scheme \<Rightarrow> nat \<times> 'a vfs_scheme" where
  "vnode_new mode s =
     (let n = next_object s
      in (n, s\<lparr>vnode_of := (vnode_of s)(n := \<lparr>nmode = mode, nsize = 0, nuid = 0, ngid = 0, ndev = 0, nlink = 0, nref = 0,
                 ndata = None, nsb = None, niops = None, nfops = None\<rparr>),
               vnode_live := (vnode_live s)(n := True), next_object := n + 1\<rparr>))"

definition vnode_free :: "('a vfs_scheme) kernel_ops \<Rightarrow> nat \<Rightarrow> 'a vfs_scheme \<Rightarrow> 'a vfs_scheme option" where
  "vnode_free K n s = do {
     node \<leftarrow> get_node n s;
     s \<leftarrow> (if S_ISSOCK (nmode node) then case ndata node of None \<Rightarrow> None | Some sock \<Rightarrow> socket_put_op K sock s else Some s);
     Some (s\<lparr>vnode_live := (vnode_live s)(n := False)\<rparr>)
   }"

definition vnode_ref :: "nat \<Rightarrow> 'a vfs_scheme \<Rightarrow> 'a vfs_scheme option" where
  "vnode_ref n s = do { _ \<leftarrow> get_node n s; Some (upd_node n (\<lambda>x. x\<lparr>nref := nref x + 1\<rparr>) s) }"

definition vnode_put :: "('a vfs_scheme) kernel_ops \<Rightarrow> nat \<Rightarrow> 'a vfs_scheme \<Rightarrow> 'a vfs_scheme option" where
  "vnode_put K n s = do {
     node \<leftarrow> get_node n s;
     let s = upd_node n (\<lambda>x. x\<lparr>nref := nref x - 1\<rparr>) s;
     if nref node \<le> 1 \<and> nlink node = 0 then vnode_free K n s else Some s
   }"

section \<open>Directory entries and their cache\<close>

fun fnv_fold :: "u64 \<Rightarrow> char list \<Rightarrow> u64" where
  "fnv_fold hash [] = hash"
| "fnv_fold hash (c # cs) = fnv_fold ((hash XOR signed (of_char c :: u8)) * 0x100000001b3) cs"

text \<open>\<^verbatim>\<open>char\<close> is signed on this machine; a null parent is address 0.\<close>

definition dcache_hash :: "nat option \<times> string \<Rightarrow> nat" where
  "dcache_hash k =
     unat ((fnv_fold 0xcbf29ce484222325 (snd k) XOR of_nat (case fst k of None \<Rightarrow> 0 | Some p \<Rightarrow> p)) mod 1024)"

definition entry_key :: "(nat \<Rightarrow> ventry) \<Rightarrow> nat \<Rightarrow> nat option \<times> string" where
  "entry_key es e = (eparent (es e), ename (es e))"

definition dcache_find :: "(nat \<Rightarrow> ventry) \<Rightarrow> nat option \<times> string \<Rightarrow> nat chains \<Rightarrow> nat option" where
  "dcache_find es k t = find (\<lambda>e. entry_key es e = k) (t (dcache_hash k))"

text \<open>The comparison reads the character of the entry's name at the length of the name looked for, which must be
  inside the name's 64 characters; names are padded with zeros.\<close>

definition dcache_get :: "nat option \<Rightarrow> string \<Rightarrow> 'a vfs_scheme \<Rightarrow> nat option option" where
  "dcache_get dir name s =
     (let chain = hash_table s (dcache_hash (dir, name))
      in if list_all (\<lambda>e. ventry_live s e \<and> (eparent (ventry_of s e) = dir \<longrightarrow> length name < 64)) chain
         then Some (dcache_find (ventry_of s) (dir, name) (hash_table s)) else None)"

definition dcache_link :: "(nat \<Rightarrow> ventry) \<Rightarrow> nat \<Rightarrow> nat chains \<Rightarrow> nat chains" where
  "dcache_link es e t = (let hash = dcache_hash (entry_key es e) in t(hash := e # t hash))"

definition dcache_insert :: "nat \<Rightarrow> 'a vfs_scheme \<Rightarrow> 'a vfs_scheme option" where
  "dcache_insert e s = do { _ \<leftarrow> get_entry e s; Some (s\<lparr>hash_table := dcache_link (ventry_of s) e (hash_table s)\<rparr>) }"

definition dcache_unlink :: "(nat \<Rightarrow> ventry) \<Rightarrow> nat \<Rightarrow> nat chains \<Rightarrow> nat chains" where
  "dcache_unlink es e t = (let hash = dcache_hash (entry_key es e) in t(hash := remove1 e (t hash)))"

definition dcache_remove :: "nat \<Rightarrow> 'a vfs_scheme \<Rightarrow> 'a vfs_scheme option" where
  "dcache_remove e s = do { _ \<leftarrow> get_entry e s; Some (s\<lparr>hash_table := dcache_unlink (ventry_of s) e (hash_table s)\<rparr>) }"

interpretation dcache: removable_table dcache_hash "entry_key es" "dcache_find es" "dcache_link es" "dcache_unlink es"
  for es :: "nat \<Rightarrow> ventry"
  by unfold_locales (simp_all add: dcache_find_def dcache_link_def dcache_unlink_def Let_def)

text \<open>A name of 64 characters or more is copied without its end; measuring the copy then runs past it.\<close>

definition entry_name :: "string \<Rightarrow> string" where
  "entry_name name = (if 1 < length name \<and> last name = CHR ''/'' then butlast name else name)"

definition ventry_new :: "string \<Rightarrow> nat \<Rightarrow> 'a vfs_scheme \<Rightarrow> (nat \<times> 'a vfs_scheme) option" where
  "ventry_new name node s = do {
     _ \<leftarrow> get_node node s;
     let e = next_object s;
     let s = upd_node node (\<lambda>x. x\<lparr>nlink := nlink x + 1\<rparr>) s;
     if 64 \<le> length name then None
     else Some (e, s\<lparr>ventry_of := (ventry_of s)(e := \<lparr>ename = entry_name name, enode = Some node, eparent = None,
            echildren = [], emount = None, eref = reflock_init\<rparr>),
          ventry_live := (ventry_live s)(e := True), next_object := e + 1\<rparr>)
   }"

definition ventry_free :: "nat \<Rightarrow> 'a vfs_scheme \<Rightarrow> 'a vfs_scheme" where
  "ventry_free e s = s\<lparr>ventry_live := (ventry_live s)(e := False)\<rparr>"

definition ventry_ref :: "nat \<Rightarrow> 'a vfs_scheme \<Rightarrow> 'a vfs_scheme option" where
  "ventry_ref e s = do { _ \<leftarrow> get_entry e s; Some (upd_entry e (\<lambda>x. x\<lparr>eref := reflock_acquire (eref x)\<rparr>) s) }"

definition ventry_put :: "nat \<Rightarrow> 'a vfs_scheme \<Rightarrow> 'a vfs_scheme option" where
  "ventry_put e s = do {
     x \<leftarrow> get_entry e s;
     (released, ref) \<leftarrow> reflock_release_or_lock (eref x);
     if \<not> released then Some (upd_entry e (\<lambda>x. x\<lparr>eref := ref\<rparr>) s)
     else do {
       let has_node = (enode x \<noteq> None);
       let s = upd_entry e (\<lambda>x. x\<lparr>eref := ref\<lparr>ref_lock := spinlock_release (ref_lock ref)\<rparr>\<rparr>) s;
       if has_node then Some s else do { s \<leftarrow> dcache_remove e s; Some (ventry_free e s) }
     }
   }"

section \<open>File system types\<close>

definition FS_FLAG_NODEV :: u32 where "FS_FLAG_NODEV = 1"

definition filesystem_register :: "filesystem \<Rightarrow> string \<Rightarrow> 'a vfs_scheme \<Rightarrow> 'a vfs_scheme" where
  "filesystem_register fs name s = s\<lparr>fs_list := fs_list s @ [fs\<lparr>fs_name := take 32 name\<rparr>]\<rparr>"

definition filesystem_lookup :: "string \<Rightarrow> 'a vfs_scheme \<Rightarrow> filesystem option" where
  "filesystem_lookup name s = find (\<lambda>cur. take 32 (fs_name cur) = take 32 name) (fs_list s)"

section \<open>Path lookup\<close>

definition LOOKUP_PARENT :: u32 where "LOOKUP_PARENT = 1"

definition traverse_mount :: "('a vfs_scheme) kernel_ops \<Rightarrow> nat \<Rightarrow> 'a vfs_scheme \<Rightarrow> (nat option \<times> 'a vfs_scheme) option" where
  "traverse_mount K source s = do {
     x \<leftarrow> get_entry source s;
     m \<leftarrow> emount x;
     (status, s) \<leftarrow> op_root (sb_tab K (fs_sbops (mfs (mount_of s m)))) (msb (mount_of s m)) s;
     Some (case status of Inl _ \<Rightarrow> (None, s) | Inr root \<Rightarrow> (Some root, s))
   }"

text \<open>Following the mount on an entry other than the root of the whole tree.\<close>

definition enter_mount :: "('a vfs_scheme) kernel_ops \<Rightarrow> nat \<Rightarrow> 'a vfs_scheme \<Rightarrow> (nat option \<times> 'a vfs_scheme) option" where
  "enter_mount K e s = do {
     x \<leftarrow> get_entry e s;
     if e \<noteq> root_node s \<and> emount x \<noteq> None then traverse_mount K e s else Some (Some e, s)
   }"

text \<open>The parent of the root of a mounted file system: the parent of the mount point.\<close>

fun mount_parent :: "('a vfs_scheme) kernel_ops \<Rightarrow> nat \<Rightarrow> nat list \<Rightarrow> 'a vfs_scheme \<Rightarrow> (nat option \<times> 'a vfs_scheme) option" where
  "mount_parent K current [] s = Some (None, s)"
| "mount_parent K current (m # ms) s = do {
     (status, s) \<leftarrow> op_root (sb_tab K (fs_sbops (mfs (mount_of s m)))) (msb (mount_of s m)) s;
     if status = Inr current then
       (if mountpoint (mount_of s m) = root_node s then Some (Some (root_node s), s)
        else do { x \<leftarrow> get_entry (mountpoint (mount_of s m)) s; Some (eparent x, s) })
     else mount_parent K current ms s
   }"

text \<open>The entry of a name in the directory \<^term>\<open>current\<close>: from the cache or from the file system, and then
  entered in the cache.\<close>

definition lookup_in_dir ::
  "('a vfs_scheme) kernel_ops \<Rightarrow> nat \<Rightarrow> string \<Rightarrow> 'a vfs_scheme \<Rightarrow> (nat option result \<times> 'a vfs_scheme) option" where
  "lookup_in_dir K current component s = do {
     cached \<leftarrow> dcache_get (Some current) component s;
     (case cached of Some e \<Rightarrow> Some (Inr (Some e), s)
      | None \<Rightarrow> do {
          x \<leftarrow> get_entry current s;
          n \<leftarrow> enode x;
          node \<leftarrow> get_node n s;
          ops \<leftarrow> niops node;
          (case op_lookup (iops_tab K ops) of None \<Rightarrow> Some (Inl ENOENT, s)
           | Some lookup \<Rightarrow> do {
               (found, s) \<leftarrow> lookup current component s;
               s \<leftarrow> (case found of None \<Rightarrow> Some s | Some e \<Rightarrow> dcache_insert e s);
               Some (Inr found, s)
             })
        })
   }"

text \<open>The step to a named component, with the reference held on \<^term>\<open>current\<close>: the entry whose reference is
  held afterwards, and the entry found or the error.\<close>

definition lookup_name ::
  "('a vfs_scheme) kernel_ops \<Rightarrow> nat \<Rightarrow> string \<Rightarrow> 'a vfs_scheme \<Rightarrow> ((nat \<times> nat option result) \<times> 'a vfs_scheme) option" where
  "lookup_name K current component s = do {
     x \<leftarrow> get_entry current s;
     (entered, s) \<leftarrow> (if current \<noteq> root_node s \<and> emount x \<noteq> None then do {
         (trav, s) \<leftarrow> traverse_mount K current s;
         (case trav of None \<Rightarrow> Some (None, s)
          | Some m \<Rightarrow> do { s \<leftarrow> ventry_put current s; s \<leftarrow> ventry_ref m s; Some (Some m, s) })
       } else Some (Some current, s));
     (case entered of None \<Rightarrow> Some ((current, Inl ENOENT), s)
      | Some current \<Rightarrow> do { (next, s) \<leftarrow> lookup_in_dir K current component s; Some ((current, next), s) })
   }"

definition lookup_component ::
  "('a vfs_scheme) kernel_ops \<Rightarrow> nat \<Rightarrow> string \<Rightarrow> 'a vfs_scheme \<Rightarrow> ((nat \<times> nat option result) \<times> 'a vfs_scheme) option" where
  "lookup_component K current component s =
     (if component = ''.'' then Some ((current, Inr (Some current)), s)
      else if component = ''..'' then do {
        x \<leftarrow> get_entry current s;
        (case eparent x of Some p \<Rightarrow> Some ((current, Inr (Some p)), s)
         | None \<Rightarrow> do { (next, s) \<leftarrow> mount_parent K current (mounts s) s; Some ((current, Inr next), s) })
      }
      else lookup_name K current component s)"

text \<open>The loop over the components.  \<^term>\<open>rest\<close> is the part of the path from the loop index on; the copy with
  zeros for the slashes is not kept separately.\<close>

lemma dropWhile_shorter: "length (dropWhile P xs) - k < Suc (length xs)"
  using length_dropWhile_le [of P xs] by linarith

function lookup_loop ::
  "('a vfs_scheme) kernel_ops \<Rightarrow> u32 \<Rightarrow> nat option \<Rightarrow> string \<Rightarrow> 'a vfs_scheme \<Rightarrow> (nat option result \<times> 'a vfs_scheme) option" where
  "lookup_loop K flags current [] s = Some (Inr current, s)"
| "lookup_loop K flags current (c # rest) s =
     (if c = CHR ''/'' then lookup_loop K flags current rest s
      else case current of None \<Rightarrow> Some (Inr None, s)
      | Some cur \<Rightarrow> do {
          s \<leftarrow> ventry_ref cur s;
          x \<leftarrow> get_entry cur s;
          n \<leftarrow> enode x;
          node \<leftarrow> get_node n s;
          if \<not> S_ISDIR (nmode node) then do { s \<leftarrow> ventry_put cur s; Some (Inl ENOTDIR, s) }
          else do {
            let component = takeWhile (\<lambda>c. c \<noteq> CHR ''/'') (c # rest);
            let after = dropWhile (\<lambda>c. c \<noteq> CHR ''/'') (c # rest);
            let is_last = list_all (\<lambda>c. c = CHR ''/'') after;
            if is_last \<and> flags AND LOOKUP_PARENT \<noteq> 0 then do { s \<leftarrow> ventry_put cur s; Some (Inr current, s) }
            else do {
              ((held, next), s) \<leftarrow> lookup_component K cur component s;
              s \<leftarrow> ventry_put held s;
              (case next of Inl e \<Rightarrow> Some (Inl e, s)
               | Inr next \<Rightarrow> lookup_loop K flags next (drop 1 after) s)
            }
          }
        })"
  by pat_completeness auto
termination
  by (relation "measure (\<lambda>(_, _, _, rest, _). length rest)")
    (auto simp: dropWhile_shorter)

declare lookup_loop.simps(2) [simp del]

definition vfs_lookup_at ::
  "('a vfs_scheme) kernel_ops \<Rightarrow> nat option \<Rightarrow> string \<Rightarrow> u32 \<Rightarrow> 'a vfs_scheme \<Rightarrow> (nat result \<times> 'a vfs_scheme) option" where
  "vfs_lookup_at K dir name flags s = do {
     cached \<leftarrow> dcache_get dir name s;
     (case cached of Some e \<Rightarrow> do {
         x \<leftarrow> get_entry e s;
         res \<leftarrow> (if flags AND LOOKUP_PARENT \<noteq> 0 then eparent x else Some e);
         (found, s) \<leftarrow> enter_mount K res s;
         Some (case found of None \<Rightarrow> (Inl ENOENT, s) | Some r \<Rightarrow> (Inr r, s))
       }
      | None \<Rightarrow> do {
         (current, s) \<leftarrow> lookup_loop K flags dir name s;
         (case current of Inl err \<Rightarrow> Some (Inl err, s)
          | Inr None \<Rightarrow> Some (Inl ENOENT, s)
          | Inr (Some e) \<Rightarrow> do {
              (found, s) \<leftarrow> enter_mount K e s;
              Some (case found of None \<Rightarrow> (Inl ENOENT, s) | Some r \<Rightarrow> (Inr r, s))
            })
       })
   }"

definition smp_current_task :: "nat \<Rightarrow> 'a sched_scheme \<Rightarrow> nat option" where
  "smp_current_task cpu s = (if cpu < length (current_task s) then Some (current_task s ! cpu) else None)"

definition vfs_lookup ::
  "('a vfs_scheme) kernel_ops \<Rightarrow> string \<Rightarrow> u32 \<Rightarrow> 'a vfs_scheme \<Rightarrow> (nat result \<times> 'a vfs_scheme) option" where
  "vfs_lookup K name flags s =
     (if name \<noteq> [] \<and> hd name = CHR ''/'' then vfs_lookup_at K (Some (root_node s)) (tl name) flags s
      else do { t \<leftarrow> smp_current_task (this_cpu K) s; vfs_lookup_at K (cwd (task_of s t)) name flags s })"

section \<open>Mounting\<close>

definition vfs_mount ::
  "('a vfs_scheme) kernel_ops \<Rightarrow> string option \<Rightarrow> string \<Rightarrow> string \<Rightarrow> 'a vfs_scheme \<Rightarrow> (unit result \<times> 'a vfs_scheme) option" where
  "vfs_mount K src target fstype s =
     (case filesystem_lookup fstype s of None \<Rightarrow> Some (Inl ENODEV, s)
      | Some fs \<Rightarrow>
          if fs_flags fs AND FS_FLAG_NODEV \<noteq> 0 \<and> src \<noteq> None then Some (Inl EINVAL, s)
          else if fs_flags fs AND FS_FLAG_NODEV = 0 \<and> src = None then Some (Inl ENOTBLK, s)
          else do {
            (query, s) \<leftarrow> vfs_lookup K target 0 s;
            (case query of Inl e \<Rightarrow> Some (Inl e, s)
             | Inr query \<Rightarrow> do {
                 (blockdev, s) \<leftarrow> (case src of None \<Rightarrow> Some (Inr None, s)
                   | Some src \<Rightarrow> do {
                       (s_query, s) \<leftarrow> vfs_lookup K src 0 s;
                       (case s_query of Inl e \<Rightarrow> Some (Inl e, s)
                        | Inr q \<Rightarrow> do {
                            x \<leftarrow> get_entry q s;
                            n \<leftarrow> enode x;
                            node \<leftarrow> get_node n s;
                            Some (Inr (blockdev_lookup (ndev node) (block_devs s)), s)
                          })
                     });
                 (case blockdev of Inl e \<Rightarrow> Some (Inl e, s)
                  | Inr bd \<Rightarrow> do {
                      (sb, s) \<leftarrow> op_init (sb_tab K (fs_sbops fs)) bd s;
                      (case sb of Inl e \<Rightarrow> Some (Inl e, s)
                       | Inr sb \<Rightarrow> do {
                           let mp = next_object s;
                           _ \<leftarrow> get_entry query s;
                           let s = upd_entry query (\<lambda>x. x\<lparr>emount := Some mp\<rparr>) s;
                           let s = s\<lparr>mount_of := (mount_of s)(mp := \<lparr>mfs = fs, msb = sb, mountpoint = query\<rparr>),
                              super_of := (super_of s)(sb := (super_of s sb)\<lparr>sfs := Some fs, sbdev := bd\<rparr>),
                              mounts := mounts s @ [mp], next_object := mp + 1\<rparr>;
                           Some (Inr (), s)
                         })
                    })
               })
          })"

end
