(* ===== verification/Vfs_Tree.thy ===== *)
theory Vfs_Tree
  imports Vfs
begin

text \<open>
  Path lookup is a walk over the tree of directory entries.  The walk is the specification: it knows the
  children of the directories and the mounts, and neither the cache nor the reference counts.  A file system
  takes part through the contract \<^verbatim>\<open>tree_driver\<close>: its lookup finds the child of that name and its superblock
  gives its root.
\<close>

section \<open>The specification\<close>

function path_components :: "string \<Rightarrow> string list" where
  "path_components [] = []"
| "path_components (c # cs) =
     (if c = CHR ''/'' then path_components cs
      else (c # takeWhile (\<lambda>c. c \<noteq> CHR ''/'') cs) # path_components (dropWhile (\<lambda>c. c \<noteq> CHR ''/'') cs))"
  by pat_completeness auto
termination
  by (relation "measure length") (auto simp: le_imp_less_Suc length_dropWhile_le)

definition is_dir :: "'a vfs_scheme \<Rightarrow> nat \<Rightarrow> bool" where
  "is_dir s e \<longleftrightarrow> (\<exists>n. enode (ventry_of s e) = Some n \<and> S_ISDIR (nmode (vnode_of s n)))"

definition mount_root :: "'a vfs_scheme \<Rightarrow> nat \<Rightarrow> nat" where
  "mount_root s m = sdata (super_of s (msb (mount_of s m)))"

definition entered :: "'a vfs_scheme \<Rightarrow> nat \<Rightarrow> nat" where
  "entered s e = (case emount (ventry_of s e) of Some m \<Rightarrow> if e = root_node s then e else mount_root s m | None \<Rightarrow> e)"

definition upward :: "'a vfs_scheme \<Rightarrow> nat \<Rightarrow> nat option" where
  "upward s e = (case eparent (ventry_of s e) of Some p \<Rightarrow> Some p
     | None \<Rightarrow> (case find (\<lambda>m. mount_root s m = e) (mounts s) of None \<Rightarrow> None
         | Some m \<Rightarrow> if mountpoint (mount_of s m) = root_node s then Some (root_node s)
                     else eparent (ventry_of s (mountpoint (mount_of s m)))))"

definition child :: "'a vfs_scheme \<Rightarrow> nat \<Rightarrow> string \<Rightarrow> nat option" where
  "child s e name = find (\<lambda>c. ename (ventry_of s c) = name) (echildren (ventry_of s e))"

definition walk_step :: "'a vfs_scheme \<Rightarrow> nat \<Rightarrow> string \<Rightarrow> nat option" where
  "walk_step s e name = (if name = ''.'' then Some e else if name = ''..'' then upward s e else child s (entered s e) name)"

text \<open>With the flag \<^term>\<open>p\<close> the walk stops in front of the last name.\<close>

fun walk :: "bool \<Rightarrow> 'a vfs_scheme \<Rightarrow> nat option \<Rightarrow> string list \<Rightarrow> nat option result" where
  "walk p s e [] = Inr e"
| "walk p s None (name # names) = Inr None"
| "walk p s (Some e) (name # names) =
     (if \<not> is_dir s e then Inl ENOTDIR
      else if p \<and> names = [] then Inr (Some e) else walk p s (walk_step s e name) names)"

definition lookup_spec :: "bool \<Rightarrow> 'a vfs_scheme \<Rightarrow> nat \<Rightarrow> string \<Rightarrow> nat result" where
  "lookup_spec p s e name = (case walk p s (Some e) (path_components name) of Inl err \<Rightarrow> Inl err
     | Inr None \<Rightarrow> Inl ENOENT | Inr (Some r) \<Rightarrow> Inr (entered s r))"

section \<open>Well-formed trees\<close>

definition lock_free :: "reflock \<Rightarrow> bool" where
  "lock_free r \<longleftrightarrow> next_ticket (ref_lock r) = now_serving (ref_lock r)"

definition name_ok :: "string \<Rightarrow> bool" where
  "name_ok name \<longleftrightarrow> name \<noteq> [] \<and> length name < 64 \<and> CHR ''/'' \<notin> set name \<and> name \<noteq> ''.'' \<and> name \<noteq> ''..''"

definition entry_ok :: "'a vfs_scheme \<Rightarrow> nat \<Rightarrow> bool" where
  "entry_ok s e \<longleftrightarrow> lock_free (eref (ventry_of s e)) \<and>
     (\<exists>n. enode (ventry_of s e) = Some n \<and> vnode_live s n \<and> niops (vnode_of s n) \<noteq> None) \<and>
     (\<forall>p. eparent (ventry_of s e) = Some p \<longrightarrow> ventry_live s p) \<and>
     (\<forall>m. emount (ventry_of s e) = Some m \<longrightarrow> ventry_live s (mount_root s m)) \<and>
     (echildren (ventry_of s e) \<noteq> [] \<longrightarrow> is_dir s e) \<and>
     distinct (map (\<lambda>c. ename (ventry_of s c)) (echildren (ventry_of s e))) \<and>
     (\<forall>c\<in>set (echildren (ventry_of s e)). ventry_live s c \<and> eparent (ventry_of s c) = Some e \<and> name_ok (ename (ventry_of s c)))"

definition cache_ok :: "'a vfs_scheme \<Rightarrow> bool" where
  "cache_ok s \<longleftrightarrow> (\<forall>i. \<forall>e\<in>set (hash_table s i). ventry_live s e \<and> dcache_hash (entry_key (ventry_of s) e) = i \<and>
     (\<exists>p. eparent (ventry_of s e) = Some p \<and> ventry_live s p \<and> e \<in> set (echildren (ventry_of s p))))"

definition tree_inv :: "'a vfs_scheme \<Rightarrow> bool" where
  "tree_inv s \<longleftrightarrow> (\<forall>e. ventry_live s e \<longrightarrow> entry_ok s e) \<and> cache_ok s \<and> ventry_live s (root_node s) \<and>
     (\<forall>m\<in>set (mounts s). ventry_live s (mountpoint (mount_of s m)))"

lemmas tree_inv_entry = tree_inv_def [THEN iffD1, THEN conjunct1, THEN spec, THEN mp]

section \<open>What a lookup may change\<close>

text \<open>Reference counts, by the amounts \<^term>\<open>d\<close>, the tickets of the locks, and the cache.\<close>

definition lookup_rel :: "(nat \<Rightarrow> u32) \<Rightarrow> 'a vfs_scheme \<Rightarrow> 'a vfs_scheme \<Rightarrow> bool" where
  "lookup_rel d s s' \<longleftrightarrow> (\<exists>r h. s' = s\<lparr>ventry_of := (\<lambda>e. (ventry_of s e)\<lparr>eref := r e\<rparr>), hash_table := h\<rparr> \<and>
     (\<forall>e. ref_count (r e) = ref_count (eref (ventry_of s e)) + d e \<and>
        (lock_free (eref (ventry_of s e)) \<longrightarrow> lock_free (r e))))"

lemma lookup_rel_refl: "lookup_rel (\<lambda>_. 0) s s"
  unfolding lookup_rel_def by (rule exI [of _ "\<lambda>e. eref (ventry_of s e)"], rule exI [of _ "hash_table s"]) simp

lemma lookup_rel_trans:
  assumes "lookup_rel d s s'" "lookup_rel d' s' s''"
  shows "lookup_rel (\<lambda>e. d e + d' e) s s''"
proof -
  obtain r h where 1: "s' = s\<lparr>ventry_of := (\<lambda>e. (ventry_of s e)\<lparr>eref := r e\<rparr>), hash_table := h\<rparr>"
    "\<forall>e. ref_count (r e) = ref_count (eref (ventry_of s e)) + d e \<and> (lock_free (eref (ventry_of s e)) \<longrightarrow> lock_free (r e))"
    using assms(1) unfolding lookup_rel_def by blast
  obtain r' h' where 2: "s'' = s'\<lparr>ventry_of := (\<lambda>e. (ventry_of s' e)\<lparr>eref := r' e\<rparr>), hash_table := h'\<rparr>"
    "\<forall>e. ref_count (r' e) = ref_count (eref (ventry_of s' e)) + d' e \<and> (lock_free (eref (ventry_of s' e)) \<longrightarrow> lock_free (r' e))"
    using assms(2) unfolding lookup_rel_def by blast
  show ?thesis unfolding lookup_rel_def
  proof (rule exI [of _ r'], rule exI [of _ h'], intro conjI)
    show "s'' = s\<lparr>ventry_of := (\<lambda>e. (ventry_of s e)\<lparr>eref := r' e\<rparr>), hash_table := h'\<rparr>" by (simp add: 1(1) 2(1))
    show "\<forall>e. ref_count (r' e) = ref_count (eref (ventry_of s e)) + (d e + d' e) \<and>
        (lock_free (eref (ventry_of s e)) \<longrightarrow> lock_free (r' e))"
      using 1(2) 2(2) unfolding 1(1) by (simp add: add.assoc)
  qed
qed

text \<open>The specification does not see these changes.\<close>

lemma lookup_rel_fields:
  assumes "lookup_rel d s s'"
  shows "ename (ventry_of s' e) = ename (ventry_of s e)" "enode (ventry_of s' e) = enode (ventry_of s e)"
    "eparent (ventry_of s' e) = eparent (ventry_of s e)" "echildren (ventry_of s' e) = echildren (ventry_of s e)"
    "emount (ventry_of s' e) = emount (ventry_of s e)" "ventry_live s' = ventry_live s" "vnode_live s' = vnode_live s"
    "vnode_of s' = vnode_of s" "mount_of s' = mount_of s" "super_of s' = super_of s" "mounts s' = mounts s"
    "root_node s' = root_node s" "current_task s' = current_task s" "task_of s' = task_of s"
    "lock_free (eref (ventry_of s e)) \<Longrightarrow> lock_free (eref (ventry_of s' e))"
    "ref_count (eref (ventry_of s' e)) = ref_count (eref (ventry_of s e)) + d e"
  using assms unfolding lookup_rel_def by auto

lemma lookup_rel_spec:
  assumes "lookup_rel d s s'"
  shows "is_dir s' e = is_dir s e" "mount_root s' m = mount_root s m" "entered s' e = entered s e"
    "upward s' e = upward s e" "child s' e name = child s e name" "walk_step s' e name = walk_step s e name"
    "entry_key (ventry_of s') e = entry_key (ventry_of s) e"
proof -
  note f = lookup_rel_fields [OF assms]
  have m: "mount_root s' m = mount_root s m" for m by (simp add: mount_root_def f)
  show 1: "is_dir s' e = is_dir s e" "mount_root s' m = mount_root s m" "entered s' e = entered s e"
    "upward s' e = upward s e" "child s' e name = child s e name" for e m name
    by (auto simp: is_dir_def m entered_def upward_def child_def f split: option.split)
  show "walk_step s' e name = walk_step s e name" by (simp add: walk_step_def 1)
  show "entry_key (ventry_of s') e = entry_key (ventry_of s) e" by (simp add: entry_key_def f)
qed

lemma lookup_rel_walk: "lookup_rel d s s' \<Longrightarrow> walk p s' e names = walk p s e names"
  by (induction p s e names rule: walk.induct) (simp_all add: lookup_rel_spec)

lemma lookup_rel_inv:
  assumes "lookup_rel d s s'" "tree_inv s" "cache_ok s'"
  shows "tree_inv s'"
proof -
  note f = lookup_rel_fields [OF assms(1)] and g = lookup_rel_spec [OF assms(1)]
  have "entry_ok s' e" if "ventry_live s e" for e
    using tree_inv_entry [OF assms(2) that] unfolding entry_ok_def by (simp add: f g)
  then show ?thesis using assms(2,3) unfolding tree_inv_def f by blast
qed

lemma cache_ok_rel:
  assumes "lookup_rel d s s'" "cache_ok s" "hash_table s' = hash_table s"
  shows "cache_ok s'"
  using assms(2) unfolding cache_ok_def by (simp add: assms(3) lookup_rel_fields [OF assms(1)] lookup_rel_spec [OF assms(1)])

text \<open>The walk sees the entries, the nodes, the mounts and the root, and nothing else of the state.\<close>

lemma walk_cong:
  assumes "ventry_of s' = ventry_of s" "vnode_of s' = vnode_of s" "mounts s' = mounts s" "mount_of s' = mount_of s"
    "super_of s' = super_of s" "root_node s' = root_node s"
  shows "walk p s' e names = walk p s e names"
proof -
  have m: "mount_root s' = mount_root s" by (rule ext) (simp add: mount_root_def assms)
  have d: "is_dir s' x = is_dir s x" for x by (simp add: is_dir_def assms)
  have w: "walk_step s' x name = walk_step s x name" for x name
    unfolding walk_step_def upward_def child_def entered_def m assms by (rule refl)
  show ?thesis
  proof (induction names arbitrary: e)
    case (Cons name names)
    then show ?case by (cases e) (simp_all add: d w)
  qed simp
qed

section \<open>References\<close>

lemma upd_entry_rel:
  assumes "ref_count ref = ref_count (eref (ventry_of s e)) + k" "lock_free (eref (ventry_of s e)) \<longrightarrow> lock_free ref"
  shows "lookup_rel (\<lambda>x. if x = e then k else 0) s (upd_entry e (\<lambda>x. x\<lparr>eref := ref\<rparr>) s)"
proof -
  let ?r = "\<lambda>x. if x = e then ref else eref (ventry_of s x)"
  have "(ventry_of s)(e := (ventry_of s e)\<lparr>eref := ref\<rparr>) = (\<lambda>x. (ventry_of s x)\<lparr>eref := ?r x\<rparr>)" by (rule ext) simp
  then show ?thesis unfolding lookup_rel_def upd_entry_def using assms
    by (intro exI [of _ ?r] exI [of _ "hash_table s"] conjI) auto
qed

lemma ventry_ref_rel:
  assumes "tree_inv s" "ventry_live s e"
  shows "\<exists>s'. ventry_ref e s = Some s' \<and> lookup_rel (\<lambda>x. if x = e then 1 else 0) s s' \<and> hash_table s' = hash_table s"
proof -
  let ?ref = "reflock_acquire (eref (ventry_of s e))"
  have "ventry_ref e s = Some (upd_entry e (\<lambda>x. x\<lparr>eref := ?ref\<rparr>) s)"
    using assms(2) by (simp add: ventry_ref_def get_entry_def upd_entry_def)
  moreover have "lookup_rel (\<lambda>x. if x = e then 1 else 0) s (upd_entry e (\<lambda>x. x\<lparr>eref := ?ref\<rparr>) s)"
    by (rule upd_entry_rel) (simp_all add: reflock_acquire_def lock_free_def)
  ultimately show ?thesis by (simp add: upd_entry_def)
qed

lemma ventry_put_held:
  assumes "ventry_live s e" "lock_free (eref (ventry_of s e))" "enode (ventry_of s e) \<noteq> None"
  shows "\<exists>s'. ventry_put e s = Some s' \<and> lookup_rel (\<lambda>x. if x = e then -1 else 0) s s' \<and> hash_table s' = hash_table s"
proof -
  have "\<exists>ref. ventry_put e s = Some (upd_entry e (\<lambda>x. x\<lparr>eref := ref\<rparr>) s) \<and>
    ref_count ref = ref_count (eref (ventry_of s e)) + -1 \<and> lock_free ref"
    using assms
    by (auto simp: ventry_put_def get_entry_def reflock_release_or_lock_def spinlock_acquire_def spinlock_release_def
        take_ticket_def serves_def lock_free_def Let_def)
  then show ?thesis using upd_entry_rel by (fastforce simp: upd_entry_def)
qed

lemma ventry_put_rel:
  assumes "tree_inv s" "ventry_live s e"
  shows "\<exists>s'. ventry_put e s = Some s' \<and> lookup_rel (\<lambda>x. if x = e then -1 else 0) s s' \<and> hash_table s' = hash_table s"
  using tree_inv_entry [OF assms] assms(2) by (intro ventry_put_held) (auto simp: entry_ok_def)

lemma lookup_rel_cong: "lookup_rel d s s' \<Longrightarrow> (\<And>e. d e = d' e) \<Longrightarrow> lookup_rel d' s s'"
  unfolding lookup_rel_def by simp

lemma ref:
  assumes "tree_inv s" "ventry_live s e"
  shows "\<exists>s'. ventry_ref e s = Some s' \<and> lookup_rel (\<lambda>x. if x = e then 1 else 0) s s' \<and> tree_inv s' \<and> ventry_live s' e"
proof -
  obtain s' where s': "ventry_ref e s = Some s'" "lookup_rel (\<lambda>x. if x = e then 1 else 0) s s'" "hash_table s' = hash_table s"
    using ventry_ref_rel [OF assms] by blast
  then show ?thesis using lookup_rel_inv [OF s'(2) assms(1)] cache_ok_rel [OF s'(2) _ s'(3)] assms lookup_rel_fields(6) [OF s'(2)]
    by (auto simp: tree_inv_def)
qed

text \<open>Giving back a reference taken before.\<close>

lemma unref:
  assumes "tree_inv s1" "ventry_live s1 e" "lookup_rel (\<lambda>x. if x = e then 1 else 0) s s1"
  shows "\<exists>s2. ventry_put e s1 = Some s2 \<and> lookup_rel (\<lambda>_. 0) s s2 \<and> tree_inv s2"
proof -
  obtain s2 where s2: "ventry_put e s1 = Some s2" "lookup_rel (\<lambda>x. if x = e then -1 else 0) s1 s2" "hash_table s2 = hash_table s1"
    using ventry_put_rel [OF assms(1,2)] by blast
  moreover have "lookup_rel (\<lambda>_. 0) s s2" using lookup_rel_trans [OF assms(3) s2(2)] by (rule lookup_rel_cong) simp
  ultimately show ?thesis using lookup_rel_inv [OF s2(2) assms(1)] cache_ok_rel [OF s2(2) _ s2(3)] assms(1) by (auto simp: tree_inv_def)
qed

section \<open>The cache\<close>

lemma child_find:
  assumes "tree_inv s" "ventry_live s d" "c \<in> set (echildren (ventry_of s d))"
  shows "child s d (ename (ventry_of s c)) = Some c"
proof -
  have "distinct (map (\<lambda>c. ename (ventry_of s c)) (echildren (ventry_of s d)))"
    using tree_inv_entry [OF assms(1,2)] by (simp add: entry_ok_def)
  then show ?thesis using assms(3) unfolding child_def by (rule find_distinct)
qed

lemma child_live:
  assumes "tree_inv s" "ventry_live s d" "child s d name = Some c"
  shows "ventry_live s c" "eparent (ventry_of s c) = Some d" "c \<in> set (echildren (ventry_of s d))" "ename (ventry_of s c) = name"
    "name_ok name"
proof -
  have c: "c \<in> set (echildren (ventry_of s d))" "ename (ventry_of s c) = name"
    using assms(3) by (auto simp: child_def find_Some_iff)
  then show "ventry_live s c" "eparent (ventry_of s c) = Some d" "c \<in> set (echildren (ventry_of s d))" "ename (ventry_of s c) = name"
    "name_ok name" using tree_inv_entry [OF assms(1,2)] by (auto simp: entry_ok_def)
qed

lemma dcache_get_child:
  assumes "tree_inv s" "length name < 64"
  shows "\<exists>c. dcache_get (Some d) name s = Some c \<and>
    (\<forall>e. c = Some e \<longrightarrow> ventry_live s d \<and> child s d name = Some e)"
proof -
  have ok: "cache_ok s" using assms(1) by (simp add: tree_inv_def)
  have "dcache_get (Some d) name s = Some (dcache_find (ventry_of s) (Some d, name) (hash_table s))"
    using ok assms(2) by (auto simp: dcache_get_def cache_ok_def Let_def list_all_iff)
  moreover have "ventry_live s d \<and> child s d name = Some e" if "dcache_find (ventry_of s) (Some d, name) (hash_table s) = Some e" for e
  proof -
    have k: "entry_key (ventry_of s) e = (Some d, name)" "e \<in> set (hash_table s (dcache_hash (Some d, name)))"
      using dcache.get_Some [OF that] by auto
    then have "ventry_live s d \<and> e \<in> set (echildren (ventry_of s d)) \<and> ename (ventry_of s e) = name"
      using ok unfolding cache_ok_def entry_key_def by fastforce
    then show ?thesis using child_find [OF assms(1)] by auto
  qed
  ultimately show ?thesis by blast
qed

lemma dcache_insert_rel:
  assumes "tree_inv s" "ventry_live s d" "child s d name = Some c"
  shows "\<exists>s'. dcache_insert c s = Some s' \<and> lookup_rel (\<lambda>_. 0) s s' \<and> tree_inv s'"
proof -
  let ?s = "s\<lparr>hash_table := dcache_link (ventry_of s) c (hash_table s)\<rparr>"
  note c = child_live [OF assms]
  have "lookup_rel (\<lambda>_. 0) s ?s" unfolding lookup_rel_def
    by (rule exI [of _ "\<lambda>e. eref (ventry_of s e)"], rule exI [of _ "hash_table ?s"]) simp
  moreover have "cache_ok ?s" using assms(1,2) c(1-3) unfolding tree_inv_def cache_ok_def dcache_link_def Let_def by auto
  ultimately show ?thesis using c(1) lookup_rel_inv [OF _ assms(1)] by (auto simp: dcache_insert_def get_entry_def)
qed

section \<open>The walk\<close>

lemma walk_step_live:
  assumes "tree_inv s" "ventry_live s e" "walk_step s e name = Some e'"
  shows "ventry_live s e'"
proof -
  have ok: "entry_ok s e" using tree_inv_entry [OF assms(1,2)] .
  have root: "ventry_live s (root_node s)" using assms(1) by (simp add: tree_inv_def)
  have up: "ventry_live s e'" if u: "upward s e = Some e'"
  proof (cases "eparent (ventry_of s e)")
    case (Some p)
    then show ?thesis using that ok by (simp add: upward_def entry_ok_def)
  next
    case None
    then obtain m where m: "find (\<lambda>m. mount_root s m = e) (mounts s) = Some m"
      using u by (cases "find (\<lambda>m. mount_root s m = e) (mounts s)") (simp_all add: upward_def)
    then have "m \<in> set (mounts s)" by (auto simp: find_Some_iff)
    then have "entry_ok s (mountpoint (mount_of s m))" using assms(1) tree_inv_entry [OF assms(1)] by (auto simp: tree_inv_def)
    then show ?thesis using that m None root by (auto simp: upward_def entry_ok_def split: if_splits)
  qed
  have "ventry_live s (entered s e)" using ok assms(2) by (auto simp: entered_def entry_ok_def split: option.split)
  then show ?thesis using assms up child_live(1) by (fastforce simp: walk_step_def split: if_splits)
qed

lemma walk_live:
  assumes "tree_inv s" "walk p s (Some e) names = Inr (Some r)" "ventry_live s e"
  shows "ventry_live s r"
  using assms(2,3)
proof (induction names arbitrary: e)
  case (Cons name names)
  show ?case
  proof (cases "walk_step s e name")
    case None
    then show ?thesis using Cons.prems by (cases names) (auto split: if_splits)
  next
    case (Some e')
    then show ?thesis using Cons walk_step_live [OF assms(1) Cons.prems(2) Some] by (auto split: if_splits)
  qed
qed simp

lemma components_after: "path_components (drop 1 (dropWhile (\<lambda>c. c \<noteq> CHR ''/'') cs)) = path_components (dropWhile (\<lambda>c. c \<noteq> CHR ''/'') cs)"
proof (cases "dropWhile (\<lambda>c. c \<noteq> CHR ''/'') cs")
  case (Cons c xs)
  then have "c = CHR ''/''" using hd_dropWhile [of "\<lambda>c. c \<noteq> CHR ''/''" cs] by simp
  then show ?thesis unfolding Cons by simp
next
  case Nil
  then show ?thesis unfolding Nil by simp
qed

lemma components_none: "path_components cs = [] \<longleftrightarrow> list_all (\<lambda>c. c = CHR ''/'') cs"
  by (induction cs) auto

lemma components_length: "name \<in> set (path_components cs) \<Longrightarrow> length name \<le> length cs"
proof (induction cs rule: path_components.induct)
  case (2 c cs)
  show ?case
  proof (cases "c = CHR ''/''")
    case True
    then show ?thesis using 2 by simp
  next
    case False
    then consider "name = c # takeWhile (\<lambda>c. c \<noteq> CHR ''/'') cs" | "name \<in> set (path_components (dropWhile (\<lambda>c. c \<noteq> CHR ''/'') cs))"
      using "2.prems" by auto
    then show ?thesis
    proof cases
      case 1
      then show ?thesis using length_takeWhile_le [of "\<lambda>c. c \<noteq> CHR ''/''" cs] by simp
    next
      case 2
      then have "length name \<le> length (dropWhile (\<lambda>c. c \<noteq> CHR ''/'') cs)" using "2.IH"(2) [OF False] by blast
      also have "\<dots> \<le> length (c # cs)" using length_dropWhile_le [of "\<lambda>c. c \<noteq> CHR ''/''" cs] by simp
      finally show ?thesis .
    qed
  qed
qed simp

lemma components_single: "cs \<noteq> [] \<Longrightarrow> CHR ''/'' \<notin> set cs \<Longrightarrow> path_components cs = [cs]"
proof (cases cs)
  case (Cons c xs)
  assume "CHR ''/'' \<notin> set cs"
  then have "takeWhile (\<lambda>c. c \<noteq> CHR ''/'') xs = xs" "dropWhile (\<lambda>c. c \<noteq> CHR ''/'') xs = []" "c \<noteq> CHR ''/''"
    using Cons by (auto simp: takeWhile_eq_all_conv dropWhile_eq_Nil_conv)
  then show ?thesis unfolding Cons path_components.simps by (simp only: if_False path_components.simps)
qed simp

section \<open>The contract of a file system\<close>

locale tree_driver =
  fixes K :: "('a vfs_scheme) kernel_ops"
  assumes lookup_child: "\<lbrakk>tree_inv s; ventry_live s e; enode (ventry_of s e) = Some n; niops (vnode_of s n) = Some i\<rbrakk> \<Longrightarrow>
      \<exists>lookup s'. op_lookup (iops_tab K i) = Some lookup \<and> lookup e name s = Some (child s e name, s') \<and>
        lookup_rel (\<lambda>_. 0) s s' \<and> hash_table s' = hash_table s"
    and super_root: "op_root (sb_tab K k) sb s = Some (Inr (sdata (super_of s sb)), s)"
begin

lemma in_dir:
  assumes "tree_inv s" "ventry_live s d" "length name < 64"
  shows "\<exists>s'. lookup_in_dir K d name s = Some (Inr (child s d name), s') \<and> lookup_rel (\<lambda>_. 0) s s' \<and> tree_inv s'"
proof -
  obtain c where c: "dcache_get (Some d) name s = Some c" "\<forall>e. c = Some e \<longrightarrow> ventry_live s d \<and> child s d name = Some e"
    using dcache_get_child [OF assms(1,3)] by blast
  obtain n i where n: "enode (ventry_of s d) = Some n" "vnode_live s n" "niops (vnode_of s n) = Some i"
    using tree_inv_entry [OF assms(1,2)] by (auto simp: entry_ok_def)
  obtain lookup s1 where l: "op_lookup (iops_tab K i) = Some lookup" "lookup d name s = Some (child s d name, s1)"
    "lookup_rel (\<lambda>_. 0) s s1" "hash_table s1 = hash_table s" using lookup_child [OF assms(1,2) n(1,3)] by blast
  have i1: "tree_inv s1"
    using lookup_rel_inv [OF l(3) assms(1)] cache_ok_rel [OF l(3)] l(4) assms(1) by (simp add: tree_inv_def)
  show ?thesis
  proof (cases c)
    case (Some e)
    then show ?thesis using c assms(1) lookup_rel_refl by (auto simp: lookup_in_dir_def)
  next
    case None
    have base: "lookup_in_dir K d name s =
      (case child s d name of None \<Rightarrow> Some (Inr (child s d name), s1) | Some e \<Rightarrow> do { s2 \<leftarrow> dcache_insert e s1; Some (Inr (child s d name), s2) })"
      using None c(1) n l(1,2) assms(2) by (auto simp: lookup_in_dir_def get_entry_def get_node_def split: option.split)
    show ?thesis
    proof (cases "child s d name")
      case None
      then show ?thesis using base l(3) i1 by auto
    next
      case (Some e)
      have "child s1 d name = Some e" "ventry_live s1 d"
        using Some assms(2) lookup_rel_spec(5) [OF l(3)] lookup_rel_fields(6) [OF l(3)] by simp_all
      then obtain s2 where "dcache_insert e s1 = Some s2" "lookup_rel (\<lambda>_. 0) s1 s2" "tree_inv s2"
        using dcache_insert_rel [OF i1] by blast
      then show ?thesis using base Some lookup_rel_trans [OF l(3), of "\<lambda>_. 0" s2] by simp
    qed
  qed
qed

lemma name:
  assumes "tree_inv s" "ventry_live s d" "length name < 64"
  shows "\<exists>held s'. lookup_name K d name s = Some ((held, Inr (child s (entered s d) name)), s') \<and> ventry_live s held \<and>
    lookup_rel (\<lambda>e. (if e = d then -1 else 0) + (if e = held then 1 else 0)) s s' \<and> tree_inv s'"
proof (cases "d \<noteq> root_node s \<and> emount (ventry_of s d) \<noteq> None")
  case False
  then have "entered s d = d" by (auto simp: entered_def split: option.split)
  moreover obtain s' where "lookup_in_dir K d name s = Some (Inr (child s d name), s')" "lookup_rel (\<lambda>_. 0) s s'" "tree_inv s'"
    using in_dir [OF assms] by blast
  moreover have "(\<lambda>e. (if e = d then -1 else 0) + (if e = d then 1 else (0 :: u32))) = (\<lambda>_. 0)" by auto
  ultimately show ?thesis using assms(2) False by (intro exI [of _ d] exI [of _ s']) (auto simp: lookup_name_def get_entry_def)
next
  case True
  then obtain m where m: "emount (ventry_of s d) = Some m" by blast
  let ?h = "mount_root s m"
  have h: "entered s d = ?h" "ventry_live s ?h"
    using True m tree_inv_entry [OF assms(1,2)] by (auto simp: entered_def entry_ok_def)
  have trav: "traverse_mount K d s = Some (Some ?h, s)"
    using m assms(2) by (simp add: traverse_mount_def get_entry_def super_root mount_root_def)
  obtain s1 where s1: "ventry_put d s = Some s1" "lookup_rel (\<lambda>x. if x = d then -1 else 0) s s1" "hash_table s1 = hash_table s"
    using ventry_put_rel [OF assms(1,2)] by blast
  have i1: "tree_inv s1" using lookup_rel_inv [OF s1(2) assms(1)] cache_ok_rel [OF s1(2) _ s1(3)] assms(1) by (simp add: tree_inv_def)
  have h1: "ventry_live s1 ?h" using h(2) lookup_rel_fields(6) [OF s1(2)] by simp
  obtain s2 where s2: "ventry_ref ?h s1 = Some s2" "lookup_rel (\<lambda>x. if x = ?h then 1 else 0) s1 s2" "hash_table s2 = hash_table s1"
    using ventry_ref_rel [OF i1 h1] by blast
  have i2: "tree_inv s2" using lookup_rel_inv [OF s2(2) i1] cache_ok_rel [OF s2(2) _ s2(3)] i1 by (simp add: tree_inv_def)
  have h2: "ventry_live s2 ?h" using h1 lookup_rel_fields(6) [OF s2(2)] by simp
  obtain s3 where s3: "lookup_in_dir K ?h name s2 = Some (Inr (child s2 ?h name), s3)" "lookup_rel (\<lambda>_. 0) s2 s3" "tree_inv s3"
    using in_dir [OF i2 h2 assms(3)] by blast
  have "child s2 ?h name = child s ?h name" using lookup_rel_spec(5) [OF s1(2)] lookup_rel_spec(5) [OF s2(2)] by simp
  moreover have "lookup_rel (\<lambda>e. (if e = d then -1 else 0) + (if e = ?h then 1 else 0)) s s3"
    using lookup_rel_trans [OF lookup_rel_trans [OF s1(2) s2(2)] s3(2)] by simp
  ultimately show ?thesis using True m assms(2) trav s1(1) s2(1) s3(1,3) h
    by (intro exI [of _ ?h] exI [of _ s3]) (simp add: lookup_name_def get_entry_def)
qed

lemma mount_up: "mount_parent K e ms s = Some (case find (\<lambda>m. mount_root s m = e) ms of None \<Rightarrow> None
    | Some m \<Rightarrow> if mountpoint (mount_of s m) = root_node s then Some (root_node s) else eparent (ventry_of s (mountpoint (mount_of s m))), s)"
  if "\<forall>m\<in>set ms. ventry_live s (mountpoint (mount_of s m))"
  using that by (induction ms) (auto simp: super_root mount_root_def get_entry_def)

lemma component:
  assumes "tree_inv s" "ventry_live s d" "length name < 64"
  shows "\<exists>held s'. lookup_component K d name s = Some ((held, Inr (walk_step s d name)), s') \<and> ventry_live s held \<and>
    lookup_rel (\<lambda>e. (if e = d then -1 else 0) + (if e = held then 1 else 0)) s s' \<and> tree_inv s'"
proof -
  have z: "(\<lambda>e. (if e = d then -1 else 0) + (if e = d then 1 else (0 :: u32))) = (\<lambda>_. 0)" by auto
  have "\<forall>m\<in>set (mounts s). ventry_live s (mountpoint (mount_of s m))" using assms(1) by (simp add: tree_inv_def)
  note up = mount_up [OF this]
  consider "name = ''.''" | "name = ''..''" | "name \<noteq> ''.''" "name \<noteq> ''..''" by blast
  then show ?thesis
  proof cases
    case 3
    then show ?thesis using name [OF assms] by (simp add: lookup_component_def walk_step_def)
  qed (use assms lookup_rel_refl [of s] up in \<open>auto intro!: exI [of _ d] exI [of _ s]
      simp: z lookup_component_def walk_step_def get_entry_def upward_def split: option.split\<close>)
qed

lemma loop:
  assumes "tree_inv s" "\<forall>e. current = Some e \<longrightarrow> ventry_live s e" "\<forall>name\<in>set (path_components rest). length name < 64"
  shows "\<exists>s'. lookup_loop K flags current rest s = Some (walk (flags AND LOOKUP_PARENT \<noteq> 0) s current (path_components rest), s') \<and>
    lookup_rel (\<lambda>_. 0) s s' \<and> tree_inv s'"
  using assms
proof (induction "length rest" arbitrary: current rest s rule: less_induct)
  case less
  show ?case
  proof (cases rest)
    case Nil
    then show ?thesis using less.prems(1) lookup_rel_refl by auto
  next
    case (Cons c cs)
    show ?thesis
    proof (cases "c = CHR ''/'' \<or> current = None")
      case True
      then show ?thesis using Cons less.hyps [of cs s current] less.prems lookup_rel_refl
        by (cases "c = CHR ''/''") (auto simp: lookup_loop.simps(2))
    next
      case False
      then obtain e where e: "current = Some e" by blast
      let ?after = "dropWhile (\<lambda>c. c \<noteq> CHR ''/'') cs" and ?name = "c # takeWhile (\<lambda>c. c \<noteq> CHR ''/'') cs"
      let ?p = "flags AND LOOKUP_PARENT \<noteq> 0"
      have comps: "path_components rest = ?name # path_components ?after" using Cons False by simp
      have live: "ventry_live s e" using less.prems(2) e by simp
      obtain s1 where s1: "ventry_ref e s = Some s1" "lookup_rel (\<lambda>x. if x = e then 1 else 0) s s1" "tree_inv s1" "ventry_live s1 e"
        using ref [OF less.prems(1) live] by blast
      obtain n where n: "enode (ventry_of s1 e) = Some n" "vnode_live s1 n"
        using tree_inv_entry [OF s1(3,4)] by (auto simp: entry_ok_def)
      have dir: "S_ISDIR (nmode (vnode_of s1 n)) = is_dir s e"
        using n lookup_rel_spec(1) [OF s1(2), of e] by (auto simp: is_dir_def)
      obtain s2 where s2: "ventry_put e s1 = Some s2" "lookup_rel (\<lambda>_. 0) s s2" "tree_inv s2"
        using unref [OF s1(3,4) s1(2)] by auto
      have step: "lookup_loop K flags current rest s =
        (if \<not> is_dir s e then Some (Inl ENOTDIR, s2)
         else if ?p \<and> path_components ?after = [] then Some (Inr (Some e), s2)
         else do { ((held, next), s) \<leftarrow> lookup_component K e ?name s1; s \<leftarrow> ventry_put held s;
                   (case next of Inl e \<Rightarrow> Some (Inl e, s) | Inr next \<Rightarrow> lookup_loop K flags next (drop 1 ?after) s) })"
        using False e Cons s1(1,4) n s2(1) dir by (simp add: lookup_loop.simps(2) get_entry_def get_node_def components_none)
      show ?thesis
      proof (cases "is_dir s e \<and> \<not> (?p \<and> path_components ?after = [])")
        case False
        then show ?thesis using step comps e s2 by auto
      next
        case True
        have "length ?name < 64" using less.prems(3) comps by simp
        then obtain held s3 where s3: "lookup_component K e ?name s1 = Some ((held, Inr (walk_step s1 e ?name)), s3)" "ventry_live s1 held"
          "lookup_rel (\<lambda>x. (if x = e then -1 else 0) + (if x = held then 1 else 0)) s1 s3" "tree_inv s3"
          using component [OF s1(3,4)] by blast
        have "lookup_rel (\<lambda>x. if x = held then 1 else 0) s s3" using lookup_rel_trans [OF s1(2) s3(3)] by (rule lookup_rel_cong) auto
        then obtain s4 where s4: "ventry_put held s3 = Some s4" "lookup_rel (\<lambda>_. 0) s s4" "tree_inv s4"
          using unref [OF s3(4)] s3(2) lookup_rel_fields(6) [OF s3(3)] by metis
        have ws: "walk_step s1 e ?name = walk_step s e ?name" using lookup_rel_spec(6) [OF s1(2)] .
        have "\<forall>e'. walk_step s e ?name = Some e' \<longrightarrow> ventry_live s4 e'"
          using walk_step_live [OF less.prems(1) live] lookup_rel_fields(6) [OF s4(2)] by simp
        moreover have "length (drop 1 ?after) < length rest" using Cons length_dropWhile_le [of _ cs] by (simp add: dropWhile_shorter)
        moreover have "\<forall>name\<in>set (path_components (drop 1 ?after)). length name < 64" using less.prems(3) comps components_after by simp
        ultimately obtain s' where s': "lookup_loop K flags (walk_step s e ?name) (drop 1 ?after) s4 =
            Some (walk ?p s4 (walk_step s e ?name) (path_components (drop 1 ?after)), s')" "lookup_rel (\<lambda>_. 0) s4 s'" "tree_inv s'"
          using less.hyps [of "drop 1 ?after" s4 "walk_step s e ?name"] s4(3) by blast
        have "lookup_rel (\<lambda>_. 0) s s'" using lookup_rel_trans [OF s4(2) s'(2)] by simp
        moreover have "lookup_loop K flags current rest s = Some (walk ?p s current (path_components rest), s')"
          using step True s3(1) ws s4(1) s'(1) comps e lookup_rel_walk [OF s4(2)] by (auto simp: components_after [simplified])
        ultimately show ?thesis using s'(3) by blast
      qed
    qed
  qed
qed

lemma enter:
  assumes "tree_inv s" "ventry_live s e" shows "enter_mount K e s = Some (Some (entered s e), s)"
  using assms by (auto simp: enter_mount_def entered_def traverse_mount_def get_entry_def super_root mount_root_def split: option.split)

lemma lookup_at:
  assumes "tree_inv s" "ventry_live s d" "length name < 64" "entered s d = d"
  shows "\<exists>s'. vfs_lookup_at K (Some d) name flags s = Some (lookup_spec (flags AND LOOKUP_PARENT \<noteq> 0) s d name, s') \<and>
    lookup_rel (\<lambda>_. 0) s s' \<and> tree_inv s'"
proof -
  let ?p = "flags AND LOOKUP_PARENT \<noteq> 0"
  obtain c where c: "dcache_get (Some d) name s = Some c" "\<forall>e. c = Some e \<longrightarrow> ventry_live s d \<and> child s d name = Some e"
    using dcache_get_child [OF assms(1,3)] by blast
  show ?thesis
  proof (cases c)
    case (Some e)
    then have ch: "child s d name = Some e" using c(2) by simp
    note e = child_live [OF assms(1,2) ch]
    have dir: "is_dir s d" using e(3) tree_inv_entry [OF assms(1,2)] by (auto simp: entry_ok_def)
    have "path_components name = [name]" using e(5) components_single by (simp add: name_ok_def)
    moreover have "walk_step s d name = Some e" using ch assms(4) e(5) by (simp add: walk_step_def name_ok_def)
    ultimately have "lookup_spec ?p s d name = Inr (entered s (if ?p then d else e))" using dir by (simp add: lookup_spec_def)
    moreover have "vfs_lookup_at K (Some d) name flags s = Some (Inr (entered s (if ?p then d else e)), s)"
      using Some c(1) e(1,2) enter [OF assms(1)] assms(2) by (simp add: vfs_lookup_at_def get_entry_def)
    ultimately show ?thesis using assms(1) lookup_rel_refl by auto
  next
    case None
    have "\<forall>x\<in>set (path_components name). length x < 64" using components_length [of _ name] assms(3) by fastforce
    then obtain s' where s': "lookup_loop K flags (Some d) name s = Some (walk ?p s (Some d) (path_components name), s')"
      "lookup_rel (\<lambda>_. 0) s s'" "tree_inv s'" using loop [OF assms(1), of "Some d" name flags] assms(2) by blast
    show ?thesis
    proof (cases "\<exists>r. walk ?p s (Some d) (path_components name) = Inr (Some r)")
      case True
      then obtain r where r: "walk ?p s (Some d) (path_components name) = Inr (Some r)" by blast
      then have "ventry_live s' r" using walk_live [OF assms(1) r assms(2)] lookup_rel_fields(6) [OF s'(2)] by simp
      then have "enter_mount K r s' = Some (Some (entered s r), s')" using enter [OF s'(3)] lookup_rel_spec(3) [OF s'(2)] by simp
      then show ?thesis using None c(1) s' r by (simp add: vfs_lookup_at_def lookup_spec_def)
    next
      case False
      then show ?thesis using None c(1) s' by (auto simp: vfs_lookup_at_def lookup_spec_def split: sum.split option.split)
    qed
  qed
qed

end

end
