(* ===== verification/Vfs_File.thy ===== *)
theory Vfs_File
  imports Vfs_Tree
begin

text \<open>
  The generic directory operations (\<^verbatim>\<open>fs/generic.c\<close>), the files of the memory file system
  (\<^verbatim>\<open>fs/ramfs/ramfs.c\<close>) and the file operations of the kernel (\<^verbatim>\<open>fs/vfs.c\<close>).  A position in the table of
  open files outside its 64 entries is \<^term>\<open>None\<close>.
\<close>

section \<open>Generic directories\<close>

text \<open>\<^verbatim>\<open>strncmp\<close> of names compares their first 64 characters.\<close>

fun generic_scan :: "string \<Rightarrow> nat list \<Rightarrow> 'a vfs_scheme \<Rightarrow> (nat option \<times> 'a vfs_scheme) option" where
  "generic_scan name [] s = Some (None, s)"
| "generic_scan name (c # cs) s = do {
     s \<leftarrow> ventry_ref c s;
     x \<leftarrow> get_entry c s;
     s \<leftarrow> ventry_put c s;
     if take 64 (ename x) = take 64 name then Some (Some c, s) else generic_scan name cs s
   }"

definition generic_fs_lookup :: "nat \<Rightarrow> string \<Rightarrow> 'a vfs_scheme \<Rightarrow> (nat option \<times> 'a vfs_scheme) option" where
  "generic_fs_lookup dir name s = do { x \<leftarrow> get_entry dir s; generic_scan name (echildren x) s }"

definition set_owner :: "nat \<Rightarrow> nat \<Rightarrow> 'a vfs_scheme \<Rightarrow> 'a vfs_scheme" where
  "set_owner cpu n s = (case smp_current_task cpu s of None \<Rightarrow> s
     | Some t \<Rightarrow> upd_node n (\<lambda>x. x\<lparr>nuid := euid (tcred (task_of s t)), ngid := egid (tcred (task_of s t))\<rparr>) s)"

text \<open>The new entry of a node, as the last child of a directory and in the cache.\<close>

definition add_child :: "nat \<Rightarrow> string \<Rightarrow> nat \<Rightarrow> 'a vfs_scheme \<Rightarrow> 'a vfs_scheme option" where
  "add_child dir name n s = do {
     (dirent, s) \<leftarrow> ventry_new name n s;
     let s = upd_entry dirent (\<lambda>x. x\<lparr>eparent := Some dir\<rparr>) s;
     let s = upd_entry dir (\<lambda>x. x\<lparr>echildren := echildren x @ [dirent]\<rparr>) s;
     dcache_insert dirent s
   }"

definition generic_fs_create :: "nat \<Rightarrow> nat \<Rightarrow> string \<Rightarrow> u32 \<Rightarrow> 'a vfs_scheme \<Rightarrow> (unit result \<times> 'a vfs_scheme) option" where
  "generic_fs_create cpu dir name mode s = do {
     x \<leftarrow> get_entry dir s;
     p \<leftarrow> enode x;
     pnode \<leftarrow> get_node p s;
     let (n, s) = vnode_new (S_IFREG OR mode) s;
     let s = upd_node n (\<lambda>x. x\<lparr>niops := niops pnode, nfops := nfops pnode\<rparr>) s;
     s \<leftarrow> add_child dir name n (set_owner cpu n s);
     Some (Inr (), s)
   }"

definition generic_fs_mkdir :: "nat \<Rightarrow> nat \<Rightarrow> string \<Rightarrow> u32 \<Rightarrow> 'a vfs_scheme \<Rightarrow> (unit result \<times> 'a vfs_scheme) option" where
  "generic_fs_mkdir cpu dir name mode s = do {
     x \<leftarrow> get_entry dir s;
     p \<leftarrow> enode x;
     pnode \<leftarrow> get_node p s;
     let (n, s) = vnode_new (S_IFDIR OR mode) s;
     let s = upd_node n (\<lambda>x. x\<lparr>niops := niops pnode, nfops := nfops pnode, nlink := nlink x + 1\<rparr>) s;
     let s = upd_node p (\<lambda>x. x\<lparr>nlink := nlink x + 1\<rparr>) (set_owner cpu n s);
     s \<leftarrow> add_child dir name n s;
     Some (Inr (), s)
   }"

definition generic_fs_mknod :: "nat \<Rightarrow> nat \<Rightarrow> string \<Rightarrow> u32 \<Rightarrow> u64 \<Rightarrow> 'a vfs_scheme \<Rightarrow> (unit result \<times> 'a vfs_scheme) option" where
  "generic_fs_mknod cpu dir name mode dev s = do {
     x \<leftarrow> get_entry dir s;
     p \<leftarrow> enode x;
     pnode \<leftarrow> get_node p s;
     let (n, s) = vnode_new mode s;
     if \<not> S_ISCHR mode \<and> \<not> S_ISBLK mode then Some (Inl EINVAL, s\<lparr>vnode_live := (vnode_live s)(n := False)\<rparr>)
     else do {
       ops \<leftarrow> (if S_ISCHR mode then map_option cfops (chardev_lookup dev (char_devs s))
              else map_option bfops (blockdev_lookup dev (block_devs s)));
       let s = upd_node n (\<lambda>x. x\<lparr>niops := niops pnode, nfops := Some ops, ndev := dev\<rparr>) s;
       s \<leftarrow> add_child dir name n (set_owner cpu n s);
       Some (Inr (), s)
     }
   }"

text \<open>A directory record: 19 bytes before the name, of which the size of the record is not zero.\<close>

definition dent_bytes :: "string \<Rightarrow> u8 list" where
  "dent_bytes name = (let reclen = 19 + length name + 1
     in replicate 16 0 @ [of_nat reclen, of_nat (reclen div 256), 0] @ map of_char name @ [0])"

fun dents_loop :: "u64 \<Rightarrow> u8 list \<Rightarrow> nat list \<Rightarrow> 'a vfs_scheme \<Rightarrow> (u8 list \<times> 'a vfs_scheme) option" where
  "dents_loop len out [] s = Some (out, s)"
| "dents_loop len out (c # cs) s =
     (if unat len \<le> length out then Some (out, s)
      else do {
        s \<leftarrow> ventry_ref c s;
        x \<leftarrow> get_entry c s;
        let s = upd_entry c (\<lambda>x. x\<lparr>eref := reflock_acquire (eref x)\<rparr>) s;
        s \<leftarrow> ventry_put c s;
        dents_loop len (out @ dent_bytes (ename x)) cs s
      })"

definition generic_fs_getdents :: "nat \<Rightarrow> u64 \<Rightarrow> 'a vfs_scheme \<Rightarrow> (u8 list result \<times> 'a vfs_scheme) option" where
  "generic_fs_getdents file len s =
     (if length (files s) \<le> file then None
      else do {
        let out = (if 0 < len then dent_bytes ''.'' else []);
        let out = (if length out < unat len then out @ dent_bytes ''..'' else out);
        e \<leftarrow> fpath (files s ! file);
        x \<leftarrow> get_entry e s;
        (out, s) \<leftarrow> dents_loop len out (echildren x) s;
        Some (Inr out, s)
      })"

section \<open>Files in memory\<close>

text \<open>The pages of a file are the pages of its data object; reading or writing through the list head, past the
  last page, is \<^term>\<open>None\<close>.  Positions and sizes are signed 64-bit numbers.\<close>

text \<open>The search for the page of a position: the first page, moved on once per 4096 bytes; the position within
  the list of pages, the list head being at its end.\<close>

function seek_page :: "nat \<Rightarrow> u64 \<Rightarrow> nat \<Rightarrow> nat option" where
  "seek_page pages rp i =
     (if 4096 \<le>s rp then if pages \<le> i then None else seek_page pages (rp - 4096) (i + 1) else Some i)"
  by pat_completeness auto
termination
  by (relation "measure (\<lambda>(pages, _, i). pages - i)") auto

declare seek_page.simps [simp del]

function read_loop :: "u8 list list \<Rightarrow> nat \<Rightarrow> u64 \<Rightarrow> u64 \<Rightarrow> u8 list \<Rightarrow> (u8 list \<times> u64) option" where
  "read_loop pages i p len out =
     (if len = 0 then Some (out, p)
      else if length pages \<le> i \<or> p <s 0 \<and> p AND 4095 \<noteq> 0 then None
      else let page_offset = p AND 4095;
               amount = (if len < 4096 - page_offset then len else 4096 - page_offset)
           in read_loop pages (i + 1) (p + amount) (len - amount)
                (out @ take (unat amount) (drop (unat page_offset) (pages ! i))))"
  by pat_completeness auto
termination
  by (relation "measure (\<lambda>(pages, i, _, _, _). length pages - i)") auto

declare read_loop.simps [simp del]

definition set_pos :: "nat \<Rightarrow> u64 \<Rightarrow> 'a vfs_scheme \<Rightarrow> 'a vfs_scheme" where
  "set_pos file p s = s\<lparr>files := (files s)[file := (files s ! file)\<lparr>fpos := p\<rparr>]\<rparr>"

definition ramfs_read :: "nat \<Rightarrow> u64 \<Rightarrow> 'a vfs_scheme \<Rightarrow> (u8 list result \<times> 'a vfs_scheme) option" where
  "ramfs_read file len s = (if length (files s) \<le> file then None else do {
     n \<leftarrow> finode (files s ! file);
     node \<leftarrow> get_node n s;
     (case ndata node of None \<Rightarrow> Some (Inr [], s)
      | Some d \<Rightarrow>
          let pages = file_pages s d; p = fpos (files s ! file)
          in (case seek_page (length pages) p 0 of None \<Rightarrow> Some (Inl ENXIO, s)
              | Some i \<Rightarrow> do {
                  (out, p) \<leftarrow> read_loop pages i p len [];
                  Some (Inr out, set_pos file p s)
                }))
   })"

text \<open>New pages for a file that grows by \<^term>\<open>req\<close> bytes.\<close>

lemma signed_steps: "4096 \<le> req" if "\<not> req <s (4096 :: u64)"
proof -
  have "4096 \<le> sint req" using that by (simp add: word_sless_alt not_less)
  then have "int 4096 \<le> int (unat req)" using sint_nonneg [of req] by simp
  then show ?thesis unfolding of_nat_le_iff by (simp add: word_le_nat_alt)
qed

lemma step_down: "4096 \<le> req \<Longrightarrow> unat (req - 4096) < unat (req :: u64)"
  by (simp add: unat_sub word_le_nat_alt)

function grow_loop :: "(nat \<Rightarrow> u8 list) \<Rightarrow> u64 \<Rightarrow> u8 list list \<Rightarrow> u64 \<Rightarrow> u8 list list \<times> u64" where
  "grow_loop new req pages fsize =
     (if req = 0 then (pages, fsize)
      else let pages = pages @ [new (length pages)]; fsize = fsize + 4096
           in if req <s 4096 then (pages, fsize) else grow_loop new (req - 4096) pages fsize)"
  by pat_completeness auto
termination
  by (relation "measure (\<lambda>(_, req, _, _). unat req)") (auto intro: step_down signed_steps)

declare grow_loop.simps [simp del]

text \<open>The same search without a test for the list head: the walk goes round.\<close>

function seek_around :: "nat \<Rightarrow> u64 \<Rightarrow> nat \<Rightarrow> nat" where
  "seek_around pages wp i =
     (if wp <s 4096 then i else seek_around pages (wp - 4096) (if i = pages then 0 else i + 1))"
  by pat_completeness auto
termination
  by (relation "measure (\<lambda>(_, wp, _). unat wp)") (auto intro: step_down signed_steps)

declare seek_around.simps [simp del]

function write_loop :: "u8 list list \<Rightarrow> nat \<Rightarrow> u64 \<Rightarrow> u8 list \<Rightarrow> (u8 list list \<times> u64) option" where
  "write_loop pages i p buffer =
     (if buffer = [] then Some (pages, p)
      else if length pages \<le> i \<or> p <s 0 \<and> p AND 4095 \<noteq> 0 then None
      else let page_offset = unat (p AND 4095);
               amount = min (length buffer) (4096 - page_offset);
               page = take page_offset (pages ! i) @ take amount buffer @ replicate (4096 - (page_offset + amount)) 0
           in write_loop (pages[i := page]) (i + 1) (p + of_nat amount) (drop amount buffer))"
  by pat_completeness auto
termination
  by (relation "measure (\<lambda>(pages, i, _, _). length pages - i)") auto

declare write_loop.simps [simp del]

definition grow_file :: "(nat \<Rightarrow> u8 list) \<Rightarrow> u64 \<Rightarrow> u8 list list \<Rightarrow> u64 \<Rightarrow> u8 list list \<times> u64" where
  "grow_file new wr_len pages fsize = (if fsize <s wr_len then grow_loop new (wr_len - fsize) pages fsize else (pages, fsize))"

text \<open>The object that holds the pages of a file, and the pages; the object is made with the first page.\<close>

definition file_data :: "'a vfs_scheme \<Rightarrow> vnode \<Rightarrow> nat \<times> u8 list list" where
  "file_data s node = (case ndata node of Some d \<Rightarrow> (d, file_pages s d) | None \<Rightarrow> (next_object s, []))"

text \<open>\<^term>\<open>new\<close> is what the pages handed out hold.  A file without pages has no list to walk.\<close>

definition ramfs_write :: "(nat \<Rightarrow> u8 list) \<Rightarrow> nat \<Rightarrow> u8 list \<Rightarrow> 'a vfs_scheme \<Rightarrow> (u64 result \<times> 'a vfs_scheme) option" where
  "ramfs_write new file buffer s = (if length (files s) \<le> file then None else do {
     n \<leftarrow> finode (files s ! file);
     node \<leftarrow> get_node n s;
     let p = fpos (files s ! file);
     let (d, old) = file_data s node;
     let (pages, fsize) = grow_file new (p + of_nat (length buffer)) old (nsize node);
     if ndata node = None \<and> pages = [] then None
     else do {
       let i = (if p = 0 then 0 else seek_around (length pages) p 0);
       (pages, p) \<leftarrow> write_loop pages i p buffer;
       let s = (if ndata node = None then s\<lparr>next_object := next_object s + 1\<rparr> else s);
       let s = s\<lparr>file_pages := (file_pages s)(d := pages)\<rparr>;
       let s = upd_node n (\<lambda>x. x\<lparr>nsize := fsize, ndata := Some d\<rparr>) s;
       Some (Inr (of_nat (length buffer)), set_pos file p s)
     }
   })"

definition ramfs_iops :: "nat \<Rightarrow> ('a vfs_scheme) inode_ops" where
  "ramfs_iops cpu = \<lparr>op_lookup = Some generic_fs_lookup, op_mkdir = Some (generic_fs_mkdir cpu),
     op_create = Some (generic_fs_create cpu), op_mknod = Some (generic_fs_mknod cpu),
     op_getdents = Some generic_fs_getdents\<rparr>"

definition ramfs_fops :: "(nat \<Rightarrow> u8 list) \<Rightarrow> ('a vfs_scheme) file_ops" where
  "ramfs_fops new = \<lparr>op_open = None, op_close = None, op_read = Some ramfs_read, op_write = Some (ramfs_write new),
     op_ioctl = None\<rparr>"

definition ramfs_table :: nat where "ramfs_table = 1"

definition ramfs_super_init :: "block_device option \<Rightarrow> 'a vfs_scheme \<Rightarrow> (nat result \<times> 'a vfs_scheme) option" where
  "ramfs_super_init bd s = do {
     let (n, s) = vnode_new (S_IFDIR OR 0x1ED) s;
     let s = upd_node n (\<lambda>x. x\<lparr>niops := Some ramfs_table, nfops := Some ramfs_table\<rparr>) s;
     (dentry, s) \<leftarrow> ventry_new ''ramfs'' n s;
     let sb = next_object s;
     Some (Inr sb, s\<lparr>super_of := (super_of s)(sb := \<lparr>sfs = None, sbdev = None, sdata = dentry\<rparr>), next_object := sb + 1\<rparr>)
   }"

definition ramfs_super_root :: "nat \<Rightarrow> 'a vfs_scheme \<Rightarrow> (nat result \<times> 'a vfs_scheme) option" where
  "ramfs_super_root sb s = Some (Inr (sdata (super_of s sb)), s)"

definition ramfs_init :: "'a vfs_scheme \<Rightarrow> 'a vfs_scheme" where
  "ramfs_init s = filesystem_register \<lparr>fs_name = [], fs_flags = FS_FLAG_NODEV, fs_iops = ramfs_table, fs_fops = ramfs_table,
     fs_sbops = ramfs_table\<rparr> ''ramfs'' s"

section \<open>The kernel's file operations\<close>

definition O_CREAT :: u32 where "O_CREAT = 0x40"
definition SEEK_SET :: u32 where "SEEK_SET = 0"
definition SEEK_CUR :: u32 where "SEEK_CUR = 1"
definition SEEK_END :: u32 where "SEEK_END = 2"
definition AT_FDCWD :: int where "AT_FDCWD = -100"
definition PATH_MAX :: u64 where "PATH_MAX = 256"

definition free_file :: file_descriptor where
  "free_file = \<lparr>fpos = 0, finode = None, fpath = None, fs_id = 0, refcount = 0\<rparr>"

definition vfs_init :: "'a vfs_scheme \<Rightarrow> 'a vfs_scheme option" where
  "vfs_init s = do {
     let s = ramfs_init s;
     ramfs \<leftarrow> filesystem_lookup ''ramfs'' s;
     let (rnode, s) = vnode_new (S_IFDIR OR 0x1FF) s;
     let s = upd_node rnode (\<lambda>x. x\<lparr>niops := Some (fs_iops ramfs), nfops := Some (fs_fops ramfs)\<rparr>) s;
     (root, s) \<leftarrow> ventry_new ''/'' rnode s;
     let mp = next_object s;
     let sb = mp + 1;
     let s = upd_entry root (\<lambda>x. x\<lparr>emount := Some mp\<rparr>) s;
     Some (s\<lparr>root_node := root, mount_of := (mount_of s)(mp := \<lparr>mfs = ramfs, msb = sb, mountpoint = root\<rparr>),
       super_of := (super_of s)(sb := \<lparr>sfs = Some ramfs, sbdev = None, sdata = root\<rparr>),
       next_object := sb + 1, mounts := [mp], files := replicate 64 free_file\<rparr>)
   }"

text \<open>The last component of a path: the part behind the last slash that is not the final character.  For the
  empty path the length minus one wraps around, and the scan leaves the string.\<close>

fun base_from :: "string \<Rightarrow> string \<Rightarrow> string" where
  "base_from best (c # c' # cs) = base_from (if c = CHR ''/'' then c' # cs else best) (c' # cs)"
| "base_from best cs = best"

definition base_name :: "string \<Rightarrow> string option" where
  "base_name name = (if name = [] then None else Some (base_from name name))"

text \<open>What creating a file, a directory and a device node have in common: the directory, the last component, and
  the table of operations of the directory's node, or the error.\<close>

definition vfs_new_entry ::
  "('a vfs_scheme) kernel_ops \<Rightarrow> string \<Rightarrow> 'a vfs_scheme \<Rightarrow> ((nat \<times> string \<times> ('a vfs_scheme) inode_ops) result \<times> 'a vfs_scheme) option" where
  "vfs_new_entry K name s = do {
     (dir, s) \<leftarrow> vfs_lookup K name LOOKUP_PARENT s;
     (case dir of Inl e \<Rightarrow> Some (Inl e, s)
      | Inr dir \<Rightarrow> do {
          base \<leftarrow> base_name name;
          (found, s) \<leftarrow> vfs_lookup_at K (Some dir) base 0 s;
          (case found of Inr _ \<Rightarrow> Some (Inl EEXIST, s)
           | Inl _ \<Rightarrow> do {
               x \<leftarrow> get_entry dir s;
               n \<leftarrow> enode x;
               node \<leftarrow> get_node n s;
               ops \<leftarrow> niops node;
               Some (Inr (dir, base, iops_tab K ops), s)
             })
        })
   }"

definition vfs_create :: "('a vfs_scheme) kernel_ops \<Rightarrow> string \<Rightarrow> u32 \<Rightarrow> 'a vfs_scheme \<Rightarrow> (unit result \<times> 'a vfs_scheme) option" where
  "vfs_create K name mode s = do {
     (r, s) \<leftarrow> vfs_new_entry K name s;
     (case r of Inl e \<Rightarrow> Some (Inl e, s)
      | Inr (dir, base, ops) \<Rightarrow>
          (case op_create ops of None \<Rightarrow> Some (Inl ENOENT, s) | Some create \<Rightarrow> create dir base mode s))
   }"

definition vfs_mkdir :: "('a vfs_scheme) kernel_ops \<Rightarrow> string \<Rightarrow> u32 \<Rightarrow> 'a vfs_scheme \<Rightarrow> (unit result \<times> 'a vfs_scheme) option" where
  "vfs_mkdir K name mode s = do {
     (r, s) \<leftarrow> vfs_new_entry K name s;
     (case r of Inl e \<Rightarrow> Some (Inl e, s)
      | Inr (dir, base, ops) \<Rightarrow>
          (case op_mkdir ops of None \<Rightarrow> Some (Inl ENOENT, s) | Some mkdir \<Rightarrow> mkdir dir base (mode AND 0x1FF) s))
   }"

definition vfs_mknod ::
  "('a vfs_scheme) kernel_ops \<Rightarrow> string \<Rightarrow> u32 \<Rightarrow> u64 \<Rightarrow> 'a vfs_scheme \<Rightarrow> (unit result \<times> 'a vfs_scheme) option" where
  "vfs_mknod K name mode device s = do {
     (r, s) \<leftarrow> vfs_new_entry K name s;
     (case r of Inl e \<Rightarrow> Some (Inl e, s)
      | Inr (dir, base, ops) \<Rightarrow>
          (case op_mknod ops of None \<Rightarrow> Some (Inl ENOENT, s) | Some mknod \<Rightarrow> mknod dir base mode device s))
   }"

text \<open>Taking an entry out of the list of children it is linked into.\<close>

definition unlink_sibling :: "nat \<Rightarrow> 'a vfs_scheme \<Rightarrow> 'a vfs_scheme" where
  "unlink_sibling e s = (case eparent (ventry_of s e) of None \<Rightarrow> s
     | Some p \<Rightarrow> upd_entry p (\<lambda>x. x\<lparr>echildren := remove1 e (echildren x)\<rparr>) s)"

definition vfs_unlink :: "('a vfs_scheme) kernel_ops \<Rightarrow> string \<Rightarrow> 'a vfs_scheme \<Rightarrow> (unit result \<times> 'a vfs_scheme) option" where
  "vfs_unlink K name s = do {
     (found, s) \<leftarrow> vfs_lookup K name 0 s;
     (case found of Inl e \<Rightarrow> Some (Inl e, s)
      | Inr dentry \<Rightarrow> do {
          x \<leftarrow> get_entry dentry s;
          n \<leftarrow> enode x;
          node \<leftarrow> get_node n s;
          if S_ISDIR (nmode node) then Some (Inl EISDIR, s)
          else do {
            s \<leftarrow> (if nlink node \<le> 1 then vnode_put K n (upd_node n (\<lambda>x. x\<lparr>nlink := 0\<rparr>) s)
                 else Some (upd_node n (\<lambda>x. x\<lparr>nlink := nlink x - 1\<rparr>) s));
            spin \<leftarrow> spinlock_acquire (ref_lock (eref x));
            let s = unlink_sibling dentry (upd_entry dentry (\<lambda>x. x\<lparr>enode := None\<rparr>) s);
            let s = upd_entry dentry (\<lambda>x. x\<lparr>eref := (eref x)\<lparr>ref_lock := spinlock_release spin\<rparr>\<rparr>) s;
            s \<leftarrow> ventry_put dentry s;
            Some (Inr (), s)
          }
        })
   }"

definition get_file :: "nat \<Rightarrow> 'a vfs_scheme \<Rightarrow> file_descriptor option" where
  "get_file fd s = (if fd < length (files s) then Some (files s ! fd) else None)"

definition upd_file :: "nat \<Rightarrow> (file_descriptor \<Rightarrow> file_descriptor) \<Rightarrow> 'a vfs_scheme \<Rightarrow> 'a vfs_scheme" where
  "upd_file fd f s = s\<lparr>files := (files s)[fd := f (files s ! fd)]\<rparr>"

definition vfs_ref_file :: "nat \<Rightarrow> 'a vfs_scheme \<Rightarrow> 'a vfs_scheme" where
  "vfs_ref_file fd s = upd_file fd (\<lambda>x. x\<lparr>refcount := refcount x + 1\<rparr>) s"

definition vfs_put_file :: "('a vfs_scheme) kernel_ops \<Rightarrow> nat \<Rightarrow> 'a vfs_scheme \<Rightarrow> (unit result \<times> 'a vfs_scheme) option" where
  "vfs_put_file K fd s = do {
     file \<leftarrow> get_file fd s;
     let s = upd_file fd (\<lambda>x. x\<lparr>refcount := refcount x - 1\<rparr>) s;
     if 1 < refcount file then Some (Inr (), s)
     else do {
       n \<leftarrow> finode file;
       node \<leftarrow> get_node n s;
       ops \<leftarrow> nfops node;
       (cres, s) \<leftarrow> (case op_close (fops_tab K ops) of None \<Rightarrow> Some (Inr (), s) | Some close \<Rightarrow> close fd s);
       (case cres of Inl e \<Rightarrow> Some (Inl e, s)
        | Inr _ \<Rightarrow> do {
            let s = upd_file fd (\<lambda>x. x\<lparr>fpos := 0\<rparr>) s;
            s \<leftarrow> vnode_put K n s;
            let s = upd_file fd (\<lambda>x. x\<lparr>finode := None\<rparr>) s;
            s \<leftarrow> (case fpath file of None \<Rightarrow> Some s
                 | Some e \<Rightarrow> do { s \<leftarrow> ventry_put e s; Some (upd_file fd (\<lambda>x. x\<lparr>fpath := None\<rparr>) s) });
            Some (no_return K, upd_file fd (\<lambda>x. x\<lparr>fs_id := -1\<rparr>) s)
          })
     }
   }"

definition first_free :: "file_descriptor list \<Rightarrow> nat option" where
  "first_free fs = find (\<lambda>i. refcount (fs ! i) = 0) [0..<length fs]"

definition vfs_open_internal ::
  "('a vfs_scheme) kernel_ops \<Rightarrow> nat \<Rightarrow> u32 \<Rightarrow> nat option \<Rightarrow> 'a vfs_scheme \<Rightarrow> (nat result \<times> 'a vfs_scheme) option" where
  "vfs_open_internal K n flags e s = do {
     node \<leftarrow> get_node n s;
     ops \<leftarrow> nfops node;
     (fsid, s) \<leftarrow> (case op_open (fops_tab K ops) of None \<Rightarrow> Some (Inr 0, s) | Some f \<Rightarrow> f n flags s);
     (case fsid of Inl err \<Rightarrow> Some (Inl err, s)
      | Inr fsid \<Rightarrow> do {
          s \<leftarrow> vnode_ref n s;
          Some (case first_free (files s) of None \<Rightarrow> (Inl ENFILE, s)
            | Some i \<Rightarrow> (Inr i, upd_file i (\<lambda>_. \<lparr>fpos = 0, finode = Some n, fpath = e, fs_id = fsid, refcount = 1\<rparr>) s))
        })
   }"

text \<open>Opening the entry a lookup has found.\<close>

definition open_entry ::
  "('a vfs_scheme) kernel_ops \<Rightarrow> nat \<Rightarrow> u32 \<Rightarrow> 'a vfs_scheme \<Rightarrow> (nat result \<times> 'a vfs_scheme) option" where
  "open_entry K query flags s = do {
     s \<leftarrow> ventry_ref query s;
     x \<leftarrow> get_entry query s;
     (case enode x of None \<Rightarrow> do { s \<leftarrow> ventry_put query s; Some (Inl EBADF, s) }
      | Some n \<Rightarrow> do {
          (fd, s) \<leftarrow> vfs_open_internal K n flags (Some query) s;
          (case fd of Inl err \<Rightarrow> do { s \<leftarrow> ventry_put query s; Some (Inl err, s) } | Inr fd \<Rightarrow> Some (Inr fd, s))
        })
   }"

definition vfs_open :: "('a vfs_scheme) kernel_ops \<Rightarrow> string \<Rightarrow> u32 \<Rightarrow> 'a vfs_scheme \<Rightarrow> (nat result \<times> 'a vfs_scheme) option" where
  "vfs_open K name flags s = do {
     (found, s) \<leftarrow> vfs_lookup K name 0 s;
     (case found of Inr query \<Rightarrow> open_entry K query flags s
      | Inl err \<Rightarrow>
          if err \<noteq> ENOENT then Some (Inl err, s)
          else if flags AND O_CREAT = 0 then Some (Inl ENOENT, s)
          else do {
            (c_res, s) \<leftarrow> vfs_create K name 0x1B6 s;
            (case c_res of Inl err \<Rightarrow> Some (Inl err, s)
             | Inr _ \<Rightarrow> do {
                 (found, s) \<leftarrow> vfs_lookup K name 0 s;
                 (case found of Inl _ \<Rightarrow> None | Inr query \<Rightarrow> open_entry K query flags s)
               })
          })
   }"

definition vfs_openat ::
  "('a vfs_scheme) kernel_ops \<Rightarrow> int \<Rightarrow> string \<Rightarrow> u32 \<Rightarrow> 'a vfs_scheme \<Rightarrow> (nat result \<times> 'a vfs_scheme) option" where
  "vfs_openat K fd name flags s = do {
     dir \<leftarrow> (if fd = AT_FDCWD then do { t \<leftarrow> smp_current_task (this_cpu K) s; Some (cwd (task_of s t)) }
            else if fd < 0 then None else do { file \<leftarrow> get_file (nat fd) s; Some (fpath file) });
     (found, s) \<leftarrow> vfs_lookup_at K dir name 0 s;
     (case found of Inl err \<Rightarrow> Some (Inl err, s) | Inr query \<Rightarrow> open_entry K query flags s)
   }"

definition vfs_read :: "('a vfs_scheme) kernel_ops \<Rightarrow> nat \<Rightarrow> u64 \<Rightarrow> 'a vfs_scheme \<Rightarrow> (u8 list result \<times> 'a vfs_scheme) option" where
  "vfs_read K fd len s = do {
     file \<leftarrow> get_file fd s;
     (case finode file of None \<Rightarrow> Some (Inl EBADF, s)
      | Some n \<Rightarrow> do {
          node \<leftarrow> get_node n s;
          if S_ISDIR (nmode node) then Some (Inl EISDIR, s)
          else do {
            ops \<leftarrow> nfops node;
            (case op_read (fops_tab K ops) of None \<Rightarrow> Some (Inl EINVAL, s) | Some f \<Rightarrow> f fd len s)
          }
        })
   }"

definition vfs_write :: "('a vfs_scheme) kernel_ops \<Rightarrow> nat \<Rightarrow> u8 list \<Rightarrow> 'a vfs_scheme \<Rightarrow> (u64 result \<times> 'a vfs_scheme) option" where
  "vfs_write K fd buffer s = do {
     file \<leftarrow> get_file fd s;
     (case finode file of None \<Rightarrow> Some (Inl EBADF, s)
      | Some n \<Rightarrow> do {
          node \<leftarrow> get_node n s;
          if S_ISDIR (nmode node) then Some (Inl EISDIR, s)
          else do {
            ops \<leftarrow> nfops node;
            (case op_write (fops_tab K ops) of None \<Rightarrow> Some (Inl EINVAL, s) | Some f \<Rightarrow> f fd buffer s)
          }
        })
   }"

definition vfs_close :: "('a vfs_scheme) kernel_ops \<Rightarrow> nat \<Rightarrow> 'a vfs_scheme \<Rightarrow> (unit result \<times> 'a vfs_scheme) option" where
  "vfs_close K fd s = do {
     file \<leftarrow> get_file fd s;
     if finode file = None then Some (Inl EBADF, s) else vfs_put_file K fd s
   }"

definition vfs_seek :: "nat \<Rightarrow> u64 \<Rightarrow> u32 \<Rightarrow> 'a vfs_scheme \<Rightarrow> (u64 result \<times> 'a vfs_scheme) option" where
  "vfs_seek fd offset flags s = do {
     file \<leftarrow> get_file fd s;
     n \<leftarrow> finode file;
     node \<leftarrow> get_node n s;
     if S_ISFIFO (nmode node) \<or> S_ISSOCK (nmode node) then Some (Inl ESPIPE, s)
     else do {
       let p = (if flags = SEEK_SET then offset else if flags = SEEK_CUR then fpos file + offset
                else if flags = SEEK_END then offset + nsize node else fpos file);
       Some (Inr p, set_pos fd p s)
     }
   }"

definition vfs_ioctl :: "('a vfs_scheme) kernel_ops \<Rightarrow> nat \<Rightarrow> u64 \<Rightarrow> u64 \<Rightarrow> 'a vfs_scheme \<Rightarrow> (int result \<times> 'a vfs_scheme) option" where
  "vfs_ioctl K fd op arg s = do {
     file \<leftarrow> get_file fd s;
     (case finode file of None \<Rightarrow> Some (Inl EBADF, s)
      | Some n \<Rightarrow> do {
          node \<leftarrow> get_node n s;
          ops \<leftarrow> nfops node;
          (case op_ioctl (fops_tab K ops) of None \<Rightarrow> Some (Inl ENOTTY, s) | Some f \<Rightarrow> f fd op arg s)
        })
   }"

record stat =
  st_nlink :: u64
  st_mode :: u32
  st_uid :: u32
  st_gid :: u32
  st_rdev :: u64
  st_size :: u64

definition stat_fill :: "vnode \<Rightarrow> stat" where
  "stat_fill node = \<lparr>st_nlink = nlink node, st_mode = nmode node, st_uid = nuid node, st_gid = ngid node,
     st_rdev = ndev node, st_size = nsize node\<rparr>"

definition vfs_stat :: "('a vfs_scheme) kernel_ops \<Rightarrow> string \<Rightarrow> 'a vfs_scheme \<Rightarrow> (stat result \<times> 'a vfs_scheme) option" where
  "vfs_stat K name s = do {
     (found, s) \<leftarrow> vfs_lookup K name 0 s;
     (case found of Inl e \<Rightarrow> Some (Inl e, s)
      | Inr query \<Rightarrow> do {
          x \<leftarrow> get_entry query s;
          n \<leftarrow> enode x;
          node \<leftarrow> get_node n s;
          Some (Inr (stat_fill node), s)
        })
   }"

definition vfs_fstat :: "nat \<Rightarrow> 'a vfs_scheme \<Rightarrow> stat option" where
  "vfs_fstat fd s = do { file \<leftarrow> get_file fd s; n \<leftarrow> finode file; node \<leftarrow> get_node n s; Some (stat_fill node) }"

definition vfs_getdents :: "('a vfs_scheme) kernel_ops \<Rightarrow> nat \<Rightarrow> u64 \<Rightarrow> 'a vfs_scheme \<Rightarrow> (u8 list result \<times> 'a vfs_scheme) option" where
  "vfs_getdents K fd len s = do {
     file \<leftarrow> get_file fd s;
     (case finode file of None \<Rightarrow> Some (Inl EBADF, s)
      | Some n \<Rightarrow> do {
          node \<leftarrow> get_node n s;
          if \<not> S_ISDIR (nmode node) then Some (Inl ENOTDIR, s)
          else do {
            ops \<leftarrow> niops node;
            (case op_getdents (iops_tab K ops) of None \<Rightarrow> Some (Inl EINVAL, s) | Some f \<Rightarrow> f fd len s)
          }
        })
   }"

definition vfs_dup :: "nat \<Rightarrow> 'a vfs_scheme \<Rightarrow> (nat result \<times> 'a vfs_scheme) option" where
  "vfs_dup fd s = do {
     file \<leftarrow> get_file fd s;
     if finode file = None then Some (Inl EBADF, s) else Some (Inr fd, vfs_ref_file fd s)
   }"

text \<open>A kernel whose only file system is the memory file system.\<close>

definition ramfs_kernel :: "nat \<Rightarrow> (nat \<Rightarrow> u8 list) \<Rightarrow> unit result \<Rightarrow> ('a vfs_scheme) kernel_ops" where
  "ramfs_kernel cpu new nr = \<lparr>this_cpu = cpu, iops_tab = (\<lambda>_. ramfs_iops cpu), fops_tab = (\<lambda>_. ramfs_fops new),
     sb_tab = (\<lambda>_. \<lparr>op_init = ramfs_super_init, op_root = ramfs_super_root\<rparr>),
     socket_put_op = (\<lambda>_ _. None), no_return = nr\<rparr>"

lemma ramfs_kernel_simps [simp]:
  "this_cpu (ramfs_kernel cpu new nr) = cpu" "iops_tab (ramfs_kernel cpu new nr) i = ramfs_iops cpu"
  "fops_tab (ramfs_kernel cpu new nr) i = ramfs_fops new" "no_return (ramfs_kernel cpu new nr) = nr"
  by (simp_all add: ramfs_kernel_def)

section \<open>The memory file system is a tree\<close>

lemma name_prefix: "length a < 64 \<Longrightarrow> take 64 a = take 64 b \<longleftrightarrow> a = b"
  by (metis length_take min_less_iff_conj nat_neq_iff order_less_imp_le take_all)

lemma generic_scan_spec:
  assumes "tree_inv s" "\<forall>c\<in>set cs. ventry_live s c \<and> name_ok (ename (ventry_of s c))"
  shows "\<exists>s'. generic_scan name cs s = Some (find (\<lambda>c. ename (ventry_of s c) = name) cs, s') \<and>
    lookup_rel (\<lambda>_. 0) s s' \<and> hash_table s' = hash_table s"
  using assms
proof (induction cs arbitrary: s)
  case Nil
  then show ?case using lookup_rel_refl by auto
next
  case (Cons c cs)
  have live: "ventry_live s c" and nm: "name_ok (ename (ventry_of s c))" using Cons.prems(2) by auto
  obtain s1 where s1: "ventry_ref c s = Some s1" "lookup_rel (\<lambda>x. if x = c then 1 else 0) s s1" "hash_table s1 = hash_table s"
    using ventry_ref_rel [OF Cons.prems(1) live] by blast
  have i1: "tree_inv s1" "ventry_live s1 c" "ename (ventry_of s1 c) = ename (ventry_of s c)"
    using lookup_rel_inv [OF s1(2) Cons.prems(1)] cache_ok_rel [OF s1(2) _ s1(3)] Cons.prems(1) live
      lookup_rel_fields(1,6) [OF s1(2)] by (auto simp: tree_inv_def)
  obtain s2 where s2: "ventry_put c s1 = Some s2" "lookup_rel (\<lambda>x. if x = c then -1 else 0) s1 s2" "hash_table s2 = hash_table s1"
    using ventry_put_rel [OF i1(1,2)] by blast
  have r2: "lookup_rel (\<lambda>_. 0) s s2" using lookup_rel_trans [OF s1(2) s2(2)] by (rule lookup_rel_cong) simp
  have i2: "tree_inv s2" using lookup_rel_inv [OF r2 Cons.prems(1)] cache_ok_rel [OF r2] s1(3) s2(3) Cons.prems(1) by (simp add: tree_inv_def)
  have eq: "take 64 (ename (ventry_of s1 c)) = take 64 name \<longleftrightarrow> ename (ventry_of s c) = name"
    unfolding i1(3) by (rule name_prefix) (use nm in \<open>simp add: name_ok_def\<close>)
  have step: "generic_scan name (c # cs) s = (if ename (ventry_of s c) = name then Some (Some c, s2) else generic_scan name cs s2)"
    using s1(1) s2(1) i1(2) by (simp add: get_entry_def eq del: take_all)
  show ?case
  proof (cases "ename (ventry_of s c) = name")
    case True
    then show ?thesis using step r2 s1(3) s2(3) by auto
  next
    case False
    have "\<forall>c\<in>set cs. ventry_live s2 c \<and> name_ok (ename (ventry_of s2 c))"
      using Cons.prems(2) lookup_rel_fields(1,6) [OF r2] by simp
    then obtain s3 where s3: "generic_scan name cs s2 = Some (find (\<lambda>c. ename (ventry_of s2 c) = name) cs, s3)"
      "lookup_rel (\<lambda>_. 0) s2 s3" "hash_table s3 = hash_table s2" using Cons.IH [OF i2] by blast
    moreover have "lookup_rel (\<lambda>_. 0) s s3" using lookup_rel_trans [OF r2 s3(2)] by simp
    ultimately show ?thesis using False step s1(3) s2(3) lookup_rel_fields(1) [OF r2] by simp
  qed
qed

interpretation ramfs: tree_driver "ramfs_kernel cpu new nr" for cpu new nr
proof
  fix s :: "'a vfs_scheme" and e n i name
  assume a: "tree_inv s" "ventry_live s e" "enode (ventry_of s e) = Some n" "niops (vnode_of s n) = Some i"
  have "\<forall>c\<in>set (echildren (ventry_of s e)). ventry_live s c \<and> name_ok (ename (ventry_of s c))"
    using tree_inv_entry [OF a(1,2)] by (simp add: entry_ok_def)
  from generic_scan_spec [OF a(1) this] a(2)
  show "\<exists>lookup s'. op_lookup (iops_tab (ramfs_kernel cpu new nr) i) = Some lookup \<and> lookup e name s = Some (child s e name, s') \<and>
        lookup_rel (\<lambda>_. 0) s s' \<and> hash_table s' = hash_table s"
    by (simp add: ramfs_kernel_def ramfs_iops_def generic_fs_lookup_def get_entry_def child_def)
qed (simp add: ramfs_kernel_def ramfs_super_root_def)


definition demo_node :: "u32 \<Rightarrow> vnode" where
  "demo_node mode = \<lparr>nmode = mode, nsize = 0, nuid = 0, ngid = 0, ndev = 0, nlink = 1, nref = 0, ndata = None, nsb = None,
     niops = Some ramfs_table, nfops = Some ramfs_table\<rparr>"

definition demo_entry :: "string \<Rightarrow> nat \<Rightarrow> nat option \<Rightarrow> nat list \<Rightarrow> ventry" where
  "demo_entry name n p cs = \<lparr>ename = name, enode = Some n, eparent = p, echildren = cs, emount = None, eref = reflock_init\<rparr>"

text \<open>A root directory (entry 2, node 1) with one file (entry 4, node 3).\<close>

definition demo_vfs :: vfs where
  "demo_vfs = \<lparr>status_of = (\<lambda>_. TASK_RUNNING), rsp0_of = (\<lambda>_. 0),
     sched_pcpu_data = [\<lparr>idle = 0, runqueue = [], queue_entry_count = 0\<rparr>], current_task = [1],
     wait_queues = [], node_queue = (\<lambda>_. None), node_task = id,
     task_of = (\<lambda>t. (task_of demo_tasks t)\<lparr>cwd := Some 2\<rparr>), g_task_list = [1], next_pid = 2, init_task = Some 1,
     vnode_of = (\<lambda>n. if n = 1 then demo_node S_IFDIR else demo_node S_IFREG), vnode_live = (\<lambda>n. n = 1 \<or> n = 3),
     ventry_of = (\<lambda>e. if e = 2 then demo_entry ''/'' 1 None [4] else demo_entry ''a'' 3 (Some 2) []),
     ventry_live = (\<lambda>e. e = 2 \<or> e = 4), super_of = (\<lambda>_. \<lparr>sfs = None, sbdev = None, sdata = 2\<rparr>),
     mount_of = (\<lambda>_. \<lparr>mfs = \<lparr>fs_name = ''ramfs'', fs_flags = 1, fs_iops = 1, fs_fops = 1, fs_sbops = 1\<rparr>, msb = 0, mountpoint = 2\<rparr>),
     next_object = 5, hash_table = (\<lambda>_. []), fs_list = [], root_node = 2, mounts = [0],
     files = replicate 64 free_file, char_devs = (\<lambda>_. []), block_devs = (\<lambda>_. []), file_pages = (\<lambda>_. [])\<rparr>"

lemma demo_vfs_dir: "is_dir demo_vfs 2"
  by (simp add: is_dir_def demo_vfs_def demo_entry_def demo_node_def S_ISDIR_def S_IFDIR_def S_IFMT_def)

lemma demo_vfs_inv: "tree_inv demo_vfs"
proof -
  have lf: "lock_free reflock_init" by (simp add: lock_free_def reflock_init_def spinlock_init_def)
  have d: "is_dir demo_vfs 2" by (rule demo_vfs_dir)
  have "entry_ok demo_vfs 2" using d
    by (auto simp: entry_ok_def demo_vfs_def demo_entry_def demo_node_def lf name_ok_def)
  moreover have "entry_ok demo_vfs 4"
    by (auto simp: entry_ok_def demo_vfs_def demo_entry_def demo_node_def lf)
  ultimately show ?thesis unfolding tree_inv_def cache_ok_def by (auto simp: demo_vfs_def)
qed


section \<open>Creating files\<close>

text \<open>No object lies at an address that has not been handed out.\<close>

definition fresh_ok :: "'a vfs_scheme \<Rightarrow> bool" where
  "fresh_ok s \<longleftrightarrow> (\<forall>x\<ge>next_object s. \<not> ventry_live s x \<and> \<not> vnode_live s x)"

text \<open>The tree with a new entry \<^term>\<open>e\<close> for a new node \<^term>\<open>n\<close> as the last child of \<^term>\<open>d\<close>.\<close>

definition with_child :: "nat \<Rightarrow> nat \<Rightarrow> string \<Rightarrow> nat \<Rightarrow> vnode \<Rightarrow> 'a vfs_scheme \<Rightarrow> 'a vfs_scheme" where
  "with_child d e name n node s =
     (let es = (ventry_of s)(e := \<lparr>ename = name, enode = Some n, eparent = Some d, echildren = [], emount = None, eref = reflock_init\<rparr>,
            d := (ventry_of s d)\<lparr>echildren := echildren (ventry_of s d) @ [e]\<rparr>)
      in s\<lparr>vnode_of := (vnode_of s)(n := node), vnode_live := (vnode_live s)(n := True), ventry_of := es,
           ventry_live := (ventry_live s)(e := True), next_object := e + 1, hash_table := dcache_link es e (hash_table s)\<rparr>)"

lemma with_child_simps:
  assumes "d \<noteq> e"
  shows "ventry_of (with_child d e name n node s) e = \<lparr>ename = name, enode = Some n, eparent = Some d, echildren = [], emount = None, eref = reflock_init\<rparr>"
    "ventry_of (with_child d e name n node s) d = (ventry_of s d)\<lparr>echildren := echildren (ventry_of s d) @ [e]\<rparr>"
    "x \<noteq> e \<Longrightarrow> x \<noteq> d \<Longrightarrow> ventry_of (with_child d e name n node s) x = ventry_of s x"
    "vnode_of (with_child d e name n node s) = (vnode_of s)(n := node)"
    "vnode_live (with_child d e name n node s) = (vnode_live s)(n := True)"
    "ventry_live (with_child d e name n node s) = (ventry_live s)(e := True)"
    "root_node (with_child d e name n node s) = root_node s" "mounts (with_child d e name n node s) = mounts s"
    "mount_of (with_child d e name n node s) = mount_of s" "super_of (with_child d e name n node s) = super_of s"
    "hash_table (with_child d e name n node s) = dcache_link (ventry_of (with_child d e name n node s)) e (hash_table s)"
    "next_object (with_child d e name n node s) = e + 1"
    "mount_root (with_child d e name n node s) m = mount_root s m"
  using assms by (simp_all add: with_child_def Let_def mount_root_def)

lemma with_child_old:
  assumes "d \<noteq> e" "x \<noteq> e"
  shows "ename (ventry_of (with_child d e name n node s) x) = ename (ventry_of s x)"
    "enode (ventry_of (with_child d e name n node s) x) = enode (ventry_of s x)"
    "eparent (ventry_of (with_child d e name n node s) x) = eparent (ventry_of s x)"
    "emount (ventry_of (with_child d e name n node s) x) = emount (ventry_of s x)"
    "eref (ventry_of (with_child d e name n node s) x) = eref (ventry_of s x)"
    "echildren (ventry_of (with_child d e name n node s) x) = (if x = d then echildren (ventry_of s d) @ [e] else echildren (ventry_of s x))"
  using assms by (cases "x = d"; simp add: with_child_simps)+

lemma with_child_child:
  assumes "tree_inv s" "ventry_live s x" "ventry_live s d" "\<not> ventry_live s e" "child s d name = None"
  shows "child (with_child d e name n node s) x name' = (if x = d \<and> name' = name then Some e else child s x name')"
proof -
  have de: "d \<noteq> e" "x \<noteq> e" using assms(2-4) by blast+
  have old: "\<forall>c\<in>set (echildren (ventry_of s x)). c \<noteq> e" using tree_inv_entry [OF assms(1,2)] assms(4) by (auto simp: entry_ok_def)
  have same: "find (\<lambda>c. ename (ventry_of (with_child d e name n node s) c) = name') (echildren (ventry_of s x)) = child s x name'"
    unfolding child_def by (rule find_cong [OF refl]) (use old in \<open>simp add: with_child_old(1) [OF de(1)]\<close>)
  have "ename (ventry_of (with_child d e name n node s) e) = name" by (simp add: with_child_simps(1) [OF de(1)])
  then show ?thesis using same assms(5)
    unfolding child_def with_child_old(6) [OF de] by (cases "x = d") (auto simp: find_append split: option.split)
qed

lemma with_child_cache:
  assumes "tree_inv s" "ventry_live s d" "\<not> ventry_live s e"
  shows "cache_ok (with_child d e name n node s)"
  unfolding cache_ok_def
proof (intro allI ballI)
  let ?s = "with_child d e name n node s"
  have de: "d \<noteq> e" using assms(2,3) by blast
  note w = with_child_simps [OF de] and o = with_child_old [OF de]
  fix i x assume x: "x \<in> set (hash_table ?s i)"
  show "ventry_live ?s x \<and> dcache_hash (entry_key (ventry_of ?s) x) = i \<and>
    (\<exists>p. eparent (ventry_of ?s x) = Some p \<and> ventry_live ?s p \<and> x \<in> set (echildren (ventry_of ?s p)))"
  proof (cases "x \<in> set (hash_table s i)")
    case True
    then have c: "ventry_live s x" "dcache_hash (entry_key (ventry_of s) x) = i"
      "\<exists>p. eparent (ventry_of s x) = Some p \<and> ventry_live s p \<and> x \<in> set (echildren (ventry_of s p))"
      using assms(1) unfolding tree_inv_def cache_ok_def by blast+
    then obtain p where p: "eparent (ventry_of s x) = Some p" "ventry_live s p" "x \<in> set (echildren (ventry_of s p))" by blast
    have xe: "x \<noteq> e" "p \<noteq> e" using c(1) p(2) assms(3) by blast+
    then show ?thesis using c p by (auto simp: w(6) entry_key_def o(1,3) [OF xe(1)] o(6) [OF xe(2)])
  next
    case False
    then have "x = e" "i = dcache_hash (entry_key (ventry_of ?s) e)" using x by (auto simp: w(11) dcache_link_def Let_def split: if_splits)
    then show ?thesis using assms(2) by (auto simp: w)
  qed
qed

lemma with_child_dir:
  assumes "tree_inv s" "ventry_live s x" "\<not> ventry_live s e" "\<not> vnode_live s n" "d \<noteq> e"
  shows "is_dir (with_child d e name n node s) x = is_dir s x"
proof -
  obtain m where m: "enode (ventry_of s x) = Some m" "vnode_live s m" using tree_inv_entry [OF assms(1,2)] by (auto simp: entry_ok_def)
  then have "m \<noteq> n" "x \<noteq> e" using assms(2-4) by blast+
  then show ?thesis using m(1) by (simp add: is_dir_def with_child_old(2) [OF assms(5)] with_child_simps(4) [OF assms(5)])
qed

lemma with_child_names:
  assumes "tree_inv s" "ventry_live s x" "ventry_live s d" "\<not> ventry_live s e" "child s d name = None"
  shows "distinct (map (\<lambda>c. ename (ventry_of (with_child d e name n node s) c)) (echildren (ventry_of (with_child d e name n node s) x)))"
proof -
  let ?s = "with_child d e name n node s"
  have de: "d \<noteq> e" "x \<noteq> e" using assms(2-4) by blast+
  have ex: "distinct (map (\<lambda>c. ename (ventry_of s c)) (echildren (ventry_of s x)))" "\<forall>c\<in>set (echildren (ventry_of s x)). c \<noteq> e"
    using tree_inv_entry [OF assms(1,2)] assms(4) by (auto simp: entry_ok_def)
  have kids: "map (\<lambda>c. ename (ventry_of ?s c)) (echildren (ventry_of s x)) = map (\<lambda>c. ename (ventry_of s c)) (echildren (ventry_of s x))"
    by (rule map_cong [OF refl], rule with_child_old(1) [OF de(1)]) (use ex(2) in blast)
  have "name \<notin> set (map (\<lambda>c. ename (ventry_of s c)) (echildren (ventry_of s d)))" using assms(5) by (auto simp: child_def find_None_iff)
  moreover have "ename (ventry_of ?s e) = name" by (simp add: with_child_simps(1) [OF de(1)])
  ultimately show ?thesis using ex(1) kids unfolding with_child_old(6) [OF de]
    by (cases "x = d") (simp_all only: map_append if_True if_False distinct_append, simp del: set_map map_eq_conv)
qed

lemma with_child_kids:
  assumes "tree_inv s" "ventry_live s x" "ventry_live s d" "\<not> ventry_live s e" "name_ok name"
    "c \<in> set (echildren (ventry_of (with_child d e name n node s) x))"
  shows "ventry_live (with_child d e name n node s) c \<and> eparent (ventry_of (with_child d e name n node s) c) = Some x \<and>
    name_ok (ename (ventry_of (with_child d e name n node s) c))"
proof -
  have de: "d \<noteq> e" "x \<noteq> e" using assms(2-4) by blast+
  note w = with_child_simps [OF de(1)]
  have ex: "\<forall>c\<in>set (echildren (ventry_of s x)). ventry_live s c \<and> eparent (ventry_of s c) = Some x \<and> name_ok (ename (ventry_of s c))"
    using tree_inv_entry [OF assms(1,2)] unfolding entry_ok_def by blast
  show ?thesis
  proof (cases "c = e")
    case True
    then have "x = d" using assms(4,6) ex unfolding with_child_old(6) [OF de] by (auto split: if_splits)
    then show ?thesis using True assms(5) by (simp add: w)
  next
    case False
    then have "c \<in> set (echildren (ventry_of s x))" using assms(6) unfolding with_child_old(6) [OF de] by (auto split: if_splits)
    then show ?thesis using ex False by (simp add: w(6) with_child_old [OF de(1) False])
  qed
qed

lemma with_child_inv:
  assumes "tree_inv s" "ventry_live s d" "\<not> ventry_live s e" "\<not> vnode_live s n" "is_dir s d" "name_ok name"
    "child s d name = None" "niops node \<noteq> None"
  shows "tree_inv (with_child d e name n node s)"
proof -
  let ?s = "with_child d e name n node s"
  have de: "d \<noteq> e" using assms(2,3) by blast
  note w = with_child_simps [OF de]
  have ok: "entry_ok ?s x" if x: "ventry_live s x" for x
  proof -
    have xe: "x \<noteq> e" using x assms(3) by blast
    note ex = tree_inv_entry [OF assms(1) x] and ox = with_child_old [OF de xe]
    have "echildren (ventry_of ?s x) \<noteq> [] \<longrightarrow> is_dir ?s x"
      using ex assms(5) unfolding with_child_dir [OF assms(1) x assms(3,4) de] ox(6) entry_ok_def by (simp split: if_splits)
    moreover have "\<exists>m. enode (ventry_of s x) = Some m \<and> ((vnode_live s)(n := True)) m \<and> niops (((vnode_of s)(n := node)) m) \<noteq> None"
      using ex assms(4) unfolding entry_ok_def by auto
    ultimately show ?thesis
      using ex with_child_names [OF assms(1) x assms(2,3,7)] with_child_kids [OF assms(1) x assms(2,3,6)]
      unfolding entry_ok_def ox(2-5) w(4-6,13) by simp
  qed
  have "entry_ok ?s e" using assms(2,8) by (simp add: entry_ok_def w lock_free_def reflock_init_def spinlock_init_def)
  then have "\<forall>x. ventry_live ?s x \<longrightarrow> entry_ok ?s x" using ok by (simp add: w)
  moreover have "cache_ok ?s" using with_child_cache [OF assms(1-3)] .
  ultimately show ?thesis using assms(1) unfolding tree_inv_def by (simp add: w)
qed

definition new_file :: "u32 \<Rightarrow> cred \<Rightarrow> vnode \<Rightarrow> vnode" where
  "new_file mode c pnode = \<lparr>nmode = S_IFREG OR mode, nsize = 0, nuid = euid c, ngid = egid c, ndev = 0, nlink = 1, nref = 0,
     ndata = None, nsb = None, niops = niops pnode, nfops = nfops pnode\<rparr>"

lemma entry_name_ok: "name_ok name \<Longrightarrow> entry_name name = name"
  by (auto simp: entry_name_def name_ok_def) (metis last_in_set list.size(3) not_less_zero)

lemma generic_fs_create_eq:
  assumes "ventry_live s d" "enode (ventry_of s d) = Some p" "vnode_live s p" "fresh_ok s" "name_ok name"
    "smp_current_task cpu s = Some t"
  shows "generic_fs_create cpu d name mode s = Some (Inr (),
    with_child d (next_object s + 1) name (next_object s) (new_file mode (tcred (task_of s t)) (vnode_of s p)) s)"
proof -
  have ne: "d \<noteq> next_object s + 1" "p \<noteq> next_object s" using assms(1,3,4) unfolding fresh_ok_def by fastforce+
  have ct: "cpu < length (current_task s)" "t = current_task s ! cpu" using assms(6) by (auto simp: smp_current_task_def split: if_splits)
  have len: "\<not> 64 \<le> length name" using assms(5) by (simp add: name_ok_def)
  show ?thesis
    using assms(1-3) ne ct(1) len
    by (simp add: generic_fs_create_def get_entry_def get_node_def vnode_new_def upd_node_def set_owner_def smp_current_task_def
        add_child_def ventry_new_def entry_name_ok [OF assms(5)] upd_entry_def dcache_insert_def with_child_def new_file_def
        fun_upd_twist ct(2) Let_def)
qed

lemma base_single: "CHR ''/'' \<notin> set cs \<Longrightarrow> base_from best cs = best"
  by (induction best cs rule: base_from.induct) auto

lemma vfs_new_entry_spec:
  assumes "tree_inv s" "smp_current_task cpu s = Some t" "cwd (task_of s t) = Some d"
    "ventry_live s d" "is_dir s d" "entered s d = d" "name_ok name" "child s d name = None"
  shows "\<exists>s'. vfs_new_entry (ramfs_kernel cpu new nr) name s = Some (Inr (d, name, ramfs_iops cpu), s') \<and>
    lookup_rel (\<lambda>_. 0) s s' \<and> tree_inv s'"
proof -
  let ?K = "ramfs_kernel cpu new nr"
  have nm: "length name < 64" "path_components name = [name]" "name \<noteq> []" "CHR ''/'' \<notin> set name"
    using assms(7) components_single by (auto simp: name_ok_def)
  have step: "walk_step s d name = None" using assms(6-8) by (simp add: walk_step_def name_ok_def)
  have "lookup_spec (LOOKUP_PARENT AND LOOKUP_PARENT \<noteq> 0) s d name = Inr d"
    using assms(5,6) by (simp add: lookup_spec_def nm(2) LOOKUP_PARENT_def)
  then obtain s1 where s1: "vfs_lookup_at ?K (Some d) name LOOKUP_PARENT s = Some (Inr d, s1)" "lookup_rel (\<lambda>_. 0) s s1" "tree_inv s1"
    using ramfs.lookup_at [OF assms(1,4) nm(1) assms(6), of cpu new nr LOOKUP_PARENT] by metis
  note f1 = lookup_rel_fields(6) [OF s1(2)] and g1 = lookup_rel_spec [OF s1(2)]
  have d1: "ventry_live s1 d" "entered s1 d = d" using assms(4,6) by (simp_all add: f1 g1)
  have "lookup_spec (0 AND LOOKUP_PARENT \<noteq> 0) s1 d name = Inl ENOENT" using assms(5) step by (simp add: lookup_spec_def nm(2) g1)
  then obtain s2 where s2: "vfs_lookup_at ?K (Some d) name 0 s1 = Some (Inl ENOENT, s2)" "lookup_rel (\<lambda>_. 0) s1 s2" "tree_inv s2"
    using ramfs.lookup_at [OF s1(3) d1(1) nm(1) d1(2), of cpu new nr 0] by metis
  have d2: "ventry_live s2 d" using d1(1) lookup_rel_fields(6) [OF s2(2)] by simp
  obtain p i where p: "enode (ventry_of s2 d) = Some p" "vnode_live s2 p" "niops (vnode_of s2 p) = Some i"
    using tree_inv_entry [OF s2(3) d2] unfolding entry_ok_def by blast
  have "vfs_lookup ?K name LOOKUP_PARENT s = Some (Inr d, s1)"
    using nm(3,4) assms(2,3) s1(1) by (cases name) (auto simp: vfs_lookup_def)
  then have "vfs_new_entry ?K name s = Some (Inr (d, name, ramfs_iops cpu), s2)"
    using nm(3,4) s2(1) p d2 by (simp add: vfs_new_entry_def base_name_def base_single get_entry_def get_node_def)
  then show ?thesis using lookup_rel_trans [OF s1(2) s2(2)] s2(3) by auto
qed

text \<open>C31: Creating a file under a name its directory does not have succeeds; afterwards the name is found, as an empty
  regular file with the given mode that belongs to the caller, every other name in every directory is found as
  before, and the tree is well formed.\<close>

theorem create_then_lookup:
  assumes "tree_inv s" "fresh_ok s" "smp_current_task cpu s = Some t" "cwd (task_of s t) = Some d"
    "ventry_live s d" "is_dir s d" "entered s d = d" "name_ok name" "child s d name = None"
  shows "\<exists>s' e n. vfs_create (ramfs_kernel cpu new nr) name mode s = Some (Inr (), s') \<and> tree_inv s' \<and>
    lookup_spec False s' d name = Inr e \<and> enode (ventry_of s' e) = Some n \<and>
    stat_fill (vnode_of s' n) = \<lparr>st_nlink = 1, st_mode = S_IFREG OR mode, st_uid = euid (tcred (task_of s t)),
      st_gid = egid (tcred (task_of s t)), st_rdev = 0, st_size = 0\<rparr> \<and>
    (\<forall>x name'. ventry_live s x \<and> (x, name') \<noteq> (d, name) \<longrightarrow> child s' x name' = child s x name')"
proof -
  obtain s2 where s2: "vfs_new_entry (ramfs_kernel cpu new nr) name s = Some (Inr (d, name, ramfs_iops cpu), s2)"
    "lookup_rel (\<lambda>_. 0) s s2" "tree_inv s2" using vfs_new_entry_spec [OF assms(1,3-9)] by blast
  note f = lookup_rel_fields [OF s2(2)] and g = lookup_rel_spec [OF s2(2)]
  have d2: "ventry_live s2 d" using assms(5) by (simp add: f)
  obtain p i where p: "enode (ventry_of s2 d) = Some p" "vnode_live s2 p" "niops (vnode_of s2 p) = Some i"
    using tree_inv_entry [OF s2(3) d2] unfolding entry_ok_def by blast
  define n e where ne: "n = next_object s2" "e = next_object s2 + 1"
  let ?node = "new_file mode (tcred (task_of s2 t)) (vnode_of s2 p)"
  let ?s = "with_child d e name n ?node s2"
  have nx: "next_object s2 = next_object s" using s2(2) unfolding lookup_rel_def by auto
  have fresh: "fresh_ok s2" using assms(2) by (simp add: fresh_ok_def f nx)
  have ct: "smp_current_task cpu s2 = Some t" using assms(3) by (auto simp: smp_current_task_def f split: if_splits)
  have new: "\<not> ventry_live s2 e" "\<not> vnode_live s2 n" using fresh unfolding fresh_ok_def ne by simp_all
  have de: "d \<noteq> e" using new(1) d2 by metis
  note w = with_child_simps [OF de]
  have run: "vfs_create (ramfs_kernel cpu new nr) name mode s = Some (Inr (), ?s)"
    using s2(1) generic_fs_create_eq [OF d2 p(1,2) fresh assms(8) ct] unfolding ne by (simp add: vfs_create_def ramfs_iops_def)
  have c2: "child s2 d name = None" "is_dir s2 d" using assms(6,9) by (simp_all add: g)
  have inv: "tree_inv ?s" by (rule with_child_inv [OF s2(3) d2 new c2(2) assms(8) c2(1)]) (simp add: new_file_def p(3))
  have others: "child ?s x name' = (if x = d \<and> name' = name then Some e else child s x name')" if "ventry_live s x" for x name'
    using with_child_child [OF s2(3) _ d2 new(1) c2(1), of x n ?node name'] that by (simp add: f(6) g(5))
  have ent: "entered ?s d = entered s2 d" by (simp add: entered_def w with_child_old(4) [OF de de] split: option.split)
  have "is_dir ?s d" using with_child_dir [OF s2(3) d2 new de] c2(2) by simp
  moreover have "entered ?s e = e" by (simp add: entered_def w with_child_old(4) [OF de de])
  moreover have "walk_step ?s d name = Some e"
    using others [OF assms(5)] assms(7,8) g(3) [of d] ent by (simp add: walk_step_def name_ok_def)
  moreover have "path_components name = [name]" using assms(8) components_single by (simp add: name_ok_def)
  ultimately have "lookup_spec False ?s d name = Inr e" by (simp add: lookup_spec_def)
  moreover have "stat_fill (vnode_of ?s n) = \<lparr>st_nlink = 1, st_mode = S_IFREG OR mode, st_uid = euid (tcred (task_of s t)),
      st_gid = egid (tcred (task_of s t)), st_rdev = 0, st_size = 0\<rparr>"
    by (simp add: w stat_fill_def new_file_def f(14))
  moreover have "enode (ventry_of ?s e) = Some n" by (simp add: w)
  moreover have "\<forall>x name'. ventry_live s x \<and> (x, name') \<noteq> (d, name) \<longrightarrow> child ?s x name' = child s x name'" using others by simp
  ultimately show ?thesis using run inv by blast
qed

lemma demo_vfs_fields:
  "smp_current_task 0 demo_vfs = Some 1" "cwd (task_of demo_vfs 1) = Some 2" "ventry_live demo_vfs 2" "entered demo_vfs 2 = 2"
  "root_node demo_vfs = 2" "fresh_ok demo_vfs"
  by (auto simp: demo_vfs_def smp_current_task_def entered_def demo_entry_def fresh_ok_def)

theorem create_then_lookup_witness:
  "\<exists>s' e. vfs_create (ramfs_kernel 0 (\<lambda>_. []) (Inr ())) ''b'' 0x1B6 demo_vfs = Some (Inr (), s') \<and>
    lookup_spec False s' 2 ''b'' = Inr e \<and> child s' 2 ''a'' = Some 4"
proof -
  have nm: "name_ok ''b''" by (simp add: name_ok_def)
  have c: "child demo_vfs 2 ''b'' = None" "child demo_vfs 2 ''a'' = Some 4"
    by (simp_all add: child_def demo_vfs_def demo_entry_def)
  obtain s' e where s': "vfs_create (ramfs_kernel 0 (\<lambda>_. []) (Inr ())) ''b'' 0x1B6 demo_vfs = Some (Inr (), s')"
    "lookup_spec False s' 2 ''b'' = Inr e"
    "\<forall>x name'. ventry_live demo_vfs x \<and> (x, name') \<noteq> (2, ''b'') \<longrightarrow> child s' x name' = child demo_vfs x name'"
    using create_then_lookup [OF demo_vfs_inv demo_vfs_fields(6,1,2,3) demo_vfs_dir demo_vfs_fields(4) nm c(1),
      of "\<lambda>_. []" "Inr ()" "0x1B6"] by blast
  have "child s' 2 ''a'' = child demo_vfs 2 ''a''" using s'(3) [THEN spec, THEN spec, of 2 "''a''"] demo_vfs_fields(3) by simp
  then show ?thesis using s'(1,2) c(2) by auto
qed

end
