(* ===== verification/Ramfs.thy ===== *)
theory Ramfs
  imports Vfs_File
begin

text \<open>
  The contents of the files of the memory file system.  The pages of a file, one behind the other, are its
  contents; reading and writing are stated on them.
\<close>

section \<open>Pages and contents\<close>

abbreviation whole :: "u8 list list \<Rightarrow> bool" where
  "whole pages \<equiv> \<forall>p\<in>set pages. length p = 4096"

lemma whole_length: "whole pages \<Longrightarrow> length (concat pages) = 4096 * length pages"
  by (induction pages) auto

lemma whole_split:
  assumes "whole pages" "i < length pages"
  shows "concat (pages[i := q]) = take (4096 * i) (concat pages) @ q @ drop (4096 * (i + 1)) (concat pages)"
    "pages ! i = take 4096 (drop (4096 * i) (concat pages))"
proof -
  have s: "pages = take i pages @ pages ! i # drop (i + 1) pages" using id_take_nth_drop [OF assms(2)] by simp
  have "whole (take i pages)" using assms(1) by (meson in_set_takeD)
  then have a: "length (concat (take i pages)) = 4096 * i" using whole_length [of "take i pages"] assms(2) by simp
  have b: "length (pages ! i) = 4096" using assms by simp
  have c: "concat pages = concat (take i pages) @ pages ! i @ concat (drop (i + 1) pages)" using arg_cong [OF s, of concat] by simp
  have "pages[i := q] = take i pages @ q # drop (i + 1) pages" using assms(2) by (simp add: upd_conv_take_nth_drop)
  then have "concat (pages[i := q]) = concat (take i pages) @ q @ concat (drop (i + 1) pages)" by simp
  then show "concat (pages[i := q]) = take (4096 * i) (concat pages) @ q @ drop (4096 * (i + 1)) (concat pages)"
    unfolding c using a b by simp
  show "pages ! i = take 4096 (drop (4096 * i) (concat pages))" unfolding c using a b by simp
qed

text \<open>The place of a position within its page.\<close>

lemma page_offset:
  assumes "unat (p :: u64) = 4096 * i + off" "off < 4096"
  shows "unat (p AND 4095) = off"
proof -
  have m: "(4095 :: u64) = mask 12" by (simp add: mask_eq_exp_minus_1)
  have "unat (p AND 4095) = take_bit 12 (unat p)" unfolding m by (simp add: take_bit_eq_mask [symmetric] unsigned_take_bit_eq)
  also have "\<dots> = (4096 * i + off) mod 4096" by (simp add: take_bit_eq_mod assms(1))
  also have "\<dots> = off" using assms(2) by simp
  finally show ?thesis .
qed

lemma unat_add_below: "unat a + unat b < 2 ^ 62 \<Longrightarrow> unat (a + b :: u64) = unat a + unat b"
  by (rule unat_add_lem [THEN iffD1]) simp

lemma not_negative: "unat (p :: u64) < 2 ^ 63 \<Longrightarrow> \<not> p <s 0"
  using sint_small [of p] by (simp add: word_sless_alt)

lemma at_most_page:
  assumes "unat (p :: u64) < 2 ^ 63"
  shows "p <s 4096 \<longleftrightarrow> unat p < 4096" "4096 \<le>s p \<longleftrightarrow> 4096 \<le> unat p"
proof -
  have s: "sint p = int (unat p)" using sint_small [of p] assms by simp
  have "sint (4096 :: u64) = 4096" by simp
  then show "p <s 4096 \<longleftrightarrow> unat p < 4096" "4096 \<le>s p \<longleftrightarrow> 4096 \<le> unat p"
    unfolding word_sless_alt word_sle_eq s by presburger+
qed

lemma seek_page_spec:
  assumes "unat p = 4096 * i + off" "off < 4096" "unat p < 2 ^ 63" "k + i \<le> pages"
  shows "seek_page pages p k = Some (k + i)"
  using assms
proof (induction i arbitrary: p k)
  case 0
  then show ?case using at_most_page(2) [of p] by (subst seek_page.simps) simp
next
  case (Suc i)
  have le: "4096 \<le> unat p" using Suc.prems(1) by simp
  then have "unat (p - 4096) = unat p - 4096" by (simp add: unat_sub word_le_nat_alt)
  then have "seek_page pages (p - 4096) (k + 1) = Some (k + 1 + i)" using Suc.prems by (intro Suc.IH) simp_all
  then show ?case using le Suc.prems at_most_page(2) [of p] by (subst seek_page.simps) simp
qed

lemma seek_around_spec:
  assumes "unat p = 4096 * i + off" "off < 4096" "unat p < 2 ^ 63" "k + i \<le> pages"
  shows "seek_around pages p k = k + i"
  using assms
proof (induction i arbitrary: p k)
  case 0
  then show ?case using at_most_page(1) [of p] by (subst seek_around.simps) simp
next
  case (Suc i)
  have le: "4096 \<le> unat p" using Suc.prems(1) by simp
  then have "unat (p - 4096) = unat p - 4096" by (simp add: unat_sub word_le_nat_alt)
  then have "seek_around pages (p - 4096) (k + 1) = k + 1 + i" using Suc.prems by (intro Suc.IH) simp_all
  then show ?case using le Suc.prems at_most_page(1) [of p] by (subst seek_around.simps) simp
qed

section \<open>Reading\<close>

lemma read_step:
  assumes "whole pages" "unat p = 4096 * i + off" "off < 4096" "i < length pages" "len \<noteq> 0" "unat p < 2 ^ 62" "unat len < 2 ^ 62"
  obtains a where "read_loop pages i p len out = read_loop pages (i + 1) (p + a) (len - a) (out @ take (unat a) (drop (unat p) (concat pages)))"
    "unat a = min (unat len) (4096 - off)" "unat (p + a) = unat p + unat a" "unat (len - a) = unat len - unat a"
proof -
  define a where "a = (if len < 4096 - (p AND 4095) then len else 4096 - (p AND 4095))"
  have o: "unat (p AND 4095) = off" using page_offset [OF assms(2,3)] .
  have "unat (4096 - (p AND 4095)) = 4096 - off" using assms(3) o by (simp add: unat_sub word_le_nat_alt)
  then have au: "unat a = min (unat len) (4096 - off)" unfolding a_def by (simp add: word_less_nat_alt min_def)
  have chunk: "take (unat a) (drop off (pages ! i)) = take (unat a) (drop (unat p) (concat pages))"
    unfolding whole_split(2) [OF assms(1,4)] assms(2) au by (simp add: drop_take min_def add.commute)
  have "\<not> p <s 0" using assms(6) by (intro not_negative) simp
  then have "read_loop pages i p len out = read_loop pages (i + 1) (p + a) (len - a) (out @ take (unat a) (drop (unat p) (concat pages)))"
    using assms(4,5) chunk unfolding a_def by (subst read_loop.simps) (simp add: Let_def o)
  moreover note au
  moreover have "unat (p + a) = unat p + unat a"
    by (rule unat_add_lem [THEN iffD1]) (use assms(6) au in simp)
  moreover have "unat (len - a) = unat len - unat a" using au by (intro unat_sub) (simp add: word_le_nat_alt)
  ultimately show thesis by (rule that)
qed

lemma take_drop_take: "k \<le> m \<Longrightarrow> take k (drop p xs) @ take (m - k) (drop (p + k) xs) = take m (drop p xs)"
  using take_add [of k "m - k" "drop p xs"] by (simp add: add.commute)

lemma read_loop_spec:
  assumes "whole pages" "unat p = 4096 * i + off" "off < 4096" "unat p + unat len \<le> 4096 * length pages" "4096 * length pages < 2 ^ 62"
  shows "read_loop pages i p len out = Some (out @ take (unat len) (drop (unat p) (concat pages)), p + len)"
  using assms(2-4)
proof (induction "length pages - i" arbitrary: i p off len out rule: less_induct)
  case less
  show ?case
  proof (cases "len = 0")
    case True
    then show ?thesis by (subst read_loop.simps) simp
  next
    case False
    then have pos: "0 < unat len" by (simp add: unat_gt_0)
    then have i: "i < length pages" using less.prems by simp
    have b: "unat p < 2 ^ 62" "unat len < 2 ^ 62" using less.prems(3) assms(5) by linarith+
    obtain a where a: "read_loop pages i p len out = read_loop pages (i + 1) (p + a) (len - a) (out @ take (unat a) (drop (unat p) (concat pages)))"
      "unat a = min (unat len) (4096 - off)" "unat (p + a) = unat p + unat a" "unat (len - a) = unat len - unat a"
      by (rule read_step [where out = out, OF assms(1) less.prems(1,2) i False b])
    have split: "take (unat a) (drop (unat p) (concat pages)) @ take (unat (len - a)) (drop (unat (p + a)) (concat pages)) =
      take (unat len) (drop (unat p) (concat pages))" unfolding a(3,4) by (rule take_drop_take) (simp add: a(2))
    have "read_loop pages (i + 1) (p + a) (len - a) (out @ take (unat a) (drop (unat p) (concat pages))) =
      Some ((out @ take (unat a) (drop (unat p) (concat pages))) @ take (unat (len - a)) (drop (unat (p + a)) (concat pages)), p + a + (len - a))"
    proof (cases "unat len \<le> 4096 - off")
      case True
      then have "unat (len - a) = 0" unfolding a(4) a(2) by simp
      then have "len - a = 0" by (rule unat_eq_zero [THEN iffD1])
      then show ?thesis by (subst read_loop.simps) simp
    next
      case big: False
      then have n: "unat (p + a) = 4096 * (i + 1) + 0" using a(2,3) less.prems(1,2) by simp
      have "unat (p + a) + unat (len - a) \<le> 4096 * length pages" using a(2-4) less.prems(3) by simp
      then show ?thesis using i by (intro less.hyps [OF _ n]) simp_all
    qed
    then show ?thesis unfolding a(1) append_assoc split by simp
  qed
qed

section \<open>Writing\<close>

lemma write_step:
  fixes pages i p off buf
  defines "m \<equiv> min (length buf) (4096 - off)"
  assumes "whole pages" "unat p = 4096 * i + off" "off < 4096" "i < length pages" "buf \<noteq> []" "4096 * length pages < 2 ^ 62"
  obtains pages1 where "write_loop pages i p buf = write_loop pages1 (i + 1) (p + of_nat m) (drop m buf)"
    "whole pages1" "length pages1 = length pages" "unat (p + of_nat m) = unat p + m"
    "concat pages1 = take (unat p) (concat pages) @ take m buf @ replicate (4096 - (off + m)) 0 @ drop (4096 * (i + 1)) (concat pages)"
proof -
  define page where "page = take off (pages ! i) @ take m buf @ replicate (4096 - (off + m)) (0 :: u8)"
  have o: "unat (p AND 4095) = off" using page_offset [OF assms(3,4)] .
  have pb: "unat p < 2 ^ 62" using assms(3,4,5,7) by linarith
  then have neg: "\<not> p <s 0" by (intro not_negative) simp
  have len: "length (pages ! i) = 4096" using assms(2,5) by simp
  have lp: "length page = 4096" using assms(4) len unfolding page_def m_def by simp
  have "write_loop pages i p buf = write_loop (pages[i := page]) (i + 1) (p + of_nat m) (drop m buf)"
    using assms(5,6) neg unfolding page_def m_def by (subst write_loop.simps) (simp add: Let_def o)
  moreover have "whole (pages[i := page])" using assms(2) lp set_update_subset_insert by fastforce
  moreover have "length (pages[i := page]) = length pages" by simp
  moreover have "unat (p + of_nat m) = unat p + m"
  proof -
    have "unat (of_nat m :: u64) = m" unfolding m_def by (intro unat_of_nat_small) simp
    then show ?thesis using pb unfolding m_def by (subst unat_add_lem [THEN iffD1]) simp_all
  qed
  moreover have "concat (pages[i := page]) =
    take (unat p) (concat pages) @ take m buf @ replicate (4096 - (off + m)) 0 @ drop (4096 * (i + 1)) (concat pages)"
  proof -
    have "take off (pages ! i) = take off (drop (4096 * i) (concat pages))"
      using assms(4) unfolding whole_split(2) [OF assms(2,5)] by (simp add: min_def)
    then have "take (4096 * i) (concat pages) @ take off (pages ! i) = take (unat p) (concat pages)" unfolding assms(3) by (simp add: take_add)
    then show ?thesis unfolding whole_split(1) [OF assms(2,5)] page_def by (metis append_assoc)
  qed
  ultimately show thesis by (rule that)
qed

lemma write_loop_spec:
  assumes "whole pages" "unat p = 4096 * i + off" "off < 4096" "buf \<noteq> []" "unat p + length buf \<le> 4096 * length pages" "4096 * length pages < 2 ^ 62"
  shows "\<exists>pages' pad. write_loop pages i p buf = Some (pages', p + of_nat (length buf)) \<and> whole pages' \<and> length pages' = length pages \<and>
    pad < 4096 \<and> 4096 dvd unat p + length buf + pad \<and>
    concat pages' = take (unat p) (concat pages) @ buf @ replicate pad 0 @ drop (unat p + length buf + pad) (concat pages)"
  using assms
proof (induction "length pages - i" arbitrary: pages i p off buf rule: less_induct)
  case less
  define m where "m = min (length buf) (4096 - off)"
  have bl: "0 < length buf" using less.prems(4) by simp
  have i: "i < length pages" using bl less.prems(2,5) by linarith
  have l: "unat p \<le> length (concat pages)" using less.prems(5) whole_length [OF less.prems(1)] by simp
  obtain pages1 where p1: "write_loop pages i p buf = write_loop pages1 (i + 1) (p + of_nat m) (drop m buf)"
    "whole pages1" "length pages1 = length pages" "unat (p + of_nat m) = unat p + m"
    "concat pages1 = take (unat p) (concat pages) @ take m buf @ replicate (4096 - (off + m)) 0 @ drop (4096 * (i + 1)) (concat pages)"
    unfolding m_def by (rule write_step [OF less.prems(1,2,3) i less.prems(4,6)])
  show ?case
  proof (cases "length buf \<le> 4096 - off")
    case True
    then have m: "m = length buf" unfolding m_def by simp
    have e: "4096 * (i + 1) = unat p + length buf + (4096 - (off + m))" using less.prems(2,3) True unfolding m by simp
    have "write_loop pages i p buf = Some (pages1, p + of_nat (length buf))" unfolding p1(1) m by (subst write_loop.simps) simp
    moreover have "0 < length buf" using less.prems(4) by simp
    ultimately show ?thesis using p1(2,3,5) less.prems(3) unfolding e m
      by (intro exI [of _ pages1] exI [of _ "4096 - (off + length buf)"]) (simp add: e [unfolded m, symmetric])
  next
    case False
    then have m: "m = 4096 - off" unfolding m_def by simp
    have um: "unat p + m = 4096 * (i + 1)" using less.prems(2,3) unfolding m by simp
    then have n: "unat (p + of_nat m) = 4096 * (i + 1) + 0" unfolding p1(4) by simp
    have c1: "concat pages1 = (take (unat p) (concat pages) @ take m buf) @ drop (unat p + m) (concat pages)"
      using p1(5) less.prems(3) unfolding um by (simp add: m)
    have "length (take (unat p) (concat pages) @ take m buf) = unat p + m" using l False m by simp
    then have c: "take (unat p + m) (concat pages1) = take (unat p) (concat pages) @ take m buf"
      "drop (unat p + m + k) (concat pages1) = drop (unat p + m + k) (concat pages)" for k
      unfolding c1 by (simp_all add: add.commute)
    have b: "unat (p + of_nat m) + length (drop m buf) = unat p + length buf" "drop m buf \<noteq> []" using False m p1(4) by simp_all
    have "\<exists>pages' pad. write_loop pages1 (i + 1) (p + of_nat m) (drop m buf) = Some (pages', p + of_nat m + of_nat (length (drop m buf))) \<and>
      whole pages' \<and> length pages' = length pages1 \<and> pad < 4096 \<and> 4096 dvd unat (p + of_nat m) + length (drop m buf) + pad \<and>
      concat pages' = take (unat (p + of_nat m)) (concat pages1) @ drop m buf @ replicate pad 0 @
        drop (unat (p + of_nat m) + length (drop m buf) + pad) (concat pages1)"
      by (rule less.hyps [OF _ p1(2) n _ b(2)]) (use i p1(3) b(1) less.prems(5,6) in simp_all)
    then obtain pages' pad where q: "write_loop pages1 (i + 1) (p + of_nat m) (drop m buf) = Some (pages', p + of_nat m + of_nat (length (drop m buf)))"
      "whole pages'" "length pages' = length pages1" "pad < 4096" "4096 dvd unat p + length buf + pad"
      "concat pages' = take (unat p + m) (concat pages1) @ drop m buf @ replicate pad 0 @ drop (unat p + length buf + pad) (concat pages1)"
      unfolding b(1) unfolding p1(4) by (elim exE conjE)
    have "p + of_nat m + of_nat (length (drop m buf)) = p + of_nat (length buf)"
      using False m by (simp add: of_nat_diff)
    moreover have "concat pages' = take (unat p) (concat pages) @ buf @ replicate pad 0 @ drop (unat p + length buf + pad) (concat pages)"
      using q(6) c(1) c(2) [of "length buf - m + pad"] False m by (simp add: add.assoc)
    ultimately show ?thesis using q(1-5) p1(1,3) by (intro exI [of _ pages'] exI [of _ pad]) simp
  qed
qed

lemma grow_loop_spec:
  assumes "unat req < 2 ^ 62"
  shows "\<exists>k. grow_loop new req pages fsize = (pages @ map new [length pages..<length pages + k], fsize + of_nat (4096 * k)) \<and>
    unat req \<le> 4096 * k \<and> 4096 * k < unat req + 4096"
  using assms
proof (induction new req pages fsize rule: grow_loop.induct)
  case (1 new req pages fsize)
  show ?case
  proof (cases "req = 0")
    case True
    then show ?thesis by (subst grow_loop.simps) (auto intro: exI [of _ 0])
  next
    case False
    then have pos: "0 < unat req" by (simp add: unat_gt_0)
    have small: "req <s 4096 \<longleftrightarrow> unat req < 4096" using at_most_page(1) [of req] "1.prems" by simp
    show ?thesis
    proof (cases "unat req < 4096")
      case True
      then have "grow_loop new req pages fsize = (pages @ map new [length pages..<length pages + 1], fsize + of_nat (4096 * 1))"
        using False small by (subst grow_loop.simps) simp
      then show ?thesis using True pos by (intro exI [of _ 1]) simp
    next
      case big: False
      have u: "unat (req - 4096) = unat req - 4096" using big by (simp add: unat_sub word_le_nat_alt)
      have step: "grow_loop new req pages fsize = grow_loop new (req - 4096) (pages @ [new (length pages)]) (fsize + 4096)"
        using False small big by (subst grow_loop.simps) simp
      have "\<exists>k. grow_loop new (req - 4096) (pages @ [new (length pages)]) (fsize + 4096) =
          ((pages @ [new (length pages)]) @ map new [length (pages @ [new (length pages)])..<length (pages @ [new (length pages)]) + k],
           fsize + 4096 + of_nat (4096 * k)) \<and> unat (req - 4096) \<le> 4096 * k \<and> 4096 * k < unat (req - 4096) + 4096"
        by (rule "1.IH" [OF False refl refl]) (use small big u "1.prems" in simp_all)
      then obtain k where k: "grow_loop new (req - 4096) (pages @ [new (length pages)]) (fsize + 4096) =
          ((pages @ [new (length pages)]) @ map new [length (pages @ [new (length pages)])..<length (pages @ [new (length pages)]) + k],
           fsize + 4096 + of_nat (4096 * k))" "unat req - 4096 \<le> 4096 * k" "4096 * k < unat req - 4096 + 4096"
        unfolding u by (elim exE conjE)
      have "[length pages..<length pages + (k + 1)] = length pages # [Suc (length pages)..<Suc (length pages) + k]"
        by (simp add: upt_conv_Cons)
      then have "grow_loop new req pages fsize = (pages @ map new [length pages..<length pages + (k + 1)], fsize + of_nat (4096 * (k + 1)))"
        unfolding step k(1) by (simp add: algebra_simps)
      then show ?thesis using k(2,3) big by (intro exI [of _ "k + 1"]) simp
    qed
  qed
qed

section \<open>Files\<close>

definition contents :: "'a vfs_scheme \<Rightarrow> nat \<Rightarrow> u8 list" where
  "contents s n = (case ndata (vnode_of s n) of None \<Rightarrow> [] | Some d \<Rightarrow> concat (file_pages s d))"

text \<open>The size of a file in memory is the size of its pages.\<close>

definition file_ok :: "'a vfs_scheme \<Rightarrow> nat \<Rightarrow> bool" where
  "file_ok s n \<longleftrightarrow> (case ndata (vnode_of s n) of None \<Rightarrow> nsize (vnode_of s n) = 0
     | Some d \<Rightarrow> whole (file_pages s d) \<and> unat (nsize (vnode_of s n)) = 4096 * length (file_pages s d))"

lemma same_multiple:
  assumes "a dvd x" "a dvd y" "z \<le> x" "x < z + a" "z \<le> y" "y < z + (a :: nat)" shows "x = y"
proof -
  obtain i j where ij: "x = a * i" "y = a * j" using assms(1,2) by (auto elim!: dvdE)
  have "a * i < a * (j + 1)" "a * j < a * (i + 1)" using assms(3-6) unfolding ij by simp_all
  then have "i < j + 1" "j < i + 1" unfolding mult_less_cancel1 by blast+
  then show ?thesis unfolding ij by simp
qed

text \<open>The pages of a file that is about to hold \<^term>\<open>e\<close> bytes.\<close>

lemma grown:
  assumes "whole old" "unat fsize = 4096 * length old" "\<forall>j. length (new j) = 4096" "unat (e :: u64) < 2 ^ 61" "unat fsize < 2 ^ 61"
  obtains pages fsize' X where
    "grow_file new e old fsize = (pages, fsize')"
    "whole pages" "unat fsize' = 4096 * length pages" "concat pages = concat old @ X" "unat e \<le> 4096 * length pages"
    "X = [] \<or> 4096 * length pages < unat e + 4096" "4096 * length pages < 2 ^ 62" "unat e = 0 \<or> pages \<noteq> []"
proof -
  have s: "sint fsize = int (unat fsize)" "sint e = int (unat e)" using assms(4,5) sint_small [of fsize] sint_small [of e] by simp_all
  have lt: "fsize <s e \<longleftrightarrow> unat fsize < unat e" unfolding word_sless_alt s by presburger
  show thesis
  proof (cases "unat fsize < unat e")
    case False
    then have "unat e \<le> 4096 * length old" "unat e = 0 \<or> old \<noteq> []" using assms(2) by auto
    then show thesis using lt assms(1,2,5) False by (intro that [of old fsize "[]"]) (auto simp: grow_file_def)
  next
    case True
    then have d: "unat (e - fsize) = unat e - unat fsize" by (intro unat_sub) (simp add: word_le_nat_alt)
    then have "unat (e - fsize) < 2 ^ 62" using assms(4) by simp
    then obtain k where k: "grow_loop new (e - fsize) old fsize = (old @ map new [length old..<length old + k], fsize + of_nat (4096 * k))"
      "unat (e - fsize) \<le> 4096 * k" "4096 * k < unat (e - fsize) + 4096" using grow_loop_spec by metis
    have kb: "unat fsize + 4096 * k < unat e + 4096" "unat e \<le> unat fsize + 4096 * k" using k(2,3) True unfolding d by linarith+
    have u: "unat (of_nat (4096 * k) :: u64) = 4096 * k" using kb assms(4) by (intro unat_of_nat_small) simp
    have "unat fsize + unat (of_nat (4096 * k) :: u64) < 2 ^ 62" unfolding u using kb(1) assms(4) by simp
    from unat_add_below [OF this] have "unat (fsize + of_nat (4096 * k)) = unat fsize + 4096 * k" unfolding u .
    then show thesis using lt True k(1) kb assms that
      [of "old @ map new [length old..<length old + k]" "fsize + of_nat (4096 * k)" "concat (map new [length old..<length old + k])"]
      by (auto simp: grow_file_def)
  qed
qed

text \<open>What a write leaves in the contents, given the pages before and after it.\<close>

lemma spliced:
  assumes "concat pages = C @ X" "P \<le> length C" "length (concat pages) = 4096 * length pages"
    "X = [] \<or> 4096 * length pages < e + 4096" "e \<le> 4096 * length pages" "pad < 4096" "4096 dvd e + pad"
  shows "take P (concat pages) @ buf @ replicate pad 0 @ drop (e + pad) (concat pages) = take P C @ buf @ replicate pad 0 @ drop (e + pad) C"
proof (cases "X = []")
  case True
  then show ?thesis using assms(1) by simp
next
  case False
  then have "4096 * length pages = e + pad"
    using assms(4-7) by (intro same_multiple [of 4096 _ _ e]) simp_all
  then have l: "length (concat pages) = e + pad" using assms(3) by simp
  then have "length C \<le> e + pad" unfolding assms(1) by simp
  then show ?thesis using l assms(1,2) by simp
qed

lemma ramfs_write_spec:
  assumes "file < length (files s)" "finode (files s ! file) = Some n" "vnode_live s n" "file_ok s n" "\<forall>j. length (new j) = 4096"
    "buf \<noteq> []" "unat (fpos (files s ! file)) \<le> length (contents s n)"
    "unat (fpos (files s ! file)) + length buf < 2 ^ 61" "unat (nsize (vnode_of s n)) < 2 ^ 61"
  obtains s' pad where "ramfs_write new file buf s = Some (Inr (of_nat (length buf)), s')"
    "pad < 4096" "4096 dvd unat (fpos (files s ! file)) + length buf + pad"
    "contents s' n = take (unat (fpos (files s ! file))) (contents s n) @ buf @ replicate pad 0 @
       drop (unat (fpos (files s ! file)) + length buf + pad) (contents s n)"
    "file_ok s' n" "files s' = (files s)[file := (files s ! file)\<lparr>fpos := fpos (files s ! file) + of_nat (length buf)\<rparr>]"
    "vnode_live s' = vnode_live s" "ndata (vnode_of s' n) \<noteq> None" "4096 * length (file_pages s' (the (ndata (vnode_of s' n)))) < 2 ^ 62"
proof -
  define p where "p = fpos (files s ! file)"
  obtain d old where dd: "file_data s (vnode_of s n) = (d, old)" by fastforce
  define e where "e = p + of_nat (length buf)"
  have old: "whole old" "unat (nsize (vnode_of s n)) = 4096 * length old" "contents s n = concat old"
    using assms(4) dd unfolding file_ok_def file_data_def contents_def by (auto split: option.splits)
  have ub: "unat (of_nat (length buf) :: u64) = length buf" using assms(8) by (intro unat_of_nat_small) simp
  have ue: "unat e = unat p + length buf"
    using unat_add_below [of p "of_nat (length buf)"] assms(8) unfolding ub e_def p_def by simp
  have e61: "unat e < 2 ^ 61" unfolding ue p_def using assms(8) .
  obtain pages fsize X where g: "grow_file new e old (nsize (vnode_of s n)) = (pages, fsize)"
    "whole pages" "unat fsize = 4096 * length pages" "concat pages = concat old @ X" "unat e \<le> 4096 * length pages"
    "X = [] \<or> 4096 * length pages < unat e + 4096" "4096 * length pages < 2 ^ 62" "unat e = 0 \<or> pages \<noteq> []"
    by (rule grown [OF old(1,2) assms(5) e61 assms(9)])
  have ne: "pages \<noteq> []" using g(8) assms(6) ue by simp
  define i off where "i = unat p div 4096" and "off = unat p mod 4096"
  have io: "unat p = 4096 * i + off" "off < 4096" unfolding i_def off_def by simp_all
  have ib: "i \<le> length pages" using io g(5) ue by linarith
  have "unat p < 2 ^ 62" using g(5,7) ue by linarith
  then have p63: "unat p < 2 ^ 63" by simp
  have seek: "(if p = 0 then 0 else seek_around (length pages) p 0) = i"
    using seek_around_spec [OF io p63, of 0 "length pages"] ib io(1) by auto
  obtain pages' pad where w: "write_loop pages i p buf = Some (pages', e)" "whole pages'" "length pages' = length pages" "pad < 4096"
    "4096 dvd unat e + pad" "concat pages' = take (unat p) (concat pages) @ buf @ replicate pad 0 @ drop (unat e + pad) (concat pages)"
    using write_loop_spec [OF g(2) io assms(6) g(5) [unfolded ue] g(7)] unfolding e_def [symmetric] ue by (elim exE conjE)
  define s' where "s' = set_pos file e (upd_node n (\<lambda>x. x\<lparr>nsize := fsize, ndata := Some d\<rparr>)
    ((if ndata (vnode_of s n) = None then s\<lparr>next_object := next_object s + 1\<rparr> else s)\<lparr>file_pages := (file_pages s)(d := pages')\<rparr>))"
  have c: "contents s' n = concat pages'" "file_ok s' n" "vnode_live s' = vnode_live s" "ndata (vnode_of s' n) = Some d"
    "files s' = (files s)[file := (files s ! file)\<lparr>fpos := e\<rparr>]" "file_pages s' d = pages'"
    using w(2,3) g(3) unfolding s'_def contents_def file_ok_def set_pos_def upd_node_def by simp_all
  show thesis
  proof (rule that [of s' pad])
    show "ramfs_write new file buf s = Some (Inr (of_nat (length buf)), s')"
      using assms(1-3) ne w(1) unfolding ramfs_write_def s'_def
      by (simp add: get_node_def Let_def seek dd p_def [symmetric] e_def [symmetric] g(1))
    show "contents s' n = take (unat (fpos (files s ! file))) (contents s n) @ buf @ replicate pad 0 @
       drop (unat (fpos (files s ! file)) + length buf + pad) (contents s n)"
      unfolding c(1) w(6) p_def [symmetric] ue [symmetric] old(3)
      by (rule spliced [OF g(4) _ whole_length [OF g(2)] g(6,5) w(4,5)]) (use assms(7) old(3) p_def in simp)
    show "4096 dvd unat (fpos (files s ! file)) + length buf + pad" using w(5) unfolding ue p_def .
    show "4096 * length (file_pages s' (the (ndata (vnode_of s' n)))) < 2 ^ 62" unfolding c(4) option.sel c(6) w(3) by (rule g(7))
  qed (use w(4) c e_def p_def in simp_all)
qed

text \<open>C32: A write at a position within a file puts the bytes there, extends the file by whole pages if it has to,
  and sets everything behind them to zero up to the end of their last page, whatever was there before; the
  bytes in front and the later pages stay.  Reading the same number of bytes from the old position then gives
  back what was written.\<close>

theorem ramfs_write_read:
  assumes "file < length (files s)" "finode (files s ! file) = Some n" "vnode_live s n" "file_ok s n" "\<forall>j. length (new j) = 4096"
    "buf \<noteq> []" "p = fpos (files s ! file)" "unat p \<le> length (contents s n)"
    "unat p + length buf < 2 ^ 61" "unat (nsize (vnode_of s n)) < 2 ^ 61"
  shows "\<exists>s' pad. ramfs_write new file buf s = Some (Inr (of_nat (length buf)), s') \<and> pad < 4096 \<and>
    4096 dvd unat p + length buf + pad \<and> file_ok s' n \<and>
    contents s' n = take (unat p) (contents s n) @ buf @ replicate pad 0 @ drop (unat p + length buf + pad) (contents s n) \<and>
    ramfs_read file (of_nat (length buf)) (set_pos file p s') = Some (Inr buf, s')"
proof -
  obtain s' pad where w: "ramfs_write new file buf s = Some (Inr (of_nat (length buf)), s')" "pad < 4096" "4096 dvd unat p + length buf + pad"
    "contents s' n = take (unat p) (contents s n) @ buf @ replicate pad 0 @ drop (unat p + length buf + pad) (contents s n)"
    "file_ok s' n" "files s' = (files s)[file := (files s ! file)\<lparr>fpos := p + of_nat (length buf)\<rparr>]"
    "vnode_live s' = vnode_live s" "ndata (vnode_of s' n) \<noteq> None" "4096 * length (file_pages s' (the (ndata (vnode_of s' n)))) < 2 ^ 62"
    unfolding assms(7) by (rule ramfs_write_spec [OF assms(1-6) assms(8-9)[unfolded assms(7)] assms(10)])
  obtain d where d: "ndata (vnode_of s' n) = Some d" using w(8) by blast
  let ?s = "set_pos file p s'" and ?C = "contents s' n"
  have pages: "whole (file_pages s' d)" "?C = concat (file_pages s' d)" "4096 * length (file_pages s' d) < 2 ^ 62"
    using w(5,9) d by (simp_all add: file_ok_def contents_def)
  have ub: "unat (of_nat (length buf) :: u64) = length buf" using assms(9) by (intro unat_of_nat_small) simp
  have "length ?C \<ge> unat p + length buf" unfolding w(4) using assms(8) by simp
  then have fit: "unat p + length buf \<le> 4096 * length (file_pages s' d)" using whole_length [OF pages(1)] pages(2) by simp
  define i off where "i = unat p div 4096" and "off = unat p mod 4096"
  have io: "unat p = 4096 * i + off" "off < 4096" unfolding i_def off_def by simp_all
  have "unat p < 2 ^ 62" using fit pages(3) by linarith
  then have p63: "unat p < 2 ^ 63" by simp
  have "0 + i \<le> length (file_pages s' d)" using io fit by linarith
  then have seek: "seek_page (length (file_pages s' d)) p 0 = Some i" using seek_page_spec [OF io p63] by simp
  have read: "read_loop (file_pages s' d) i p (of_nat (length buf)) [] = Some (buf, p + of_nat (length buf))"
    using read_loop_spec [OF pages(1) io _ pages(3), of "of_nat (length buf)" "[]"] fit assms(8)
    unfolding ub pages(2) [symmetric] w(4) by simp
  have f: "files ?s ! file = (files s ! file)\<lparr>fpos := p\<rparr>" "file < length (files ?s)" "vnode_of ?s = vnode_of s'" "file_pages ?s = file_pages s'"
    "vnode_live ?s n" using assms(1,3) w(6,7) by (simp_all add: set_pos_def)
  have again: "set_pos file (p + of_nat (length buf)) ?s = s'" using assms(1) w(6) by (simp add: set_pos_def)
  have "ramfs_read file (of_nat (length buf)) ?s = Some (Inr buf, s')"
    using assms(2) f d seek read again by (simp add: ramfs_read_def get_node_def Let_def)
  then show ?thesis using w(1-5) by blast
qed

definition demo_open :: vfs where
  "demo_open = demo_vfs\<lparr>files := (files demo_vfs)[0 := \<lparr>fpos = 0, finode = Some 3, fpath = Some 4, fs_id = 0, refcount = 1\<rparr>]\<rparr>"

theorem ramfs_write_read_witness:
  "\<exists>s'. ramfs_write (\<lambda>_. replicate 4096 7) 0 [1, 2, 3] demo_open = Some (Inr 3, s') \<and>
    ramfs_read 0 3 (set_pos 0 0 s') = Some (Inr [1, 2, 3], s')"
proof -
  have d: "0 < length (files demo_open)" "files demo_open ! 0 = \<lparr>fpos = 0, finode = Some 3, fpath = Some 4, fs_id = 0, refcount = 1\<rparr>"
    "vnode_live demo_open 3" "vnode_of demo_open 3 = demo_node S_IFREG" by (simp_all add: demo_open_def demo_vfs_def)
  have "file_ok demo_open 3" "nsize (vnode_of demo_open 3) = 0" unfolding file_ok_def d(4) by (simp_all add: demo_node_def)
  then show ?thesis
    using ramfs_write_read [of 0 demo_open 3 "\<lambda>_. replicate 4096 7" "[1, 2, 3]" 0] d(1-3) by fastforce
qed

end
