(* ===== verification/Vfs_Sys.thy ===== *)
theory Vfs_Sys
  imports Vfs_File Vm_Space
begin

text \<open>
  The file system calls (\<^verbatim>\<open>fs/vfs_sys.c\<close>).  A path is the address of a string in user memory; what the memory
  holds there is the argument \<^term>\<open>ustr\<close>, and reading where nothing is mapped is \<^term>\<open>None\<close>.  The 32 descriptors
  of a task hold positions in the kernel's table of open files, or a negative number.
\<close>

section \<open>Descriptors of a task\<close>

definition current_of :: "('a vfs_scheme) kernel_ops \<Rightarrow> 'a vfs_scheme \<Rightarrow> nat option" where
  "current_of K s = smp_current_task (this_cpu K) s"

text \<open>The first descriptor that is unused; \<^verbatim>\<open>sys_open\<close> looks for -1, \<^verbatim>\<open>sys_dup\<close> for any negative number.\<close>

definition unused_fd :: "(int \<Rightarrow> bool) \<Rightarrow> int list \<Rightarrow> nat option" where
  "unused_fd P fds = find (\<lambda>i. P (fds ! i)) [0..<length fds]"

text \<open>The position in the table of open files that a descriptor stands for.\<close>

definition user_fd :: "nat \<Rightarrow> int \<Rightarrow> 'a vfs_scheme \<Rightarrow> nat result option" where
  "user_fd t fd s =
     (let fds = open_files (task_of s t)
      in if fd < 0 then Some (Inl EBADF)
         else if length fds \<le> nat fd then None
         else if fds ! nat fd < 0 then Some (Inl EBADF) else Some (Inr (nat (fds ! nat fd))))"

definition set_fd :: "nat \<Rightarrow> nat \<Rightarrow> int \<Rightarrow> 'a vfs_scheme \<Rightarrow> 'a vfs_scheme" where
  "set_fd t fd v s = upd_task t (\<lambda>x. x\<lparr>open_files := (open_files x)[fd := v]\<rparr>) s"

section \<open>System calls\<close>

definition sys_open ::
  "('a vfs_scheme) kernel_ops \<Rightarrow> (u64 \<Rightarrow> string option) \<Rightarrow> u64 \<Rightarrow> u32 \<Rightarrow> 'a vfs_scheme \<Rightarrow> (nat result \<times> 'a vfs_scheme) option" where
  "sys_open K ustr p flags s =
     (if p = 0 then Some (Inl EINVAL, s)
      else if \<not> vm_validate_ptr p PATH_MAX then Some (Inl EFAULT, s)
      else do {
        t \<leftarrow> current_of K s;
        (case unused_fd (\<lambda>v. v = -1) (open_files (task_of s t)) of None \<Rightarrow> Some (Inl EMFILE, s)
         | Some fd \<Rightarrow> do {
             name \<leftarrow> ustr p;
             (v_fd, s) \<leftarrow> vfs_open K name flags s;
             Some (case v_fd of Inl e \<Rightarrow> (Inl e, s) | Inr v \<Rightarrow> (Inr fd, set_fd t fd (int v) s))
           })
      })"

definition sys_openat ::
  "('a vfs_scheme) kernel_ops \<Rightarrow> (u64 \<Rightarrow> string option) \<Rightarrow> int \<Rightarrow> u64 \<Rightarrow> u32 \<Rightarrow> 'a vfs_scheme \<Rightarrow> (nat result \<times> 'a vfs_scheme) option" where
  "sys_openat K ustr fd p flags s =
     (if p = 0 then Some (Inl EINVAL, s)
      else if \<not> vm_validate_ptr p PATH_MAX then Some (Inl EFAULT, s)
      else do {
        t \<leftarrow> current_of K s;
        (case unused_fd (\<lambda>v. v = -1) (open_files (task_of s t)) of None \<Rightarrow> Some (Inl EMFILE, s)
         | Some new_fd \<Rightarrow> do {
             sys_fd \<leftarrow> (if fd = AT_FDCWD then Some (Inr fd) else do { r \<leftarrow> user_fd t fd s; Some (map_sum id int r) });
             (case sys_fd of Inl e \<Rightarrow> Some (Inl e, s)
              | Inr sys_fd \<Rightarrow> do {
                  name \<leftarrow> ustr p;
                  (v_fd, s) \<leftarrow> vfs_openat K sys_fd name flags s;
                  Some (case v_fd of Inl e \<Rightarrow> (Inl e, s) | Inr v \<Rightarrow> (Inr new_fd, set_fd t new_fd (int v) s))
                })
           })
      })"

definition sys_close :: "('a vfs_scheme) kernel_ops \<Rightarrow> int \<Rightarrow> 'a vfs_scheme \<Rightarrow> (unit result \<times> 'a vfs_scheme) option" where
  "sys_close K fd s = do {
     t \<leftarrow> current_of K s;
     v \<leftarrow> user_fd t fd s;
     (case v of Inl e \<Rightarrow> Some (Inl e, s) | Inr v \<Rightarrow> vfs_close K v (set_fd t (nat fd) (-1) s))
   }"

definition sys_read ::
  "('a vfs_scheme) kernel_ops \<Rightarrow> int \<Rightarrow> u64 \<Rightarrow> u64 \<Rightarrow> 'a vfs_scheme \<Rightarrow> (u8 list result \<times> 'a vfs_scheme) option" where
  "sys_read K fd buffer len s = do {
     t \<leftarrow> current_of K s;
     v \<leftarrow> user_fd t fd s;
     (case v of Inl e \<Rightarrow> Some (Inl e, s)
      | Inr v \<Rightarrow> if \<not> vm_validate_ptr buffer len then Some (Inl EFAULT, s) else vfs_read K v len s)
   }"

definition sys_write ::
  "('a vfs_scheme) kernel_ops \<Rightarrow> int \<Rightarrow> u64 \<Rightarrow> u8 list \<Rightarrow> 'a vfs_scheme \<Rightarrow> (u64 result \<times> 'a vfs_scheme) option" where
  "sys_write K fd buffer bytes s = do {
     t \<leftarrow> current_of K s;
     v \<leftarrow> user_fd t fd s;
     (case v of Inl e \<Rightarrow> Some (Inl e, s)
      | Inr v \<Rightarrow> if \<not> vm_validate_ptr buffer (of_nat (length bytes)) then Some (Inl EFAULT, s) else vfs_write K v bytes s)
   }"

definition sys_seek :: "('a vfs_scheme) kernel_ops \<Rightarrow> int \<Rightarrow> u64 \<Rightarrow> u32 \<Rightarrow> 'a vfs_scheme \<Rightarrow> (u64 result \<times> 'a vfs_scheme) option" where
  "sys_seek K fd offset flags s = do {
     t \<leftarrow> current_of K s;
     v \<leftarrow> user_fd t fd s;
     (case v of Inl e \<Rightarrow> Some (Inl e, s) | Inr v \<Rightarrow> vfs_seek v offset flags s)
   }"

definition sys_dup :: "('a vfs_scheme) kernel_ops \<Rightarrow> int \<Rightarrow> 'a vfs_scheme \<Rightarrow> (nat result \<times> 'a vfs_scheme) option" where
  "sys_dup K fd s = do {
     t \<leftarrow> current_of K s;
     v \<leftarrow> user_fd t fd s;
     (case v of Inl e \<Rightarrow> Some (Inl e, s)
      | Inr v \<Rightarrow>
          (case unused_fd (\<lambda>v. v < 0) (open_files (task_of s t)) of None \<Rightarrow> Some (Inl EMFILE, s)
           | Some newfd \<Rightarrow> do {
               (r, s) \<leftarrow> vfs_dup v s;
               Some (Inr newfd, set_fd t newfd (case r of Inl e \<Rightarrow> - errno_number e | Inr v \<Rightarrow> int v) s)
             }))
   }"

definition sys_ioctl :: "('a vfs_scheme) kernel_ops \<Rightarrow> int \<Rightarrow> u64 \<Rightarrow> u64 \<Rightarrow> 'a vfs_scheme \<Rightarrow> (int result \<times> 'a vfs_scheme) option" where
  "sys_ioctl K fd op arg s = do {
     t \<leftarrow> current_of K s;
     v \<leftarrow> user_fd t fd s;
     (case v of Inl e \<Rightarrow> Some (Inl e, s) | Inr v \<Rightarrow> vfs_ioctl K v op arg s)
   }"

text \<open>\<^verbatim>\<open>sizeof(struct stat)\<close>.\<close>

definition sizeof_stat :: u64 where "sizeof_stat = 144"

definition sys_stat ::
  "('a vfs_scheme) kernel_ops \<Rightarrow> (u64 \<Rightarrow> string option) \<Rightarrow> u64 \<Rightarrow> u64 \<Rightarrow> 'a vfs_scheme \<Rightarrow> (stat result \<times> 'a vfs_scheme) option" where
  "sys_stat K ustr p buffer s =
     (if \<not> vm_validate_ptr p PATH_MAX \<or> \<not> vm_validate_ptr buffer sizeof_stat then Some (Inl EFAULT, s)
      else do { name \<leftarrow> ustr p; vfs_stat K name s })"

definition sys_fstat :: "('a vfs_scheme) kernel_ops \<Rightarrow> int \<Rightarrow> u64 \<Rightarrow> 'a vfs_scheme \<Rightarrow> stat result option" where
  "sys_fstat K fd buffer s = do {
     t \<leftarrow> current_of K s;
     v \<leftarrow> user_fd t fd s;
     (case v of Inl e \<Rightarrow> Some (Inl e)
      | Inr v \<Rightarrow> if \<not> vm_validate_ptr buffer sizeof_stat then Some (Inl EFAULT) else do { st \<leftarrow> vfs_fstat v s; Some (Inr st) })
   }"

definition sys_getdents ::
  "('a vfs_scheme) kernel_ops \<Rightarrow> int \<Rightarrow> u64 \<Rightarrow> u64 \<Rightarrow> 'a vfs_scheme \<Rightarrow> (u8 list result \<times> 'a vfs_scheme) option" where
  "sys_getdents K fd buffer len s = do {
     t \<leftarrow> current_of K s;
     v \<leftarrow> user_fd t fd s;
     (case v of Inl e \<Rightarrow> Some (Inl e, s)
      | Inr v \<Rightarrow> if \<not> vm_validate_ptr buffer len then Some (Inl EFAULT, s) else vfs_getdents K v len s)
   }"

definition sys_mkdir ::
  "('a vfs_scheme) kernel_ops \<Rightarrow> (u64 \<Rightarrow> string option) \<Rightarrow> u64 \<Rightarrow> u32 \<Rightarrow> 'a vfs_scheme \<Rightarrow> (unit result \<times> 'a vfs_scheme) option" where
  "sys_mkdir K ustr p mode s =
     (if \<not> vm_validate_ptr p PATH_MAX then Some (Inl EFAULT, s) else do { name \<leftarrow> ustr p; vfs_mkdir K name mode s })"

definition sys_mount ::
  "('a vfs_scheme) kernel_ops \<Rightarrow> (u64 \<Rightarrow> string option) \<Rightarrow> u64 \<Rightarrow> u64 \<Rightarrow> u64 \<Rightarrow> 'a vfs_scheme \<Rightarrow> (unit result \<times> 'a vfs_scheme) option" where
  "sys_mount K ustr src target fsname s =
     (if src \<noteq> 0 \<and> \<not> vm_validate_ptr src PATH_MAX \<or> \<not> vm_validate_ptr target PATH_MAX \<or> \<not> vm_validate_ptr fsname 32
      then Some (Inl EFAULT, s)
      else do {
        source \<leftarrow> (if src = 0 then Some None else do { n \<leftarrow> ustr src; Some (Some n) });
        t \<leftarrow> ustr target;
        f \<leftarrow> ustr fsname;
        vfs_mount K source t f s
      })"

definition sys_umount :: "u64 \<Rightarrow> unit result" where
  "sys_umount target = Inl ENOSYS"

section \<open>Opening and closing\<close>

lemma first_free_Some: "first_free fs = Some i \<Longrightarrow> i < length fs \<and> refcount (fs ! i) = 0"
  by (auto simp: first_free_def find_Some_iff)

text \<open>An open of an entry that has a node: a reference on the entry, one on the node, and the first free slot.\<close>

lemma open_entry_spec:
  assumes "tree_inv s" "ventry_live s e" "enode (ventry_of s e) = Some n" "nfops (vnode_of s n) \<noteq> None" "first_free (files s) = Some v"
  obtains s1 where "open_entry (ramfs_kernel cpu new nr) e flags s =
      Some (Inr v, upd_file v (\<lambda>_. \<lparr>fpos = 0, finode = Some n, fpath = Some e, fs_id = 0, refcount = 1\<rparr>)
        (upd_node n (\<lambda>x. x\<lparr>nref := nref x + 1\<rparr>) s1))"
    "lookup_rel (\<lambda>x. if x = e then 1 else 0) s s1" "tree_inv s1"
proof -
  obtain s1 where s1: "ventry_ref e s = Some s1" "lookup_rel (\<lambda>x. if x = e then 1 else 0) s s1" "tree_inv s1" "ventry_live s1 e"
    using ref [OF assms(1,2)] by blast
  note f = lookup_rel_fields [OF s1(2)]
  have fl: "files s1 = files s" using s1(2) by (auto simp: lookup_rel_def)
  have "vnode_live s n" using tree_inv_entry [OF assms(1,2)] assms(3) by (auto simp: entry_ok_def)
  then have "open_entry (ramfs_kernel cpu new nr) e flags s =
      Some (Inr v, upd_file v (\<lambda>_. \<lparr>fpos = 0, finode = Some n, fpath = Some e, fs_id = 0, refcount = 1\<rparr>)
        (upd_node n (\<lambda>x. x\<lparr>nref := nref x + 1\<rparr>) s1))"
    using s1(1,4) assms(3,4,5) f(2,7,8) fl
    by (auto simp: open_entry_def get_entry_def vfs_open_internal_def get_node_def ramfs_fops_def vnode_ref_def upd_node_def)
  then show thesis using that s1(2,3) by blast
qed

text \<open>The last close of a file: the references go, and the slot is free again.\<close>

lemma vfs_close_last:
  assumes "v < length (files s)" "files s ! v = \<lparr>fpos = q, finode = Some n, fpath = Some e, fs_id = k, refcount = 1\<rparr>"
    "vnode_live s n" "nfops (vnode_of s n) \<noteq> None" "nlink (vnode_of s n) \<noteq> 0"
    "ventry_live s e" "lock_free (eref (ventry_of s e))" "enode (ventry_of s e) \<noteq> None"
  obtains s1 where "vfs_close (ramfs_kernel cpu new nr) v s = Some (nr, upd_file v (\<lambda>_. free_file\<lparr>fs_id := -1\<rparr>) s1)"
    "lookup_rel (\<lambda>x. if x = e then -1 else 0) (upd_file v (\<lambda>_. \<lparr>fpos = 0, finode = None, fpath = Some e, fs_id = k, refcount = 0\<rparr>) (upd_node n (\<lambda>x. x\<lparr>nref := nref x - 1\<rparr>) s)) s1"
proof -
  let ?s = "upd_file v (\<lambda>_. \<lparr>fpos = 0, finode = None, fpath = Some e, fs_id = k, refcount = 0\<rparr>) (upd_node n (\<lambda>x. x\<lparr>nref := nref x - 1\<rparr>) s)"
  have "ventry_live ?s e" "lock_free (eref (ventry_of ?s e))" "enode (ventry_of ?s e) \<noteq> None"
    using assms(6-8) by (simp_all add: upd_node_def upd_file_def)
  then obtain s1 where s1: "ventry_put e ?s = Some s1" "lookup_rel (\<lambda>x. if x = e then -1 else 0) ?s s1"
    using ventry_put_held [of ?s e] by blast
  have f1: "files s1 = files ?s" using s1(2) by (auto simp: lookup_rel_def)
  obtain ops where ops: "nfops (vnode_of s n) = Some ops" using assms(4) by blast
  have "vfs_close (ramfs_kernel cpu new nr) v s = Some (nr, upd_file v (\<lambda>_. free_file\<lparr>fs_id := -1\<rparr>) s1)"
    using assms(1-3,5) ops s1(1) f1
    by (simp add: vfs_close_def vfs_put_file_def get_file_def get_node_def upd_file_def ramfs_fops_def vnode_put_def
        upd_node_def free_file_def)
  then show thesis using that s1(2) by blast
qed

lemma lookup_spec_live:
  assumes "tree_inv s" "ventry_live s d" "lookup_spec q s d name = Inr e"
  shows "ventry_live s e"
proof -
  obtain r where r: "walk q s (Some d) (path_components name) = Inr (Some r)" "e = entered s r"
    using assms(3) unfolding lookup_spec_def by (cases "walk q s (Some d) (path_components name)") (auto split: option.splits)
  have live: "ventry_live s r" using walk_live [OF assms(1) r(1) assms(2)] .
  then show ?thesis using tree_inv_entry [OF assms(1) live] r(2) unfolding entered_def entry_ok_def
    by (cases "emount (ventry_of s r)") auto
qed

lemma unused_fd_Some: "unused_fd P fds = Some i \<Longrightarrow> i < length fds \<and> P (fds ! i)"
  by (auto simp: unused_fd_def find_Some_iff)

definition opened :: "nat \<Rightarrow> nat \<Rightarrow> file_descriptor" where
  "opened n e = \<lparr>fpos = 0, finode = Some n, fpath = Some e, fs_id = 0, refcount = 1\<rparr>"

definition after_open :: "nat \<Rightarrow> nat \<Rightarrow> nat \<Rightarrow> nat \<Rightarrow> nat \<Rightarrow> 'a vfs_scheme \<Rightarrow> 'a vfs_scheme" where
  "after_open t fd v n e s = set_fd t fd (int v) (upd_file v (\<lambda>_. opened n e) (upd_node n (\<lambda>x. x\<lparr>nref := nref x + 1\<rparr>) s))"

lemma sys_open_existing:
  assumes "tree_inv s" "smp_current_task cpu s = Some t" "unused_fd (\<lambda>v. v = -1) (open_files (task_of s t)) = Some fd"
    "vm_validate_ptr p PATH_MAX" "p \<noteq> 0" "ustr p = Some name" "name \<noteq> [] \<longrightarrow> hd name \<noteq> CHR ''/''"
    "cwd (task_of s t) = Some d" "ventry_live s d" "length name < 64" "entered s d = d" "lookup_spec False s d name = Inr e"
    "enode (ventry_of s e) = Some n" "nfops (vnode_of s n) \<noteq> None" "first_free (files s) = Some v"
  obtains s2 where "sys_open (ramfs_kernel cpu new nr) ustr p flags s = Some (Inr fd, after_open t fd v n e s2)"
    "lookup_rel (\<lambda>x. if x = e then 1 else 0) s s2" "tree_inv s2"
proof -
  let ?K = "ramfs_kernel cpu new nr"
  have "lookup_spec (0 AND LOOKUP_PARENT \<noteq> 0) s d name = Inr e" using assms(12) by simp
  then obtain s1 where s1: "vfs_lookup_at ?K (Some d) name 0 s = Some (Inr e, s1)" "lookup_rel (\<lambda>_. 0) s s1" "tree_inv s1"
    using ramfs.lookup_at [OF assms(1,9,10,11), of cpu new nr 0] by metis
  note f1 = lookup_rel_fields [OF s1(2)]
  have fl1: "files s1 = files s" using s1(2) unfolding lookup_rel_def by auto
  have el: "ventry_live s1 e" using lookup_spec_live [OF assms(1,9,12)] by (simp add: f1)
  have e1: "enode (ventry_of s1 e) = Some n" "nfops (vnode_of s1 n) \<noteq> None" "first_free (files s1) = Some v"
    using assms(13-15) unfolding f1 fl1 by simp_all
  obtain s2 where s2: "open_entry ?K e flags s1 = Some (Inr v, upd_file v (\<lambda>_. opened n e) (upd_node n (\<lambda>x. x\<lparr>nref := nref x + 1\<rparr>) s2))"
    "lookup_rel (\<lambda>x. if x = e then 1 else 0) s1 s2" "tree_inv s2"
    unfolding opened_def by (rule open_entry_spec [OF s1(3) el e1])
  have "vfs_lookup ?K name 0 s = Some (Inr e, s1)" using assms(2,7,8) s1(1) by (cases name) (simp_all add: vfs_lookup_def)
  then have "vfs_open ?K name flags s = Some (Inr v, upd_file v (\<lambda>_. opened n e) (upd_node n (\<lambda>x. x\<lparr>nref := nref x + 1\<rparr>) s2))"
    using s2(1) by (simp add: vfs_open_def)
  then have "sys_open ?K ustr p flags s = Some (Inr fd, after_open t fd v n e s2)"
    using assms(2-6) by (simp add: sys_open_def current_of_def after_open_def)
  moreover have "lookup_rel (\<lambda>x. if x = e then 1 else 0) s s2" using lookup_rel_trans [OF s1(2) s2(2)] by simp
  ultimately show thesis using that s2(3) by blast
qed

lemma after_open_fields:
  "vnode_live (after_open t fd v n e s) = vnode_live s" "vnode_of (after_open t fd v n e s) = (vnode_of s)(n := (vnode_of s n)\<lparr>nref := nref (vnode_of s n) + 1\<rparr>)"
  "ventry_of (after_open t fd v n e s) = ventry_of s" "ventry_live (after_open t fd v n e s) = ventry_live s"
  "files (after_open t fd v n e s) = (files s)[v := opened n e]" "current_task (after_open t fd v n e s) = current_task s"
  "open_files (task_of (after_open t fd v n e s) t) = (open_files (task_of s t))[fd := int v]"
  by (simp_all add: after_open_def set_fd_def upd_task_def upd_file_def upd_node_def)

end
