(* ===== verification/Tty.thy ===== *)
theory Tty
  imports Task
begin

text \<open>
  Terminals (\<^verbatim>\<open>dev/tty.c\<close>, \<^verbatim>\<open>include/dev/tty.h\<close>): the ring buffer between the keyboard and the readers, the
  control characters, the output and the control calls.  What a terminal prints is recorded as a trace.  An access
  outside the 4096 bytes of the ring buffer is \<^term>\<open>None\<close>.  A reader that has to wait gives up the CPU between two
  turns of its loop; a turn is one step here.
\<close>

section \<open>Data\<close>

definition ICRNL :: u32 where "ICRNL = 0x100"
definition OPOST :: u32 where "OPOST = 0x1"
definition ONLCR :: u32 where "ONLCR = 0x4"
definition ISIG :: u32 where "ISIG = 0x1"
definition ICANON :: u32 where "ICANON = 0x2"
definition ECHO :: u32 where "ECHO = 0x8"
definition ECHOE :: u32 where "ECHOE = 0x10"
definition ECHOCTL :: u32 where "ECHOCTL = 0x200"
definition B38400 :: u32 where "B38400 = 0xF"
definition VINTR :: nat where "VINTR = 0"
definition SIGINT :: u32 where "SIGINT = 2"
definition tty_buffer_size :: u64 where "tty_buffer_size = 0x1000"

record termios =
  c_iflag :: u32
  c_oflag :: u32
  c_cflag :: u32
  c_lflag :: u32
  c_line :: u8
  c_cc :: "u8 list"
  ibaud :: u32
  obaud :: u32

record winsize =
  ws_row :: u16
  ws_col :: u16
  ws_xpixel :: u16
  ws_ypixel :: u16

record tty_device =
  read_buffer :: "u8 list"
  read_buffer_head :: u32
  read_buffer_tail :: u32
  tty_output :: "u8 list"
  session_id :: int
  fg_pgrp :: int
  tty_waitqueue :: nat
  tty_termios :: termios
  tty_winsize :: winsize

record ttys = ktasks +
  tty_of :: "nat \<Rightarrow> tty_device"

definition upd_tty :: "nat \<Rightarrow> (tty_device \<Rightarrow> tty_device) \<Rightarrow> 'a ttys_scheme \<Rightarrow> 'a ttys_scheme" where
  "upd_tty d f s = s\<lparr>tty_of := (tty_of s)(d := f (tty_of s d))\<rparr>"

definition default_termios :: termios where
  "default_termios = \<lparr>c_iflag = ICRNL, c_oflag = OPOST OR ONLCR, c_cflag = B38400,
     c_lflag = ISIG OR ICANON OR ECHO OR ECHOE OR ECHOCTL, c_line = 0,
     c_cc = (replicate 32 0)[0 := 0x03, 2 := 0x7F, 10 := 0x1A, 4 := 0x04], ibaud = 0, obaud = 0\<rparr>"

definition default_winsize :: winsize where
  "default_winsize = \<lparr>ws_row = 25, ws_col = 80, ws_xpixel = 0, ws_ypixel = 0\<rparr>"

text \<open>A new terminal; \<^term>\<open>buf\<close> is what the memory of its buffer held and \<^term>\<open>q\<close> its wait queue.\<close>

definition tty_init :: "u8 list \<Rightarrow> nat \<Rightarrow> tty_device" where
  "tty_init buf q = \<lparr>read_buffer = buf, read_buffer_head = 0, read_buffer_tail = 0, tty_output = [], session_id = 0,
     fg_pgrp = 0, tty_waitqueue = q, tty_termios = default_termios, tty_winsize = default_winsize\<rparr>"

section \<open>Input\<close>

definition tty_print :: "u8 \<Rightarrow> tty_device \<Rightarrow> tty_device" where
  "tty_print c d = d\<lparr>tty_output := tty_output d @ [c]\<rparr>"

text \<open>A character compares with a control character as a signed with an unsigned one.\<close>

definition tty_store :: "u8 \<Rightarrow> tty_device \<Rightarrow> tty_device option" where
  "tty_store c d =
     (if length (read_buffer d) \<le> unat (read_buffer_tail d) then None
      else Some (d\<lparr>read_buffer := (read_buffer d)[unat (read_buffer_tail d) := c],
                   read_buffer_tail := ucast (ucast (read_buffer_tail d + 1) mod tty_buffer_size)\<rparr>))"

definition tty_consume :: "nat \<Rightarrow> nat \<Rightarrow> u8 \<Rightarrow> 'a ttys_scheme \<Rightarrow> 'a ttys_scheme option" where
  "tty_consume cpu d c s =
     (if ucast (read_buffer_tail (tty_of s d) + 1) mod tty_buffer_size = ucast (read_buffer_head (tty_of s d)) then Some s
      else do {
        dev \<leftarrow> tty_store c (tty_of s d);
        let s = upd_tty d (\<lambda>_. dev) s;
        let tio = tty_termios dev;
        if c_lflag tio AND ISIG \<noteq> 0 \<and> sint c = uint (c_cc tio ! VINTR) then do {
          (_, s) \<leftarrow> pgrp_send_signal cpu (fg_pgrp dev) SIGINT s;
          Some s
        } else do {
          let c = (if c_iflag tio AND ICRNL \<noteq> 0 \<and> c = 0x0D then 0x0A else c);
          let s = (if c_lflag tio AND ECHO \<noteq> 0 then upd_tty d (tty_print c) s else s);
          wait_queue_wake cpu (tty_waitqueue dev) s
        }
      })"

section \<open>Reading\<close>

definition tty_empty :: "tty_device \<Rightarrow> bool" where
  "tty_empty d \<longleftrightarrow> read_buffer_head d = read_buffer_tail d"

text \<open>One turn of the waiting loop of \<^verbatim>\<open>tty_read\<close>, for the task of this CPU.  The task registers in the wait queue and
  goes to sleep first, and looks at the buffer then.\<close>

datatype turn = Ready | Interrupted | Yield

definition tty_wait_turn :: "nat \<Rightarrow> nat \<Rightarrow> 'a ttys_scheme \<Rightarrow> (turn \<times> 'a ttys_scheme) option" where
  "tty_wait_turn t d s = do {
     s \<leftarrow> wait_queue_register (tty_waitqueue (tty_of s d)) t s;
     let (ok, old, s) = cas_status t TASK_RUNNING TASK_INTR_SLEEPING s;
     if \<not> ok \<and> old \<noteq> TASK_INTR_SLEEPING then None
     else Some (if \<not> tty_empty (tty_of s d) then Ready else if signal_pending t s then Interrupted else Yield, s)
   }"

definition tty_wait_end :: "nat \<Rightarrow> 'a ttys_scheme \<Rightarrow> 'a ttys_scheme option" where
  "tty_wait_end t s = do {
     s \<leftarrow> wait_queue_unregister t s;
     let (_, _, s) = cas_status t TASK_INTR_SLEEPING TASK_RUNNING s;
     Some s
   }"

text \<open>The bytes a read copies, once there are some.\<close>

definition tty_take :: "u64 \<Rightarrow> tty_device \<Rightarrow> (u8 list \<times> tty_device) option" where
  "tty_take len d =
     (let head = read_buffer_head d; tail = read_buffer_tail d;
          read_count = (if head < tail then ucast (tail - head) else tty_buffer_size - ucast head + ucast tail);
          read_count = (if len < read_count then len else read_count)
      in if length (read_buffer d) < unat head + unat read_count then None
         else Some (take (unat read_count) (drop (unat head) (read_buffer d)),
                    d\<lparr>read_buffer_head := ucast ((ucast head + read_count) mod tty_buffer_size)\<rparr>))"

datatype read_outcome = Bytes "u8 list" | Failed errno | Waits

definition tty_read_turn :: "nat \<Rightarrow> nat \<Rightarrow> u64 \<Rightarrow> 'a ttys_scheme \<Rightarrow> (read_outcome \<times> 'a ttys_scheme) option" where
  "tty_read_turn t d len s = do {
     (r, s) \<leftarrow> tty_wait_turn t d s;
     case r of
       Yield \<Rightarrow> Some (Waits, s)
     | Interrupted \<Rightarrow> do { s \<leftarrow> tty_wait_end t s; Some (Failed EINTR, s) }
     | Ready \<Rightarrow> do {
         s \<leftarrow> tty_wait_end t s;
         (bytes, dev) \<leftarrow> tty_take len (tty_of s d);
         Some (Bytes bytes, upd_tty d (\<lambda>_. dev) s)
       }
   }"

definition tty_read :: "nat \<Rightarrow> nat \<Rightarrow> u64 \<Rightarrow> 'a ttys_scheme \<Rightarrow> (read_outcome \<times> 'a ttys_scheme) option" where
  "tty_read t d len s =
     (if tty_empty (tty_of s d) then tty_read_turn t d len s
      else do {
        (bytes, dev) \<leftarrow> tty_take len (tty_of s d);
        Some (Bytes bytes, upd_tty d (\<lambda>_. dev) s)
      })"

section \<open>Output and control\<close>

fun tty_write :: "u8 list \<Rightarrow> tty_device \<Rightarrow> tty_device" where
  "tty_write [] d = d"
| "tty_write (c # cs) d =
     (if c = 0 then d
      else tty_write cs (tty_print c (if c_oflag (tty_termios d) AND ONLCR \<noteq> 0 \<and> c = 0x0A then tty_print 0x0D d else d)))"

text \<open>Opening the terminal that a device number stands for.\<close>

definition tty_open :: "nat \<Rightarrow> nat option \<Rightarrow> 'a ttys_scheme \<Rightarrow> unit result \<times> 'a ttys_scheme" where
  "tty_open t dev s =
     (case dev of None \<Rightarrow> (Inl ENXIO, s)
      | Some d \<Rightarrow>
          let x = task_of s t
          in (Inr (), if tty x = None \<and> is_session_leader x \<and> session_id (tty_of s d) = 0
              then upd_tty d (\<lambda>y. y\<lparr>session_id := sid x, fg_pgrp := pgid x\<rparr>) (upd_task t (\<lambda>x. x\<lparr>tty := Some d\<rparr>) s)
              else s))"

definition TCGETS :: u64 where "TCGETS = 0x5401"
definition TCSETS :: u64 where "TCSETS = 0x5402"
definition TIOCSPGRP :: u64 where "TIOCSPGRP = 0x5410"
definition TIOCGWINSZ :: u64 where "TIOCGWINSZ = 0x5413"

text \<open>What a control call writes to user memory at its argument.\<close>

datatype reply = Nothing | Put_termios termios | Put_winsize winsize

definition bad_pointer :: "u64 \<Rightarrow> bool" where
  "bad_pointer arg \<longleftrightarrow> arg = 0 \<or> 0x7fffffffffff < arg"

text \<open>User memory is an argument: the process number and the settings it holds at an address.\<close>

definition tty_ioctl ::
  "(u64 \<Rightarrow> int option) \<Rightarrow> (u64 \<Rightarrow> termios option) \<Rightarrow> nat \<Rightarrow> nat option \<Rightarrow> u64 \<Rightarrow> u64 \<Rightarrow> 'a ttys_scheme \<Rightarrow>
   (reply result \<times> 'a ttys_scheme) option" where
  "tty_ioctl user_pid user_termios t dev op arg s =
     (case dev of None \<Rightarrow> Some (Inl ENOTTY, s)
      | Some d \<Rightarrow>
          let x = task_of s t
          in if tty x \<noteq> Some d then Some (Inl ENOTTY, s)
             else if op = TIOCSPGRP then
               if bad_pointer arg then Some (Inl EFAULT, s)
               else if sid x \<noteq> session_id (tty_of s d) then Some (Inl ENOTTY, s)
               else do {
                 pgrp \<leftarrow> user_pid arg;
                 Some (case get_pgrp_leader pgrp s of
                     None \<Rightarrow> (Inl EPERM, s)
                   | Some leader \<Rightarrow>
                       if sid (task_of s leader) \<noteq> sid x then (Inl EPERM, s)
                       else (Inr Nothing, upd_tty d (\<lambda>y. y\<lparr>fg_pgrp := pgrp\<rparr>) s))
               }
             else if op = TCGETS then
               Some (if bad_pointer arg then (Inl EFAULT, s) else (Inr (Put_termios (tty_termios (tty_of s d))), s))
             else if op = TCSETS then
               if bad_pointer arg then Some (Inl EFAULT, s)
               else do { tio \<leftarrow> user_termios arg; Some (Inr Nothing, upd_tty d (\<lambda>y. y\<lparr>tty_termios := tio\<rparr>) s) }
             else if op = TIOCGWINSZ then
               Some (if 0x7fffffffffff < arg then (Inl EFAULT, s) else (Inr (Put_winsize (tty_winsize (tty_of s d))), s))
             else Some (Inl EINVAL, s))"

section \<open>The buffer as a queue\<close>

definition tty_ok :: "tty_device \<Rightarrow> bool" where
  "tty_ok d \<longleftrightarrow> length (read_buffer d) = 4096 \<and> unat (read_buffer_head d) < 4096 \<and> unat (read_buffer_tail d) < 4096"

definition pending_count :: "tty_device \<Rightarrow> nat" where
  "pending_count d = (unat (read_buffer_tail d) + (4096 - unat (read_buffer_head d))) mod 4096"

definition pending :: "tty_device \<Rightarrow> u8 list" where
  "pending d = map (\<lambda>i. read_buffer d ! ((unat (read_buffer_head d) + i) mod 4096)) [0..<pending_count d]"

lemma length_pending [simp]: "length (pending d) = pending_count d"
  by (simp add: pending_def)

lemma size_nat: "unat tty_buffer_size = 4096"
  by (simp add: tty_buffer_size_def)

lemma next_index:
  fixes i :: u32
  assumes "unat i < 4096" shows "unat (ucast (i + 1) mod tty_buffer_size) = (unat i + 1) mod 4096"
  using assms by (simp add: unat_mod size_nat unat_add_small unat_ucast_up)

lemma pending_count_cases:
  assumes "tty_ok d"
  shows "pending_count d = (if unat (read_buffer_head d) \<le> unat (read_buffer_tail d)
    then unat (read_buffer_tail d) - unat (read_buffer_head d) else 4096 - unat (read_buffer_head d) + unat (read_buffer_tail d))"
proof (cases "unat (read_buffer_head d) \<le> unat (read_buffer_tail d)")
  case True
  then have "unat (read_buffer_tail d) + (4096 - unat (read_buffer_head d)) = 4096 + (unat (read_buffer_tail d) - unat (read_buffer_head d))"
    using assms by (simp add: tty_ok_def)
  then have "pending_count d = (unat (read_buffer_tail d) - unat (read_buffer_head d)) mod 4096"
    unfolding pending_count_def by (simp only: mod_add_self1)
  moreover have "unat (read_buffer_tail d) - unat (read_buffer_head d) < 4096" using assms by (simp add: tty_ok_def less_imp_diff_less)
  ultimately show ?thesis using True by simp
next
  case False
  then show ?thesis using assms by (simp add: pending_count_def tty_ok_def)
qed

lemma tail_index:
  assumes "tty_ok d" shows "(unat (read_buffer_head d) + pending_count d) mod 4096 = unat (read_buffer_tail d)"
  using pending_count_cases [OF assms] assms by (auto simp: tty_ok_def split: if_splits)

lemma not_full_iff:
  assumes "tty_ok d"
  shows "ucast (read_buffer_tail d + 1) mod tty_buffer_size = ucast (read_buffer_head d) \<longleftrightarrow> pending_count d = 4095"
proof -
  let ?h = "unat (read_buffer_head d)" and ?t = "unat (read_buffer_tail d)"
  have "ucast (read_buffer_tail d + 1) mod tty_buffer_size = ucast (read_buffer_head d) \<longleftrightarrow> (?t + 1) mod 4096 = ?h"
    using next_index [of "read_buffer_tail d"] assms by (simp add: word_unat_eq_iff tty_ok_def unat_ucast_up)
  also have "\<dots> \<longleftrightarrow> pending_count d = 4095"
    using pending_count_cases [OF assms] assms by (cases "?t = 4095") (auto simp: tty_ok_def split: if_splits)
  finally show ?thesis .
qed

lemma tty_store_spec:
  assumes "tty_ok d" "pending_count d \<noteq> 4095"
  shows "\<exists>d'. tty_store c d = Some d' \<and> tty_ok d' \<and> pending d' = pending d @ [c] \<and>
    tty_termios d' = tty_termios d \<and> tty_output d' = tty_output d \<and> fg_pgrp d' = fg_pgrp d \<and> tty_waitqueue d' = tty_waitqueue d"
proof -
  let ?h = "unat (read_buffer_head d)" and ?t = "unat (read_buffer_tail d)"
  define d' where "d' = d\<lparr>read_buffer := (read_buffer d)[?t := c], read_buffer_tail := ucast (ucast (read_buffer_tail d + 1) mod tty_buffer_size)\<rparr>"
  have ok: "length (read_buffer d) = 4096" "?h < 4096" "?t < 4096" using assms(1) by (simp_all add: tty_ok_def)
  have t': "unat (read_buffer_tail d') = (?t + 1) mod 4096" using next_index [OF ok(3)] by (simp add: d'_def unat_ucast_down)
  have ok': "tty_ok d'" using ok t' by (simp add: tty_ok_def d'_def)
  have lt: "pending_count d < 4096" by (simp add: pending_count_def)
  have cnt: "pending_count d' = pending_count d + 1"
  proof -
    have "pending_count d' = (?t + 1 + (4096 - ?h)) mod 4096"
      unfolding pending_count_def t' by (simp add: d'_def mod_add_left_eq)
    also have "\<dots> = (pending_count d + 1) mod 4096" unfolding pending_count_def by (simp add: mod_Suc_eq)
    finally show ?thesis using lt assms(2) by simp
  qed
  have other: "(?h + i) mod 4096 \<noteq> ?t" if "i < pending_count d" for i
  proof -
    have "\<exists>k>0. i + k = pending_count d" by (rule less_imp_add_positive [OF that])
    then obtain k where k: "0 < k" "i + k = pending_count d" by blast
    then have "((?h + i) mod 4096 + k) mod 4096 = ?t" using tail_index [OF assms(1)] by (simp add: mod_add_left_eq add.assoc)
    moreover have "((?h + i) mod 4096 + k) mod 4096 \<noteq> (?h + i) mod 4096" by (rule mod_add_neq) (use k lt in simp_all)
    ultimately show ?thesis by argo
  qed
  have "pending d' = pending d @ [c]"
  proof (rule nth_equalityI)
    fix i assume "i < length (pending d')"
    then have "i < pending_count d \<or> i = pending_count d" using cnt by auto
    then show "pending d' ! i = (pending d @ [c]) ! i"
      using other [of i] tail_index [OF assms(1)] ok cnt
      by (auto simp: pending_def nth_append d'_def)
  qed (simp add: cnt)
  then show ?thesis using ok ok' by (intro exI [of _ d']) (simp add: tty_store_def d'_def)
qed

lemma tty_take_spec:
  fixes len :: u64
  assumes "tty_ok d" "pending d \<noteq> []" "k = min (unat len) (pending_count d)"
  shows "if unat (read_buffer_head d) + k \<le> 4096
    then \<exists>d'. tty_take len d = Some (take k (pending d), d') \<and> tty_ok d' \<and> pending d' = drop k (pending d)
    else tty_take len d = None"
proof -
  let ?h = "unat (read_buffer_head d)" and ?t = "unat (read_buffer_tail d)"
  have ok: "length (read_buffer d) = 4096" "?h < 4096" "?t < 4096" using assms(1) by (simp_all add: tty_ok_def)
  have pos: "0 < pending_count d" using assms(2) length_pending [of d] by (cases "pending d") auto
  have ne: "?h \<noteq> ?t" using pos pending_count_cases [OF assms(1)] by auto
  have lt: "pending_count d < 4096" by (simp add: pending_count_def)
  define rc where "rc = (if read_buffer_head d < read_buffer_tail d then ucast (read_buffer_tail d - read_buffer_head d)
    else tty_buffer_size - ucast (read_buffer_head d) + ucast (read_buffer_tail d))"
  have rc: "unat rc = pending_count d"
  proof (cases "?h < ?t")
    case True
    then show ?thesis using pending_count_cases [OF assms(1)] by (simp add: rc_def word_less_nat_alt word_le_nat_alt unat_sub_small unat_ucast_up)
  next
    case False
    have "unat (tty_buffer_size - ucast (read_buffer_head d)) = 4096 - ?h"
      using ok by (simp add: unat_sub_small word_le_nat_alt size_nat unat_ucast_up)
    then have "unat (tty_buffer_size - ucast (read_buffer_head d) + ucast (read_buffer_tail d)) = 4096 - ?h + ?t"
      using ok by (subst unat_add_small) (simp_all add: unat_ucast_up)
    then show ?thesis using False ne pending_count_cases [OF assms(1)] by (simp add: rc_def word_less_nat_alt)
  qed
  define n where "n = (if len < rc then len else rc)"
  have n: "unat n = k" using rc assms(3) by (auto simp: n_def word_less_nat_alt)
  have k: "k \<le> pending_count d" using assms(3) by simp
  define d' where "d' = d\<lparr>read_buffer_head := ucast ((ucast (read_buffer_head d) + n) mod tty_buffer_size)\<rparr>"
  have h': "unat (read_buffer_head d') = (?h + k) mod 4096"
  proof -
    have "unat ((ucast (read_buffer_head d) + n) mod tty_buffer_size) = (?h + k) mod 4096"
      using ok n k lt by (simp add: unat_mod unat_add_small unat_ucast_up size_nat)
    then show ?thesis by (simp add: d'_def unat_ucast_down)
  qed
  have t: "tty_take len d = (if 4096 < ?h + k then None else Some (take k (drop ?h (read_buffer d)), d'))"
    unfolding tty_take_def Let_def rc_def [symmetric] n_def [symmetric] n ok(1) d'_def by simp
  show ?thesis
  proof (cases "?h + k \<le> 4096")
    case True
    note le = True
    have "take k (drop ?h (read_buffer d)) = take k (pending d)"
      using True k ok by (intro nth_equalityI) (auto simp: pending_def)
    moreover have ok': "tty_ok d'" using ok h' by (simp add: tty_ok_def d'_def)
    moreover have "pending d' = drop k (pending d)"
    proof -
      have "pending_count d' = pending_count d - k"
      proof (cases "?h + k = 4096")
        case True
        then have "unat (read_buffer_head d') = 0" "unat (read_buffer_tail d') = ?t" using h' by (simp_all add: d'_def)
        then show ?thesis using pending_count_cases [OF assms(1)] pending_count_cases [OF ok'] ok k True by (simp split: if_splits)
      next
        case False
        then have "unat (read_buffer_head d') = ?h + k" "unat (read_buffer_tail d') = ?t" using h' le by (simp_all add: d'_def)
        then show ?thesis using pending_count_cases [OF assms(1)] pending_count_cases [OF ok'] ok k le by (simp split: if_splits)
      qed
      then show ?thesis unfolding pending_def h' by (intro nth_equalityI) (auto simp: d'_def mod_add_left_eq add.assoc)
    qed
    ultimately show ?thesis using True t by auto
  qed (use t in simp)
qed

section \<open>Signals and waking leave the terminals alone\<close>

lemma wake_nodes_tty: "wake_nodes cpu ns s = Some s' \<Longrightarrow> tty_of s' = tty_of s"
proof (induction ns arbitrary: s)
  case (Cons n ns)
  then obtain s1 where s1: "wake_node cpu n s = Some s1" "wake_nodes cpu ns s1 = Some s'" by (auto split: bind_splits)
  then have "tty_of s1 = tty_of s"
    by (auto simp: wake_node_def cas_status_def sched_add_ready_def update_queue_def Let_def split: if_splits)
  then show ?case using Cons.IH [OF s1(2)] by simp
qed simp

lemma signal_group_tty: "signal_group cpu pgrp signal ts r s = Some (r', s') \<Longrightarrow> tty_of s' = tty_of s"
proof (induction ts arbitrary: r s)
  case (Cons t ts)
  show ?case
  proof (cases "pgid (task_of s t) = pgrp")
    case True
    then obtain s1 where s1: "send_signal cpu t signal s = Some s1" "signal_group cpu pgrp signal ts (Inr ()) s1 = Some (r', s')"
      using Cons.prems by (auto split: bind_splits)
    then have "tty_of s1 = tty_of s"
      by (auto simp: send_signal_def upd_task_def cas_status_def sched_add_ready_def update_queue_def Let_def split: if_splits)
    then show ?thesis using Cons.IH [OF s1(2)] by simp
  qed (use Cons in simp)
qed simp

lemma tty_print_pending [simp]: "pending (tty_print c d) = pending d" "tty_ok (tty_print c d) = tty_ok d"
  by (simp_all add: tty_print_def pending_def pending_count_def tty_ok_def)

lemma upd_tty_fields [simp]:
  "tty_of (upd_tty d f s) = (tty_of s)(d := f (tty_of s d))" "wait_queues (upd_tty d f s) = wait_queues s"
  "node_queue (upd_tty d f s) = node_queue s" "node_task (upd_tty d f s) = node_task s" "status_of (upd_tty d f s) = status_of s"
  "sched_pcpu_data (upd_tty d f s) = sched_pcpu_data s" "g_task_list (upd_tty d f s) = g_task_list s" "task_of (upd_tty d f s) = task_of s"
  "waits_inv (upd_tty d f s) = waits_inv s"
  by (simp_all add: upd_tty_def waits_inv_def)

lemma can_wake_upd_tty [simp]: "can_wake cpu q (upd_tty d f s) = can_wake cpu q s"
  by (simp add: can_wake_def)

lemma wake_tty:
  assumes "can_wake cpu q s"
  shows "\<exists>s'. wait_queue_wake cpu q s = Some s' \<and> tty_of s' = tty_of s \<and>
    (\<forall>n\<in>set (wait_queues s ! q). status_of s' (node_task s n) = TASK_RUNNING)"
proof -
  obtain s' where s': "wake_nodes cpu (wait_queues s ! q) s = Some s'" "woken cpu (wait_queues s ! q) s s'"
    using can_wake_nodes [OF assms] by blast
  then show ?thesis using wake_nodes_tty [OF s'(1)] assms by (auto simp: wait_queue_wake_def can_wake_def woken_def)
qed

lemma interrupt_tty:
  assumes "cpu < length (sched_pcpu_data s)" "distinct (g_task_list s)"
  shows "\<exists>r s'. pgrp_send_signal cpu pgrp SIGINT s = Some (r, s') \<and> tty_of s' = tty_of s"
proof -
  have "\<not> (SIGINT < 1 \<or> NSIG \<le> SIGINT)" by (simp add: SIGINT_def NSIG_def)
  then show ?thesis using signal_group_spec [OF assms, of pgrp SIGINT "Inl ESRCH"] signal_group_tty
    unfolding pgrp_send_signal_def by (metis (no_types, lifting))
qed

definition interrupts :: "u8 \<Rightarrow> tty_device \<Rightarrow> bool" where
  "interrupts c d \<longleftrightarrow> c_lflag (tty_termios d) AND ISIG \<noteq> 0 \<and> sint c = uint (c_cc (tty_termios d) ! VINTR)"

lemma tty_consume_spec:
  assumes "tty_ok (tty_of s d)" "length (pending (tty_of s d)) \<noteq> 4095" "can_wake cpu (tty_waitqueue (tty_of s d)) s" "distinct (g_task_list s)"
  shows "\<exists>s'. tty_consume cpu d c s = Some s' \<and> tty_ok (tty_of s' d) \<and> pending (tty_of s' d) = pending (tty_of s d) @ [c] \<and>
    (\<not> interrupts c (tty_of s d) \<longrightarrow>
      (\<forall>n\<in>set (wait_queues s ! tty_waitqueue (tty_of s d)). status_of s' (node_task s n) = TASK_RUNNING))"
proof -
  let ?q = "tty_waitqueue (tty_of s d)"
  have nf: "ucast (read_buffer_tail (tty_of s d) + 1) mod tty_buffer_size \<noteq> ucast (read_buffer_head (tty_of s d))"
    using assms(2) not_full_iff [OF assms(1)] by simp
  obtain dev where dev: "tty_store c (tty_of s d) = Some dev" "tty_ok dev" "pending dev = pending (tty_of s d) @ [c]"
    "tty_termios dev = tty_termios (tty_of s d)" "tty_waitqueue dev = ?q"
    using tty_store_spec [OF assms(1), of c] assms(2) by auto
  define s1 where "s1 = upd_tty d (\<lambda>_. dev) s"
  show ?thesis
  proof (cases "interrupts c (tty_of s d)")
    case True
    obtain r s' where "pgrp_send_signal cpu (fg_pgrp dev) SIGINT s1 = Some (r, s')" "tty_of s' = tty_of s1"
      using interrupt_tty [of cpu s1 "fg_pgrp dev"] assms(3,4) by (auto simp: can_wake_def s1_def)
    then show ?thesis using nf dev True by (auto simp: tty_consume_def s1_def interrupts_def)
  next
    case False
    let ?c = "if c_iflag (tty_termios dev) AND ICRNL \<noteq> 0 \<and> c = 0x0D then 0x0A else c"
    define s2 where "s2 = (if c_lflag (tty_termios dev) AND ECHO \<noteq> 0 then upd_tty d (tty_print ?c) s1 else s1)"
    have "can_wake cpu ?q s2" "pending (tty_of s2 d) = pending dev" "tty_ok (tty_of s2 d)" "wait_queues s2 = wait_queues s" "node_task s2 = node_task s"
      using assms(3) dev(2) by (simp_all add: s2_def s1_def)
    moreover obtain s' where "wait_queue_wake cpu ?q s2 = Some s'" "tty_of s' = tty_of s2"
      "\<forall>n\<in>set (wait_queues s2 ! ?q). status_of s' (node_task s2 n) = TASK_RUNNING" using wake_tty [OF calculation(1)] by blast
    moreover have "tty_consume cpu d c s = wait_queue_wake cpu ?q s2"
    proof -
      have ni: "\<not> (c_lflag (tty_termios dev) AND ISIG \<noteq> 0 \<and> sint c = uint (c_cc (tty_termios dev) ! VINTR))"
        using False unfolding interrupts_def dev(4) .
      show ?thesis unfolding tty_consume_def if_not_P [OF nf] dev(1) Option.bind.bind_lunit Let_def if_not_P [OF ni] s2_def s1_def dev(5) ..
    qed
    ultimately show ?thesis using dev(3) by simp
  qed
qed

section \<open>Properties\<close>

text \<open>C33: The input of a terminal is a queue of at most 4095 characters.  A character from the keyboard is appended as it
  came (a carriage return stays one, also where the terminal is set to turn it into a newline) and, unless it is the
  interrupt character, wakes every waiting reader; at a full queue it is dropped.  A read takes the oldest characters,
  but only if they do not wrap around the end of the buffer: otherwise it copies from behind the buffer.\<close>

theorem tty_input_queue:
  assumes "tty_ok (tty_of s d)" "can_wake cpu (tty_waitqueue (tty_of s d)) s" "distinct (g_task_list s)"
    and "w = pending (tty_of s d)" "k = min (unat len) (length w)"
  shows "(if length w = 4095 then tty_consume cpu d c s = Some s
      else \<exists>s'. tty_consume cpu d c s = Some s' \<and> tty_ok (tty_of s' d) \<and> pending (tty_of s' d) = w @ [c] \<and>
        (\<not> interrupts c (tty_of s d) \<longrightarrow>
          (\<forall>n\<in>set (wait_queues s ! tty_waitqueue (tty_of s d)). status_of s' (node_task s n) = TASK_RUNNING))) \<and>
    (w \<noteq> [] \<longrightarrow>
      (if unat (read_buffer_head (tty_of s d)) + k \<le> 4096
       then \<exists>s'. tty_read t d len s = Some (Bytes (take k w), s') \<and> tty_ok (tty_of s' d) \<and> pending (tty_of s' d) = drop k w
       else tty_read t d len s = None))"
proof (intro conjI impI)
  show "if length w = 4095 then tty_consume cpu d c s = Some s
      else \<exists>s'. tty_consume cpu d c s = Some s' \<and> tty_ok (tty_of s' d) \<and> pending (tty_of s' d) = w @ [c] \<and>
        (\<not> interrupts c (tty_of s d) \<longrightarrow>
          (\<forall>n\<in>set (wait_queues s ! tty_waitqueue (tty_of s d)). status_of s' (node_task s n) = TASK_RUNNING))"
    using tty_consume_spec [OF assms(1) _ assms(2,3)] not_full_iff [OF assms(1)] unfolding assms(4)
    by (simp add: tty_consume_def)
next
  assume "w \<noteq> []"
  moreover have "\<not> tty_empty (tty_of s d)"
    using calculation pending_count_cases [OF assms(1)] length_pending [of "tty_of s d"] by (auto simp: tty_empty_def assms(4) pending_def)
  ultimately show "if unat (read_buffer_head (tty_of s d)) + k \<le> 4096
       then \<exists>s'. tty_read t d len s = Some (Bytes (take k w), s') \<and> tty_ok (tty_of s' d) \<and> pending (tty_of s' d) = drop k w
       else tty_read t d len s = None"
    using tty_take_spec [OF assms(1), of k len] assms(4,5) by (auto simp: tty_read_def)
qed

text \<open>A terminal with two characters, the last and the first of its buffer, and a reader asleep.\<close>

definition demo_tty :: ttys where
  "demo_tty = ktasks.extend (demo_tasks\<lparr>wait_queues := [[3]], node_queue := [3 \<mapsto> 0]\<rparr>)
     (ttys.fields (\<lambda>_. (tty_init (replicate 4096 0x61) 0)\<lparr>read_buffer_head := 4095, read_buffer_tail := 1\<rparr>))"

lemma demo_tty_fields [simp]:
  "tty_of demo_tty d = (tty_init (replicate 4096 0x61) 0)\<lparr>read_buffer_head := 4095, read_buffer_tail := 1\<rparr>"
  "wait_queues demo_tty = [[3]]" "node_queue demo_tty = [3 \<mapsto> 0]" "node_task demo_tty = id" "g_task_list demo_tty = [1, 2, 3]"
  "length (sched_pcpu_data demo_tty) = 1" "status_of demo_tty 3 = TASK_INTR_SLEEPING"
  by (simp_all add: demo_tty_def demo_tasks_def ktasks.defs ttys.defs)

lemma demo_tty_pending: "pending_count (tty_of demo_tty d) = 2"
  by (simp add: pending_count_def tty_init_def)

theorem tty_input_queue_witness:
  "tty_read 1 0 2 demo_tty = None \<and>
   (\<exists>s'. tty_consume 0 0 0x62 demo_tty = Some s' \<and> pending (tty_of s' 0) = pending (tty_of demo_tty 0) @ [0x62])"
proof -
  have ok: "tty_ok (tty_of demo_tty 0)" by (simp add: tty_ok_def tty_init_def)
  have w: "can_wake 0 (tty_waitqueue (tty_of demo_tty 0)) demo_tty"
    by (auto simp: can_wake_def waits_inv_def tty_init_def)
  have g: "distinct (g_task_list demo_tty)" by simp
  have n: "length (pending (tty_of demo_tty 0)) = 2" using demo_tty_pending by (simp only: length_pending)
  then have "pending (tty_of demo_tty 0) \<noteq> []" by (metis list.size(3) zero_neq_numeral)
  moreover have "unat (read_buffer_head (tty_of demo_tty 0)) = 4095" by simp
  moreover have "min (unat (2 :: u64)) 2 = 2" by simp
  ultimately show ?thesis
    using tty_input_queue [where len = 2 and c = "0x62" and t = 1, OF ok w g refl refl] unfolding n by (simp del: demo_tty_fields) blast
qed

end
