(* ===== verification/Rtc.thy ===== *)
theory Rtc
  imports Kernel_Prelude "HOL-Library.Signed_Division"
begin

text \<open>
  The real-time clock (\<^verbatim>\<open>dev/rtc.c\<close>): the date in the registers of the CMOS chip and its conversion to
  seconds since 1970.  What the chip answers is an argument: \<^term>\<open>cmos i reg\<close> is the value of a register at
  the access number \<^term>\<open>i\<close>.  Signed arithmetic that overflows an \<^verbatim>\<open>int\<close> is undefined in C; it is
  \<^term>\<open>None\<close> here, as is reading the table of months outside its twelve entries.
\<close>

section \<open>Reading the registers\<close>

type_synonym cmos = "nat \<Rightarrow> u8 \<Rightarrow> u8"

text \<open>Waiting for the end of an update: the number of the first access after it.\<close>

partial_function (option) rtc_wait :: "cmos \<Rightarrow> nat \<Rightarrow> nat option" where
  "rtc_wait cmos i = (if cmos i 0x0a AND 0x80 \<noteq> 0 then rtc_wait cmos (i + 1) else Some (i + 1))"

definition bcd_to_bin :: "u8 \<Rightarrow> u8" where
  "bcd_to_bin bcd = drop_bit 4 bcd * 10 + (bcd AND 0xF)"

definition is_leap_year :: "int \<Rightarrow> bool" where
  "is_leap_year y \<longleftrightarrow> y smod 4 = 0 \<and> (y smod 100 \<noteq> 0 \<or> y smod 400 = 0)"

definition days_per_month :: "int list" where
  "days_per_month = [31, 28, 31, 30, 31, 30, 31, 31, 30, 31, 30, 31]"

section \<open>Seconds since 1970\<close>

text \<open>The days of the months \<^term>\<open>m\<close> to \<^term>\<open>month - 1\<close>; \<^term>\<open>n\<close> of them are left.\<close>

fun month_days :: "nat \<Rightarrow> nat \<Rightarrow> int \<Rightarrow> int option" where
  "month_days m 0 y = Some 0"
| "month_days m (Suc n) y = do {
     d \<leftarrow> (if m = 2 \<and> is_leap_year y then Some 29
          else if 1 \<le> m \<and> m \<le> length days_per_month then Some (days_per_month ! (m - 1)) else None);
     rest \<leftarrow> month_days (m + 1) n y;
     Some (d + rest)
   }"

definition int_value :: "int \<Rightarrow> int option" where
  "int_value x = (if - (2 ^ 31) \<le> x \<and> x < 2 ^ 31 then Some x else None)"

text \<open>The part of the sum that is computed with \<^verbatim>\<open>int\<close>, for the year minus 1900.\<close>

definition year_seconds :: "u16 \<Rightarrow> int option" where
  "year_seconds r_year = do {
     let y = uint r_year;
     a \<leftarrow> int_value (((y + 299) sdiv 400) * 86400);
     b \<leftarrow> int_value (((y - 1) sdiv 100) * 86400);
     c \<leftarrow> int_value (((y - 69) sdiv 4) * 86400);
     d \<leftarrow> int_value ((y - 70) * 31536000);
     ab \<leftarrow> int_value (a - b);
     abc \<leftarrow> int_value (ab + c);
     int_value (abc + d)
   }"

definition full_year :: "cmos \<Rightarrow> nat \<Rightarrow> u8 \<Rightarrow> u8 \<Rightarrow> u16" where
  "full_year cmos i century_register year =
     (if century_register \<noteq> 0 then ucast (bcd_to_bin (cmos i century_register)) * 100 + ucast year
      else if 70 \<le> year then 1900 + ucast year else 2000 + ucast year)"

definition rtc_read :: "cmos \<Rightarrow> u8 \<Rightarrow> int option" where
  "rtc_read cmos century_register = do {
     i \<leftarrow> rtc_wait cmos 0;
     let seconds = bcd_to_bin (cmos i 0x00);
     let minutes = bcd_to_bin (cmos (i + 1) 0x02);
     let hours = bcd_to_bin (cmos (i + 2) 0x04);
     let day = bcd_to_bin (cmos (i + 3) 0x07);
     let month = bcd_to_bin (cmos (i + 4) 0x08);
     let year = bcd_to_bin (cmos (i + 5) 0x09);
     let r_year = full_year cmos (i + 6) century_register year;
     y_day \<leftarrow> month_days 1 (unat month - 1) (uint r_year);
     ys \<leftarrow> year_seconds (r_year - 1900);
     Some (ys + (y_day + (uint day - 1)) * 86400 + uint hours * 3600 + uint minutes * 60 + uint seconds)
   }"

text \<open>The number of the century register is in the ACPI tables, where they have it.\<close>

definition rtc_init :: "u8 option \<Rightarrow> u8 \<Rightarrow> u8" where
  "rtc_init fadt_century century_register = (case fadt_century of Some c \<Rightarrow> c | None \<Rightarrow> century_register)"

section \<open>The calendar\<close>

text \<open>The reference: the days of every year and month before the date, counted one by one.\<close>

definition leap :: "nat \<Rightarrow> bool" where
  "leap y \<longleftrightarrow> 4 dvd y \<and> (\<not> 100 dvd y \<or> 400 dvd y)"

definition month_length :: "nat \<Rightarrow> nat \<Rightarrow> nat" where
  "month_length y m = (if m = 2 then if leap y then 29 else 28 else if m \<in> {4, 6, 9, 11} then 30 else 31)"

definition days_before_year :: "nat \<Rightarrow> nat" where
  "days_before_year y = (\<Sum>k\<leftarrow>[1970..<y]. \<Sum>m\<leftarrow>[1..<13]. month_length k m)"

definition epoch_days :: "nat \<Rightarrow> nat \<Rightarrow> nat \<Rightarrow> nat" where
  "epoch_days y m d = days_before_year y + (\<Sum>k\<leftarrow>[1..<m]. month_length y k) + (d - 1)"

definition to_bcd :: "nat \<Rightarrow> u8" where
  "to_bcd v = of_nat (v div 10 * 16 + v mod 10)"

lemma bcd_roundtrip:
  assumes "v < 100" shows "bcd_to_bin (to_bcd v) = of_nat v"
proof -
  have "\<forall>v\<in>set [0..<100]. bcd_to_bin (to_bcd v) = of_nat v" by code_simp
  then show ?thesis using assms by simp
qed

lemma dvd_of_int: "4 dvd int y \<longleftrightarrow> 4 dvd y" "100 dvd int y \<longleftrightarrow> 100 dvd y" "400 dvd int y \<longleftrightarrow> 400 dvd y"
  by presburger+

lemma is_leap_year_iff: "is_leap_year (int y) \<longleftrightarrow> leap y"
  unfolding leap_def dvd_of_int [symmetric] by (auto simp: is_leap_year_def smod_int_alt_def simp flip: dvd_eq_mod_eq_0)

lemma month_days_sum:
  assumes "1 \<le> m" "m + n \<le> 13"
  shows "month_days m n (int y) = Some (int (\<Sum>k\<leftarrow>[m..<m + n]. month_length y k))"
  using assms
proof (induction n arbitrary: m)
  case (Suc n)
  have len: "int (month_length y m) = (if m = 2 \<and> leap y then 29 else days_per_month ! (m - 1))"
  proof -
    have "m \<in> set [1..<13]" using Suc.prems by simp
    moreover have "\<forall>m\<in>set [1..<13]. (if m \<in> {4, 6, 9, 11} then 30 else if m = 2 then 28 else 31) = days_per_month ! (m - 1)"
      by code_simp
    ultimately have "(if m \<in> {4, 6, 9, 11} then 30 else if m = 2 then 28 else 31) = days_per_month ! (m - 1)" by (rule bspec [rotated])
    then show ?thesis unfolding month_length_def by (auto simp: days_per_month_def split: if_splits)
  qed
  have "month_days (m + 1) n (int y) = Some (int (\<Sum>k\<leftarrow>[m + 1..<m + 1 + n]. month_length y k))"
    by (rule Suc.IH) (use Suc.prems in simp_all)
  moreover have "[m..<m + Suc n] = m # [m + 1..<m + 1 + n]" by (simp add: upt_conv_Cons)
  ultimately show ?case
    using Suc.prems len by (auto simp: is_leap_year_iff days_per_month_def)
qed simp

lemma year_length: "(\<Sum>m\<leftarrow>[1..<13]. month_length y m) = (if leap y then 366 else 365)"
proof -
  have "[1..<13] = [1, 2, 3, 4, 5, 6, 7, 8, 9, 10, 11, 12 :: nat]" by code_simp
  then show ?thesis by (simp add: month_length_def)
qed

lemma leap_count:
  assumes "c < y" "k dvd c"
  shows "(Suc y - Suc c) div k = (y - Suc c) div k + (if k dvd y then 1 else 0 :: nat)"
proof -
  have y: "y = Suc (y - Suc c) + c" using assms(1) by simp
  then have "k dvd y \<longleftrightarrow> Suc (y - Suc c) mod k = 0"
    using assms(2) dvd_add_left_iff [of k c "Suc (y - Suc c)"] by (metis dvd_eq_mod_eq_0)
  moreover have "Suc y - Suc c = Suc (y - Suc c)" using assms(1) by simp
  ultimately show ?thesis by (simp add: div_Suc)
qed

lemma days_before_year_closed:
  assumes "1970 \<le> y"
  shows "days_before_year y + (y - 1901) div 100 = 365 * (y - 1970) + (y - 1969) div 4 + (y - 1601) div 400"
  using assms
proof (induction y rule: dec_induct)
  case base
  then show ?case by (simp add: days_before_year_def)
next
  case (step y)
  have "(Suc y - 1969) div 4 = (y - 1969) div 4 + (if 4 dvd y then 1 else 0)"
    "(Suc y - 1901) div 100 = (y - 1901) div 100 + (if 100 dvd y then 1 else 0)"
    "(Suc y - 1601) div 400 = (y - 1601) div 400 + (if 400 dvd y then 1 else 0)"
    using leap_count [of 1968 y 4] leap_count [of 1900 y 100] leap_count [of 1600 y 400] step(1) by simp_all
  moreover have "100 dvd y \<Longrightarrow> 4 dvd y" "400 dvd y \<Longrightarrow> 100 dvd y"
    using dvd_trans [of 4 100 y] dvd_trans [of 100 400 y] by simp_all
  moreover have "days_before_year (Suc y) = days_before_year y + (if leap y then 366 else 365)"
    using step(1) unfolding days_before_year_def year_length [symmetric] by simp
  moreover have "Suc y - 1970 = Suc (y - 1970)" using step(1) by simp
  ultimately show ?case using step(3) by (simp add: leap_def)
qed

lemma year_seconds_spec:
  assumes "1970 \<le> y" "y < 10000"
  shows "year_seconds (of_nat y - 1900) = (if y \<le> 2038 then Some (86400 * int (days_before_year y)) else None)"
proof -
  define a b c where abc: "a = (y - 1601) div 400" "b = (y - 1901) div 100" "c = (y - 1969) div 4"
  have "unat (of_nat y :: u16) = y" using assms by (intro unat_of_nat_small) simp
  then have "unat (of_nat y - 1900 :: u16) = y - 1900"
    using assms by (subst unat_sub_small) (simp_all add: word_le_nat_alt)
  then have "int (unat (of_nat y - 1900 :: u16)) = int y - 1900" using assms by (simp only: of_nat_diff)
  then have u: "uint (of_nat y - 1900 :: u16) = int y - 1900" unfolding uint_nat .
  have n: "int (y - 1601) = int y - 1601" "int (y - 1901) = int y - 1901" "int (y - 1969) = int y - 1969" "int (y - 1970) = int y - 1970"
    using assms by linarith+
  have d: "(int y - 1900 + 299) sdiv 400 = int a" "(int y - 1900 - 1) sdiv 100 = int b" "(int y - 1900 - 69) sdiv 4 = int c"
    using assms by (simp_all add: abc signed_divide_int_def sgn_if zdiv_int n)
  have "int (days_before_year y) + int b = 365 * int (y - 1970) + int c + int a"
    using days_before_year_closed [OF assms(1)] unfolding abc by linarith
  then have days: "int (days_before_year y) = 365 * (int y - 1970) + int c - int b + int a" unfolding n by linarith
  have small: "a \<le> 20" "b \<le> 80" "c \<le> 2007"
    using div_le_mono [of "y - 1601" 8399 400] div_le_mono [of "y - 1901" 8099 100] div_le_mono [of "y - 1969" 8031 4] assms(2) unfolding abc by simp_all
  have v: "int_value (int a * 86400) = Some (int a * 86400)" "int_value (int b * 86400) = Some (int b * 86400)"
    "int_value (int c * 86400) = Some (int c * 86400)" "int_value (int a * 86400 - int b * 86400) = Some (int a * 86400 - int b * 86400)"
    "int_value (int a * 86400 - int b * 86400 + int c * 86400) = Some (int a * 86400 - int b * 86400 + int c * 86400)"
    using small by (simp_all add: int_value_def)
  show ?thesis
  proof (cases "y \<le> 2038")
    case True
    then have "a \<le> 1" "b \<le> 1" "c \<le> 17"
      using div_le_mono [of "y - 1601" 437 400] div_le_mono [of "y - 1901" 137 100] div_le_mono [of "y - 1969" 69 4] unfolding abc by simp_all
    then show ?thesis unfolding year_seconds_def Let_def u d using True assms(1) days by (simp add: v int_value_def)
  next
    case False
    then have "int_value ((int y - 1900 - 70) * 31536000) = None" by (simp add: int_value_def)
    then show ?thesis unfolding year_seconds_def Let_def u d using False by (simp add: v)
  qed
qed

lemma rtc_wait_first:
  assumes "cmos (i + n) 0x0a AND 0x80 = 0" "\<forall>j<n. cmos (i + j) 0x0a AND 0x80 \<noteq> 0"
  shows "rtc_wait cmos i = Some (i + n + 1)"
  using assms
proof (induction n arbitrary: i)
  case 0
  then show ?case by (subst rtc_wait.simps) simp
next
  case (Suc n)
  have "rtc_wait cmos (i + 1) = Some (i + 1 + n + 1)"
    by (rule Suc.IH) (use Suc.prems in auto)
  then show ?case using Suc.prems(2) by (subst rtc_wait.simps) auto
qed

lemma full_year_spec:
  assumes "1970 \<le> y" "y < 10000" "if creg = 0 then y < 2070 else cmos i creg = to_bcd (y div 100)"
  shows "full_year cmos i creg (of_nat (y mod 100)) = of_nat y"
proof -
  have uc: "ucast (of_nat v :: u8) = (of_nat v :: u16)" if "v < 100" for v
    using that by (simp add: unsigned_of_nat take_bit_nat_eq_self)
  have m: "y mod 100 < 100" by simp
  show ?thesis
  proof (cases "creg = 0")
    case True
    then have y: "y < 2070" using assms(3) by simp
    have "70 \<le> (of_nat (y mod 100) :: u8) \<longleftrightarrow> 70 \<le> y mod 100"
      using m by (simp add: word_le_nat_alt unat_of_nat_small)
    moreover have "y = 1900 + y mod 100 \<and> 70 \<le> y mod 100 \<or> y = 2000 + y mod 100 \<and> y mod 100 < 70"
    proof (cases "y < 2000")
      case True
      then have "y div 100 = 19" using assms(1) by (intro div_nat_eqI) simp_all
      then show ?thesis using div_mult_mod_eq [of y 100] assms(1) by linarith
    next
      case False
      then have "y div 100 = 20" using y by (intro div_nat_eqI) simp_all
      then show ?thesis using div_mult_mod_eq [of y 100] y by linarith
    qed
    ultimately show ?thesis using True unfolding full_year_def uc [OF m]
      by (metis (no_types, lifting) linorder_not_le of_nat_add of_nat_numeral)
  next
    case False
    then have "bcd_to_bin (cmos i creg) = of_nat (y div 100)" using assms(2,3) by (simp add: bcd_roundtrip less_mult_imp_div_less)
    moreover have "y div 100 < 100" using assms(2) by (simp add: less_mult_imp_div_less)
    ultimately have "full_year cmos i creg (of_nat (y mod 100)) = of_nat (y div 100) * 100 + of_nat (y mod 100)"
      using False uc m by (simp add: full_year_def)
    also have "\<dots> = of_nat (y div 100 * 100 + y mod 100)" by (simp only: of_nat_add of_nat_mult of_nat_numeral)
    finally show ?thesis by (simp only: div_mult_mod_eq)
  qed
qed

section \<open>Properties\<close>

text \<open>C34: The clock gives the seconds since the start of 1970 of the date its registers show, counted over the
  calendar day by day, for every date up to the end of 2038, whether or not the chip has a century register; for a
  later date the computation overflows an int.  Waiting for the end of an update returns with the first reading
  outside one.\<close>

theorem rtc_read_epoch:
  assumes "cmos n 0x0a AND 0x80 = 0" "\<forall>j<n. cmos j 0x0a AND 0x80 \<noteq> 0"
    and "cmos (n + 1) 0x00 = to_bcd s" "cmos (n + 2) 0x02 = to_bcd mi" "cmos (n + 3) 0x04 = to_bcd h"
    and "cmos (n + 4) 0x07 = to_bcd d" "cmos (n + 5) 0x08 = to_bcd m" "cmos (n + 6) 0x09 = to_bcd (y mod 100)"
    and "if creg = 0 then y < 2070 else cmos (n + 7) creg = to_bcd (y div 100)"
    and "s < 60" "mi < 60" "h < 24" "1 \<le> d" "d \<le> 31" "1 \<le> m" "m \<le> 12" "1970 \<le> y" "y < 10000"
  shows "rtc_read cmos creg =
    (if y \<le> 2038 then Some (int (epoch_days y m d * 86400 + h * 3600 + mi * 60 + s)) else None)"
proof -
  have w: "rtc_wait cmos 0 = Some (n + 1)" using rtc_wait_first [of cmos 0 n] assms(1,2) by simp
  have u: "unat (of_nat v :: u8) = v" "uint (of_nat v :: u8) = int v" if "v < 100" for v
    using that by (simp_all add: unat_of_nat_small uint_nat)
  have md: "month_days 1 (m - 1) (int y) = Some (int (\<Sum>k\<leftarrow>[1..<m]. month_length y k))"
    using month_days_sum [of 1 "m - 1" y] assms(15,16) by simp
  have uy: "uint (of_nat y :: u16) = int y" using assms(18) by (simp add: uint_nat unat_of_nat_small)
  have fy: "full_year cmos (n + 7) creg (of_nat (y mod 100)) = of_nat y" by (rule full_year_spec) (use assms(9,17,18) in auto)
  have at: "n + 1 + 1 = n + 2" "n + 1 + 2 = n + 3" "n + 1 + 3 = n + 4" "n + 1 + 4 = n + 5" "n + 1 + 5 = n + 6" "n + 1 + 6 = n + 7" by simp_all
  have r: "bcd_to_bin (cmos (n + 1) 0) = of_nat s" "bcd_to_bin (cmos (n + 2) 2) = of_nat mi" "bcd_to_bin (cmos (n + 3) 4) = of_nat h"
    "bcd_to_bin (cmos (n + 4) 7) = of_nat d" "bcd_to_bin (cmos (n + 5) 8) = of_nat m" "bcd_to_bin (cmos (n + 6) 9) = of_nat (y mod 100)"
    unfolding assms(3-8) using assms(10-16) by (simp_all add: bcd_roundtrip)
  have um: "unat (of_nat m :: u8) = m" by (rule u) (use assms(16) in simp)
  have ud: "uint (of_nat d :: u8) = int d" "uint (of_nat h :: u8) = int h" "uint (of_nat mi :: u8) = int mi" "uint (of_nat s :: u8) = int s"
    by (rule u, use assms(10-14) in simp)+
  have "rtc_read cmos creg = do { ys \<leftarrow> year_seconds (of_nat y - 1900);
     Some (ys + (int (\<Sum>k\<leftarrow>[1..<m]. month_length y k) + (int d - 1)) * 86400 + int h * 3600 + int mi * 60 + int s) }"
    unfolding rtc_read_def w Option.bind.bind_lunit Let_def at r fy uy um ud md by simp
  then show ?thesis
    using assms(13) unfolding year_seconds_spec [OF assms(17,18)] by (simp add: epoch_days_def algebra_simps of_nat_diff)
qed

text \<open>A chip that is busy at the first access and then shows 23:59:58 on the 29th of February 2024.\<close>

definition demo_cmos :: cmos where
  "demo_cmos i reg =
     (if reg = 0x0a then if i = 0 then 0x80 else 0 else if reg = 0x00 then 0x58 else if reg = 0x02 then 0x59
      else if reg = 0x04 then 0x23 else if reg = 0x07 then 0x29 else if reg = 0x08 then 0x02
      else if reg = 0x09 then 0x24 else 0x20)"

theorem rtc_read_epoch_witness:
  "rtc_read demo_cmos 0x32 = Some (int (epoch_days 2024 2 29 * 86400 + 23 * 3600 + 59 * 60 + 58))"
  using rtc_read_epoch [of demo_cmos 1 58 59 23 29 2 2024 "0x32"] by (simp add: demo_cmos_def to_bcd_def)

end
