(* ===== verification/Net.thy ===== *)
theory Net
  imports Task Hash_Chain
begin

text \<open>
  Network devices, Ethernet frames and address resolution (\<^verbatim>\<open>net/netdev.c\<close>, \<^verbatim>\<open>net/ether.c\<close>, \<^verbatim>\<open>net/arp.c\<close>).
  Packets are lists of bytes; a field of more than one byte is stored with its low byte first, and the fields that
  the protocols want the other way round are swapped by the code.  Handing a frame to a driver is recorded; the number of
  bytes the driver reports is left out.  A received packet shorter than its header is read behind its end, which is \<^term>\<open>None\<close>.
  The mutexes of the tables are held around single accesses and left out.
\<close>

section \<open>Bytes\<close>

definition be16_to_native :: "u16 \<Rightarrow> u16" where
  "be16_to_native w = push_bit 8 w OR drop_bit 8 w"

definition native_to_be16 :: "u16 \<Rightarrow> u16" where
  "native_to_be16 w = push_bit 8 w OR drop_bit 8 w"

definition bytes16 :: "u16 \<Rightarrow> u8 list" where
  "bytes16 w = [ucast w, ucast (drop_bit 8 w)]"

definition bytes32 :: "u32 \<Rightarrow> u8 list" where
  "bytes32 w = [ucast w, ucast (drop_bit 8 w), ucast (drop_bit 16 w), ucast (drop_bit 24 w)]"

definition word16 :: "u8 list \<Rightarrow> nat \<Rightarrow> u16" where
  "word16 bs i = ucast (bs ! i) OR push_bit 8 (ucast (bs ! (i + 1)))"

definition word32 :: "u8 list \<Rightarrow> nat \<Rightarrow> u32" where
  "word32 bs i = ucast (bs ! i) OR push_bit 8 (ucast (bs ! (i + 1))) OR push_bit 16 (ucast (bs ! (i + 2))) OR
     push_bit 24 (ucast (bs ! (i + 3)))"

section \<open>Devices and tables\<close>

record netdev =
  nd_name :: string
  mac_addr :: "u8 list"
  ip_addr :: u32
  ip_subnet :: u32
  ip_broadcast :: u32
  ip_tx_id :: u16

record arp_entry =
  arp_address :: u32
  arp_htype :: u16
  arp_mac :: "u8 list"
  arp_netdev :: nat

record arp_waittable_entry =
  wait_address :: u32
  wait_on :: nat

record net = ktasks +
  netdev_of :: "nat \<Rightarrow> netdev"
  netdev_list :: "nat list"
  arp_table :: "arp_entry chains"
  arp_waittable :: "arp_waittable_entry chains"
  sent_frames :: "(nat \<times> u8 list) list"

text \<open>A new device: its name and address come from its driver, later.\<close>

definition netdev_create :: "nat \<Rightarrow> 'a net_scheme \<Rightarrow> 'a net_scheme" where
  "netdev_create dev s = s\<lparr>netdev_of := (netdev_of s)(dev :=
       (netdev_of s dev)\<lparr>ip_addr := 0, ip_subnet := 0, ip_broadcast := 0xFFFFFFFF, ip_tx_id := 0\<rparr>),
     netdev_list := netdev_list s @ [dev]\<rparr>"

text \<open>Names are the characters before the terminating zero; the comparison stops after 24 of them.\<close>

definition netdev_lookup :: "string \<Rightarrow> 'a net_scheme \<Rightarrow> nat option" where
  "netdev_lookup name s = find (\<lambda>dev. take 24 (nd_name (netdev_of s dev)) = take 24 name) (netdev_list s)"

section \<open>Ethernet\<close>

definition ETHER_TYPE_IPV4 :: u16 where "ETHER_TYPE_IPV4 = 0x0800"
definition ETHER_TYPE_ARP :: u16 where "ETHER_TYPE_ARP = 0x0806"

definition ether_mac_broadcast :: "u8 list" where
  "ether_mac_broadcast = replicate 6 0xFF"

definition ether_frame :: "u8 list \<Rightarrow> u8 list \<Rightarrow> u16 \<Rightarrow> u8 list \<Rightarrow> u8 list" where
  "ether_frame mac_dst mac_src type payload = take 6 mac_dst @ take 6 mac_src @ bytes16 (native_to_be16 type) @ payload"

definition ether_tx_packet :: "nat \<Rightarrow> u8 list \<Rightarrow> u16 \<Rightarrow> u8 list \<Rightarrow> 'a net_scheme \<Rightarrow> 'a net_scheme" where
  "ether_tx_packet dev mac_dst type payload s =
     s\<lparr>sent_frames := sent_frames s @ [(dev, ether_frame mac_dst (mac_addr (netdev_of s dev)) type payload)]\<rparr>"

section \<open>Address resolution\<close>

definition arp_htype_ethernet :: u16 where "arp_htype_ethernet = 0x1"
definition arp_ptype_ipv4 :: u16 where "arp_ptype_ipv4 = 0x0800"
definition ARP_OPCODE_REQUEST :: u16 where "ARP_OPCODE_REQUEST = 1"
definition ARP_OPCODE_REPLY :: u16 where "ARP_OPCODE_REPLY = 2"

definition arp_slot :: "u32 \<Rightarrow> nat" where
  "arp_slot address = unat (address mod 32)"

definition arp_find :: "u32 \<Rightarrow> arp_entry chains \<Rightarrow> arp_entry option" where
  "arp_find address t = find (\<lambda>e. arp_address e = address) (t (arp_slot address))"

definition arp_link :: "arp_entry \<Rightarrow> arp_entry chains \<Rightarrow> arp_entry chains" where
  "arp_link e t = t(arp_slot (arp_address e) := e # t (arp_slot (arp_address e)))"

interpretation arp: chained_table arp_slot arp_address arp_find arp_link
  by unfold_locales (simp_all add: arp_find_def arp_link_def)

definition arp_get_entry :: "u32 \<Rightarrow> 'a net_scheme \<Rightarrow> arp_entry option" where
  "arp_get_entry address s = arp_find address (arp_table s)"

text \<open>The wait entry of an address, and the chain behind it, which becomes the whole chain of the slot.\<close>

definition arp_waiting :: "u32 \<Rightarrow> 'a net_scheme \<Rightarrow> arp_waittable_entry list" where
  "arp_waiting address s = dropWhile (\<lambda>w. wait_address w \<noteq> address) (arp_waittable s (arp_slot address))"

definition arp_add_entry :: "nat \<Rightarrow> u32 \<Rightarrow> u8 list \<Rightarrow> u16 \<Rightarrow> nat \<Rightarrow> 'a net_scheme \<Rightarrow> 'a net_scheme option" where
  "arp_add_entry cpu address mac htype dev s = do {
     let s = s\<lparr>arp_table := arp_link \<lparr>arp_address = address, arp_htype = htype, arp_mac = take 6 mac, arp_netdev = dev\<rparr> (arp_table s)\<rparr>;
     case arp_waiting address s of
       [] \<Rightarrow> Some s
     | w # rest \<Rightarrow> do {
         s \<leftarrow> wait_queue_wake cpu (wait_on w) s;
         Some (s\<lparr>arp_waittable := (arp_waittable s)(arp_slot address := rest)\<rparr>)
       }
   }"

definition arp_packet :: "u16 \<Rightarrow> u8 list \<Rightarrow> u32 \<Rightarrow> u8 list \<Rightarrow> u32 \<Rightarrow> u8 list" where
  "arp_packet opcode src_hw src_proto dst_hw dst_proto =
     bytes16 (native_to_be16 arp_htype_ethernet) @ bytes16 (native_to_be16 arp_ptype_ipv4) @ [6, 4] @
     bytes16 (native_to_be16 opcode) @ take 6 src_hw @ bytes32 src_proto @ take 6 dst_hw @ bytes32 dst_proto"

definition arp_send_reply :: "nat \<Rightarrow> u8 list \<Rightarrow> 'a net_scheme \<Rightarrow> 'a net_scheme" where
  "arp_send_reply dev packet s =
     (let d = netdev_of s dev; src_hw = take 6 (drop 8 packet)
      in ether_tx_packet dev src_hw ETHER_TYPE_ARP
           (arp_packet ARP_OPCODE_REPLY (mac_addr d) (ip_addr d) src_hw (word32 packet 14)) s)"

text \<open>The target hardware address of a request is not set: it is what the stack held.\<close>

definition arp_send_request :: "u8 list \<Rightarrow> nat \<Rightarrow> u32 \<Rightarrow> 'a net_scheme \<Rightarrow> 'a net_scheme" where
  "arp_send_request junk dev address s =
     (let d = netdev_of s dev
      in ether_tx_packet dev ether_mac_broadcast ETHER_TYPE_ARP
           (arp_packet ARP_OPCODE_REQUEST (mac_addr d) (ip_addr d) junk address) s)"

definition arp_rx_packet :: "nat \<Rightarrow> nat \<Rightarrow> u8 list \<Rightarrow> 'a net_scheme \<Rightarrow> 'a net_scheme option" where
  "arp_rx_packet cpu dev packet s =
     (if length packet < 28 then None
      else if be16_to_native (word16 packet 0) \<noteq> arp_htype_ethernet then Some s
      else if be16_to_native (word16 packet 2) \<noteq> arp_ptype_ipv4 then Some s
      else
        let op = be16_to_native (word16 packet 6); src_hw = take 6 (drop 8 packet);
            src_ip = word32 packet 14; dst_ip = word32 packet 24
        in if op = ARP_OPCODE_REQUEST then do {
             s \<leftarrow> (if arp_get_entry src_ip s = None then arp_add_entry cpu src_ip src_hw arp_htype_ethernet dev s else Some s);
             Some (if ip_addr (netdev_of s dev) \<noteq> 0 \<and> ip_addr (netdev_of s dev) = dst_ip then arp_send_reply dev packet s else s)
           }
           else if op = ARP_OPCODE_REPLY then arp_add_entry cpu src_ip src_hw arp_htype_ethernet dev s
           else Some s)"

text \<open>Looking an address up for a sender: without an entry a request goes out and the task \<^term>\<open>t\<close> queues
  itself.  It sleeps then, and goes on with \<^verbatim>\<open>arp_search_end\<close>.  \<^term>\<open>q\<close> is the wait queue of a new wait entry.\<close>

definition arp_wait_entry :: "nat \<Rightarrow> u32 \<Rightarrow> 'a net_scheme \<Rightarrow> nat \<times> 'a net_scheme" where
  "arp_wait_entry q address s =
     (case arp_waiting address s of
        w # _ \<Rightarrow> (wait_on w, s)
      | [] \<Rightarrow> (q, (wait_queue_init q s)\<lparr>arp_waittable := (arp_waittable s)
                 (arp_slot address := \<lparr>wait_address = address, wait_on = q\<rparr> # arp_waittable s (arp_slot address))\<rparr>))"

definition arp_search :: "u8 list \<Rightarrow> nat \<Rightarrow> nat \<Rightarrow> nat \<Rightarrow> u32 \<Rightarrow> 'a net_scheme \<Rightarrow> (arp_entry option \<times> 'a net_scheme) option" where
  "arp_search junk q t dev address s =
     (case arp_get_entry address s of
        Some e \<Rightarrow> Some (Some e, s)
      | None \<Rightarrow> do {
          let (q, s) = arp_wait_entry q address (arp_send_request junk dev address s);
          let (_, _, s) = cas_status t TASK_RUNNING TASK_INTR_SLEEPING s;
          s \<leftarrow> wait_queue_register q t s;
          Some (None, s)
        })"

definition arp_search_end :: "nat \<Rightarrow> u32 \<Rightarrow> 'a net_scheme \<Rightarrow> (arp_entry option result \<times> 'a net_scheme) option" where
  "arp_search_end t address s = do {
     s \<leftarrow> wait_queue_unregister t s;
     let (_, _, s) = cas_status t TASK_INTR_SLEEPING TASK_RUNNING s;
     Some (if signal_pending t s then Inl EINTR else Inr (arp_get_entry address s), s)
   }"

definition ether_rx_packet ::
  "(nat \<Rightarrow> nat \<Rightarrow> u8 list \<Rightarrow> 'a net_scheme \<Rightarrow> 'a net_scheme option) \<Rightarrow> nat \<Rightarrow> nat \<Rightarrow> u8 list \<Rightarrow> 'a net_scheme \<Rightarrow> 'a net_scheme option" where
  "ether_rx_packet ipv4_rx cpu dev packet s =
     (if length packet < 14 then None
      else if take 6 packet = mac_addr (netdev_of s dev) \<or> take 6 packet = ether_mac_broadcast then
        let type = be16_to_native (word16 packet 12)
        in if type = ETHER_TYPE_ARP then arp_rx_packet cpu dev (drop 14 packet) s
           else if type = ETHER_TYPE_IPV4 then ipv4_rx cpu dev (drop 14 packet) s
           else Some s
      else Some s)"

section \<open>Encoding and decoding\<close>

lemma swap_swap: "be16_to_native (native_to_be16 w) = w"
  by (rule bit_word_eqI) (auto simp: be16_to_native_def native_to_be16_def bit_simps)

lemma word16_bytes: "length xs = i \<Longrightarrow> word16 (xs @ bytes16 w @ ys) i = w"
  unfolding word16_def by (intro bit_word_eqI) (auto simp: bytes16_def nth_append bit_simps)

lemma word32_bytes: "length xs = i \<Longrightarrow> word32 (xs @ bytes32 w @ ys) i = w"
proof -
  assume "length xs = i"
  then have "word32 (xs @ bytes32 w @ ys) i = ucast (ucast w :: u8) OR push_bit 8 (ucast (ucast (drop_bit 8 w) :: u8)) OR
      push_bit 16 (ucast (ucast (drop_bit 16 w) :: u8)) OR push_bit 24 (ucast (ucast (drop_bit 24 w) :: u8))"
    by (simp add: word32_def bytes32_def nth_append)
  also have "\<dots> = w"
  proof (rule bit_word_eqI)
    fix n assume "n < LENGTH(32)"
    then have "n < 8 \<or> 8 \<le> n \<and> n < 16 \<or> 16 \<le> n \<and> n < 24 \<or> 24 \<le> n \<and> n < 32" by auto
    then show "bit (ucast (ucast w :: u8) OR push_bit 8 (ucast (ucast (drop_bit 8 w) :: u8)) OR
      push_bit 16 (ucast (ucast (drop_bit 16 w) :: u8)) OR push_bit 24 (ucast (ucast (drop_bit 24 w) :: u8)) :: u32) n = bit w n"
      by (elim disjE) (auto simp: bit_simps)
  qed
  finally show ?thesis .
qed

text \<open>What the receiver reads from a packet.\<close>

lemma arp_packet_fields:
  assumes "length hw = 6" "length dst = 6" "p = arp_packet opcode hw ip dst ip'"
  shows "length p = 28" "be16_to_native (word16 p 0) = arp_htype_ethernet" "be16_to_native (word16 p 2) = arp_ptype_ipv4"
    "be16_to_native (word16 p 6) = opcode" "take 6 (drop 8 p) = hw" "word32 p 14 = ip" "word32 p 24 = ip'"
proof -
  let ?a = "bytes16 (native_to_be16 arp_htype_ethernet)" and ?b = "bytes16 (native_to_be16 arp_ptype_ipv4)"
    and ?c = "bytes16 (native_to_be16 opcode)"
  have l: "length (bytes16 w) = 2" "length (bytes32 v) = 4" for w v by (simp_all add: bytes16_def bytes32_def)
  have p: "p = ?a @ ?b @ [6, 4] @ ?c @ hw @ bytes32 ip @ dst @ bytes32 ip'"
    using assms by (simp add: arp_packet_def)
  show "length p = 28" using assms(1,2) by (simp add: p l)
  show "be16_to_native (word16 p 0) = arp_htype_ethernet" using word16_bytes [of "[]" 0] by (simp add: p swap_swap)
  show "be16_to_native (word16 p 2) = arp_ptype_ipv4" using word16_bytes [of ?a 2] by (simp add: p swap_swap l)
  show "be16_to_native (word16 p 6) = opcode" using word16_bytes [of "?a @ ?b @ [6, 4]" 6] by (simp add: p swap_swap l)
  show "take 6 (drop 8 p) = hw" using assms(1) by (simp add: p l)
  show "word32 p 14 = ip" using word32_bytes [of "?a @ ?b @ [6, 4] @ ?c @ hw" 14] assms(1) by (simp add: p l)
  show "word32 p 24 = ip'" using word32_bytes [of "?a @ ?b @ [6, 4] @ ?c @ hw @ bytes32 ip @ dst" 24 ip' "[]"] assms(1,2) by (simp add: p l)
qed

lemma ether_frame_fields:
  assumes "length dst = 6" "length src = 6" "f = ether_frame dst src type payload"
  shows "14 \<le> length f" "take 6 f = dst" "be16_to_native (word16 f 12) = type" "drop 14 f = payload"
proof -
  have l: "length (bytes16 w) = 2" for w by (simp add: bytes16_def)
  have f: "f = (dst @ src) @ bytes16 (native_to_be16 type) @ payload" using assms by (simp add: ether_frame_def)
  show "14 \<le> length f" "take 6 f = dst" "drop 14 f = payload" using assms(1,2) by (simp_all add: f l)
  show "be16_to_native (word16 f 12) = type" unfolding f using assms(1,2) by (subst word16_bytes) (simp_all add: swap_swap)
qed

section \<open>Resolving an address\<close>

definition same_net :: "'a net_scheme \<Rightarrow> 'a net_scheme \<Rightarrow> bool" where
  "same_net s s' \<longleftrightarrow> netdev_of s' = netdev_of s \<and> arp_table s' = arp_table s \<and> arp_waittable s' = arp_waittable s \<and> sent_frames s' = sent_frames s"

lemma wake_nodes_net: "wake_nodes cpu ns s = Some s' \<Longrightarrow> same_net s s'"
proof (induction ns arbitrary: s)
  case (Cons n ns)
  then obtain s1 where s1: "wake_node cpu n s = Some s1" "wake_nodes cpu ns s1 = Some s'" by (auto split: bind_splits)
  then have "same_net s s1"
    by (auto simp: same_net_def wake_node_def cas_status_def sched_add_ready_def update_queue_def Let_def split: if_splits)
  then show ?case using Cons.IH [OF s1(2)] by (simp add: same_net_def)
qed (simp add: same_net_def)

text \<open>Learning an address does not panic when the tasks that wait for it are asleep.\<close>

definition arp_ready :: "nat \<Rightarrow> u32 \<Rightarrow> 'a net_scheme \<Rightarrow> bool" where
  "arp_ready cpu address s \<longleftrightarrow> (case arp_waiting address s of [] \<Rightarrow> True | w # _ \<Rightarrow> can_wake cpu (wait_on w) s)"

lemma arp_add_entry_spec:
  assumes "arp_ready cpu address s" "length mac = 6"
  shows "\<exists>s'. arp_add_entry cpu address mac htype dev s = Some s' \<and> netdev_of s' = netdev_of s \<and> sent_frames s' = sent_frames s \<and>
    (\<forall>a. arp_get_entry a s' = (if a = address then Some \<lparr>arp_address = address, arp_htype = htype, arp_mac = mac, arp_netdev = dev\<rparr>
       else arp_get_entry a s)) \<and>
    (\<forall>w rest. arp_waiting address s = w # rest \<longrightarrow>
       (\<forall>n\<in>set (wait_queues s ! wait_on w). status_of s' (node_task s n) = TASK_RUNNING))"
proof -
  let ?e = "\<lparr>arp_address = address, arp_htype = htype, arp_mac = mac, arp_netdev = dev\<rparr>"
  define s1 where "s1 = s\<lparr>arp_table := arp_link ?e (arp_table s)\<rparr>"
  have same: "arp_waiting address s1 = arp_waiting address s" "can_wake cpu q s1 = can_wake cpu q s"
    "wait_queues s1 = wait_queues s" "node_task s1 = node_task s" for q
    by (simp_all add: s1_def arp_waiting_def can_wake_def waits_inv_def)
  have get: "arp_find a (arp_table s1) = (if a = address then Some ?e else arp_get_entry a s)" for a
    by (simp add: s1_def arp_get_entry_def arp.get_insert)
  have add: "arp_add_entry cpu address mac htype dev s = (case arp_waiting address s1 of [] \<Rightarrow> Some s1
    | w # rest \<Rightarrow> do { s \<leftarrow> wait_queue_wake cpu (wait_on w) s1; Some (s\<lparr>arp_waittable := (arp_waittable s)(arp_slot address := rest)\<rparr>) })"
  proof -
    have "take 6 mac = mac" using assms(2) by simp
    then show ?thesis unfolding arp_add_entry_def Let_def s1_def by (rule ssubst) (rule refl)
  qed
  show ?thesis
  proof (cases "arp_waiting address s")
    case Nil
    then show ?thesis using get by (auto simp: add same arp_get_entry_def) (simp_all add: s1_def)
  next
    case (Cons w rest)
    then have cw: "can_wake cpu (wait_on w) s1" using assms(1) by (simp add: arp_ready_def same)
    obtain s2 where s2: "wake_nodes cpu (wait_queues s1 ! wait_on w) s1 = Some s2" "woken cpu (wait_queues s1 ! wait_on w) s1 s2"
      using can_wake_nodes [OF cw] by blast
    have "wait_queue_wake cpu (wait_on w) s1 = Some s2" using s2(1) cw by (simp add: wait_queue_wake_def can_wake_def)
    moreover have "same_net s1 s2" by (rule wake_nodes_net [OF s2(1)])
    moreover have "\<forall>n\<in>set (wait_queues s ! wait_on w). status_of s2 (node_task s n) = TASK_RUNNING"
      using s2(2) by (simp add: woken_def same)
    ultimately show ?thesis using Cons get by (simp add: add same same_net_def arp_get_entry_def) (simp add: s1_def)
  qed
qed

lemma ether_rx_arp:
  assumes "length dst = 6" "length src = 6" "dst = mac_addr (netdev_of s dev) \<or> dst = ether_mac_broadcast"
  shows "ether_rx_packet rx cpu dev (ether_frame dst src ETHER_TYPE_ARP payload) s = arp_rx_packet cpu dev payload s"
  using ether_frame_fields [OF assms(1,2) refl, of ETHER_TYPE_ARP payload] assms(3) by (simp add: ether_rx_packet_def)

lemma arp_request_received:
  assumes "length hw = 6" "length junk = 6" "arp_ready cpu ip s" "ip_addr (netdev_of s dev) \<noteq> 0"
  shows "\<exists>s'. arp_rx_packet cpu dev (arp_packet ARP_OPCODE_REQUEST hw ip junk (ip_addr (netdev_of s dev))) s = Some s' \<and>
    arp_get_entry ip s' = (if arp_get_entry ip s = None
      then Some \<lparr>arp_address = ip, arp_htype = arp_htype_ethernet, arp_mac = hw, arp_netdev = dev\<rparr> else arp_get_entry ip s) \<and>
    sent_frames s' = sent_frames s @ [(dev, ether_frame hw (mac_addr (netdev_of s dev)) ETHER_TYPE_ARP
      (arp_packet ARP_OPCODE_REPLY (mac_addr (netdev_of s dev)) (ip_addr (netdev_of s dev)) hw ip))]"
proof -
  let ?d = "netdev_of s dev"
  let ?p = "arp_packet ARP_OPCODE_REQUEST hw ip junk (ip_addr ?d)"
  note f = arp_packet_fields [OF assms(1,2) refl, of ARP_OPCODE_REQUEST ip "ip_addr ?d"]
  obtain s1 where s1: "(if arp_get_entry ip s = None then arp_add_entry cpu ip hw arp_htype_ethernet dev s else Some s) = Some s1"
    "netdev_of s1 = netdev_of s" "sent_frames s1 = sent_frames s"
    "arp_get_entry ip s1 = (if arp_get_entry ip s = None
      then Some \<lparr>arp_address = ip, arp_htype = arp_htype_ethernet, arp_mac = hw, arp_netdev = dev\<rparr> else arp_get_entry ip s)"
    using arp_add_entry_spec [OF assms(3,1), of arp_htype_ethernet dev] by (cases "arp_get_entry ip s = None") auto
  have "arp_rx_packet cpu dev ?p s = Some (arp_send_reply dev ?p s1)"
    using s1(1,2) assms(4) by (simp add: arp_rx_packet_def f Let_def)
  moreover have "arp_get_entry ip (arp_send_reply dev ?p s1) = arp_get_entry ip s1"
    by (simp add: arp_send_reply_def ether_tx_packet_def arp_get_entry_def Let_def)
  moreover have "sent_frames (arp_send_reply dev ?p s1) = sent_frames s @ [(dev, ether_frame hw (mac_addr ?d) ETHER_TYPE_ARP
      (arp_packet ARP_OPCODE_REPLY (mac_addr ?d) (ip_addr ?d) hw ip))]"
    using s1(2,3) by (simp add: arp_send_reply_def ether_tx_packet_def f Let_def)
  ultimately show ?thesis using s1(4) by auto
qed

lemma arp_reply_received:
  assumes "length hw = 6" "length dst = 6" "arp_ready cpu ip s"
  shows "\<exists>s'. arp_rx_packet cpu dev (arp_packet ARP_OPCODE_REPLY hw ip dst ip') s = Some s' \<and>
    arp_get_entry ip s' = Some \<lparr>arp_address = ip, arp_htype = arp_htype_ethernet, arp_mac = hw, arp_netdev = dev\<rparr> \<and>
    (\<forall>w rest. arp_waiting ip s = w # rest \<longrightarrow> (\<forall>n\<in>set (wait_queues s ! wait_on w). status_of s' (node_task s n) = TASK_RUNNING))"
proof -
  have "ARP_OPCODE_REPLY \<noteq> ARP_OPCODE_REQUEST" by (simp add: ARP_OPCODE_REPLY_def ARP_OPCODE_REQUEST_def)
  then show ?thesis
    using arp_add_entry_spec [OF assms(3,1), of arp_htype_ethernet dev]
    by (auto simp: arp_rx_packet_def arp_packet_fields [OF assms(1,2) refl] Let_def)
qed

lemma arp_search_frame:
  assumes "arp_search junk q t dev address s = Some (None, s')"
  shows "sent_frames s' = sent_frames s @ [(dev, ether_frame ether_mac_broadcast (mac_addr (netdev_of s dev)) ETHER_TYPE_ARP
    (arp_packet ARP_OPCODE_REQUEST (mac_addr (netdev_of s dev)) (ip_addr (netdev_of s dev)) junk address))]"
  using assms
  by (auto simp: arp_search_def arp_wait_entry_def arp_send_request_def ether_tx_packet_def cas_status_def wait_queue_register_def
      wait_queue_init_def Let_def split: option.splits list.splits if_splits bind_splits prod.splits)

section \<open>Properties\<close>

text \<open>C36: Two machines on one wire find each other.  A search for an address that machine A does not know broadcasts a
  request; machine B, which has the address, learns the address of A if it did not know it, and answers A; and when
  the answer arrives, A has an entry with the hardware address of B and every task that waited for it is running.\<close>

theorem arp_resolution:
  assumes "arp_search junk q t da (ip_addr B) a = Some (None, a')"
    and "netdev_of a da = A" "length (mac_addr A) = 6" "length junk = 6"
    and "netdev_of b db = B" "length (mac_addr B) = 6" "ip_addr B \<noteq> 0" "arp_ready cpu (ip_addr A) b"
    and "netdev_of a1 da = A" "arp_ready cpu' (ip_addr B) a1"
  shows "\<exists>request answer b' a2.
    sent_frames a' = sent_frames a @ [(da, request)] \<and>
    ether_rx_packet rx cpu db request b = Some b' \<and> arp_get_entry (ip_addr A) b' \<noteq> None \<and>
    (arp_get_entry (ip_addr A) b = None \<longrightarrow> map_option arp_mac (arp_get_entry (ip_addr A) b') = Some (mac_addr A)) \<and>
    sent_frames b' = sent_frames b @ [(db, answer)] \<and>
    ether_rx_packet rx cpu' da answer a1 = Some a2 \<and> map_option arp_mac (arp_get_entry (ip_addr B) a2) = Some (mac_addr B) \<and>
    (\<forall>w rest. arp_waiting (ip_addr B) a1 = w # rest \<longrightarrow>
       (\<forall>n\<in>set (wait_queues a1 ! wait_on w). status_of a2 (node_task a1 n) = TASK_RUNNING))"
proof -
  let ?p = "arp_packet ARP_OPCODE_REQUEST (mac_addr A) (ip_addr A) junk (ip_addr B)"
  let ?r = "arp_packet ARP_OPCODE_REPLY (mac_addr B) (ip_addr B) (mac_addr A) (ip_addr A)"
  let ?f = "ether_frame ether_mac_broadcast (mac_addr A) ETHER_TYPE_ARP ?p" and ?g = "ether_frame (mac_addr A) (mac_addr B) ETHER_TYPE_ARP ?r"
  have bl: "length ether_mac_broadcast = 6" by (simp add: ether_mac_broadcast_def)
  have "sent_frames a' = sent_frames a @ [(da, ?f)]" using arp_search_frame [OF assms(1)] unfolding assms(2) .
  moreover obtain b' where b': "arp_rx_packet cpu db ?p b = Some b'"
    "arp_get_entry (ip_addr A) b' = (if arp_get_entry (ip_addr A) b = None
      then Some \<lparr>arp_address = ip_addr A, arp_htype = arp_htype_ethernet, arp_mac = mac_addr A, arp_netdev = db\<rparr> else arp_get_entry (ip_addr A) b)"
    "sent_frames b' = sent_frames b @ [(db, ?g)]"
    using arp_request_received [of "mac_addr A" junk cpu "ip_addr A" b db] assms by auto
  moreover have "ether_rx_packet rx cpu db ?f b = Some b'" by (simp add: ether_rx_arp [OF bl assms(3)] b'(1))
  moreover obtain a2 where a2: "arp_rx_packet cpu' da ?r a1 = Some a2"
    "arp_get_entry (ip_addr B) a2 = Some \<lparr>arp_address = ip_addr B, arp_htype = arp_htype_ethernet, arp_mac = mac_addr B, arp_netdev = da\<rparr>"
    "\<forall>w rest. arp_waiting (ip_addr B) a1 = w # rest \<longrightarrow> (\<forall>n\<in>set (wait_queues a1 ! wait_on w). status_of a2 (node_task a1 n) = TASK_RUNNING)"
    using arp_reply_received [OF assms(6,3,10), of da "ip_addr A"] by blast
  moreover have "ether_rx_packet rx cpu' da ?g a1 = Some a2" using ether_rx_arp [OF assms(3,6), of a1 da] a2(1) assms(9) by simp
  ultimately show ?thesis by (intro exI [of _ ?f] exI [of _ ?g] exI [of _ b'] exI [of _ a2]) simp
qed

text \<open>Two machines with one device each; a task of the first looks for the second.\<close>

definition demo_net :: "u8 \<Rightarrow> net" where
  "demo_net i = ktasks.extend (demo_tasks\<lparr>wait_queues := [[]]\<rparr>)
     (net.fields (\<lambda>_. \<lparr>nd_name = ''eth0'', mac_addr = [2, 0, 0, 0, 0, i], ip_addr = 0x0100A8C0 + push_bit 24 (ucast i),
         ip_subnet = 0, ip_broadcast = 0xFFFFFFFF, ip_tx_id = 0\<rparr>) [0] (\<lambda>_. []) (\<lambda>_. []) [])"

lemma demo_net_fields [simp]:
  "netdev_of (demo_net i) d = \<lparr>nd_name = ''eth0'', mac_addr = [2, 0, 0, 0, 0, i], ip_addr = 0x0100A8C0 + push_bit 24 (ucast i),
     ip_subnet = 0, ip_broadcast = 0xFFFFFFFF, ip_tx_id = 0\<rparr>"
  "arp_table (demo_net i) = (\<lambda>_. [])" "arp_waittable (demo_net i) = (\<lambda>_. [])" "wait_queues (demo_net i) = [[]]"
  "status_of (demo_net i) 1 = TASK_RUNNING"
  by (simp_all add: demo_net_def demo_tasks_def ktasks.defs net.defs)

theorem arp_resolution_witness:
  "\<exists>request b' answer a2.
     ether_rx_packet (\<lambda>_ _ _. Some) 0 0 request (demo_net 2) = Some b' \<and> sent_frames b' = sent_frames (demo_net 2) @ [(0, answer)] \<and>
     ether_rx_packet (\<lambda>_ _ _. Some) 0 0 answer (demo_net 1) = Some a2 \<and>
     map_option arp_mac (arp_get_entry 0x0300A8C0 a2) = Some [2, 0, 0, 0, 0, 2]"
proof -
  let ?B = "netdev_of (demo_net 2) 0"
  have ip: "ip_addr ?B = 0x0300A8C0" by simp
  have "\<exists>a'. arp_search (replicate 6 0) 0 1 0 (ip_addr ?B) (demo_net 1) = Some (None, a')"
    by (simp add: arp_search_def arp_get_entry_def arp_find_def arp_wait_entry_def arp_waiting_def arp_send_request_def
        ether_tx_packet_def wait_queue_init_def cas_status_def wait_queue_register_def linked_def Let_def)
  then obtain a' where "arp_search (replicate 6 0) 0 1 0 (ip_addr ?B) (demo_net 1) = Some (None, a')" by blast
  moreover have "arp_ready 0 ip (demo_net i)" for ip i by (simp add: arp_ready_def arp_waiting_def)
  ultimately obtain request answer b' a2 where "ether_rx_packet (\<lambda>_ _ _. Some) 0 0 request (demo_net 2) = Some b'"
    "sent_frames b' = sent_frames (demo_net 2) @ [(0, answer)]" "ether_rx_packet (\<lambda>_ _ _. Some) 0 0 answer (demo_net 1) = Some a2"
    "map_option arp_mac (arp_get_entry (ip_addr ?B) a2) = Some (mac_addr ?B)"
    using arp_resolution [of "replicate 6 0" 0 1 0 ?B "demo_net 1" a' "netdev_of (demo_net 1) 0" "demo_net 2" 0 0 "demo_net 1" 0 "\<lambda>_ _ _. Some"]
    by auto
  moreover have "mac_addr ?B = [2, 0, 0, 0, 0, 2]" by simp
  ultimately show ?thesis unfolding ip by metis
qed

end
