(* ===== verification/Ipv4.thy ===== *)
theory Ipv4
  imports Net
begin

text \<open>
  IPv4 (\<^verbatim>\<open>net/ipv4/route.c\<close>, \<^verbatim>\<open>net/ipv4/ipv4.c\<close>, \<^verbatim>\<open>net/ipv4/udp.c\<close>): the routing table, the header and its
  checksum, sending, and the table of UDP sockets.  Addresses and ports are kept in network order, as in the code.
  Sockets are named by numbers; the protocol data of a socket is part of it.
\<close>

section \<open>Routes\<close>

record ip_route_entry =
  rt_device :: "nat option"
  rt_dest :: u32
  rt_gateway :: u32
  rt_mask :: u32
  rt_metric :: u16
  rt_mtu :: u16

record ipv4_sdata =
  bind_device :: "nat option"
  sd_addr :: u32
  sd_port :: u16
  sd_protocol :: int

record ipnet = net +
  ip_route_table :: "ip_route_entry list"
  sdata_of :: "nat \<Rightarrow> ipv4_sdata"
  sock_bound :: "nat \<Rightarrow> bool"
  udp_table :: "nat chains"
  next_eph_port :: u16
  raw_sockets :: "nat list"
  recv_queue :: "nat \<Rightarrow> ((u32 \<times> u16) \<times> u8 list) list"
  recv_waitqueue :: "nat \<Rightarrow> nat"

definition ip_route_add :: "ip_route_entry \<Rightarrow> 'a ipnet_scheme \<Rightarrow> 'a ipnet_scheme" where
  "ip_route_add entry s = s\<lparr>ip_route_table := ip_route_table s @ [entry]\<rparr>"

fun route_loop :: "u32 \<Rightarrow> ip_route_entry list \<Rightarrow> ip_route_entry option \<Rightarrow> u16 \<Rightarrow> ip_route_entry option" where
  "route_loop ip [] best best_metric = best"
| "route_loop ip (cur # rest) best best_metric =
     (if ip AND rt_mask cur = rt_dest cur AND rt_mask cur \<and> best_metric < rt_metric cur
      then route_loop ip rest (Some cur) (rt_metric cur)
      else route_loop ip rest best best_metric)"

definition ip_route_get :: "u32 \<Rightarrow> 'a ipnet_scheme \<Rightarrow> ip_route_entry option" where
  "ip_route_get ip s = route_loop ip (ip_route_table s) None 0"

section \<open>The header\<close>

definition sizeof_ipv4_packet :: nat where "sizeof_ipv4_packet = 20"

text \<open>The loop over the 16-bit words of the packet, from word \<^term>\<open>i\<close> on; \<^term>\<open>n\<close> words are left.\<close>

fun checksum_loop :: "u8 list \<Rightarrow> nat \<Rightarrow> nat \<Rightarrow> u32 \<Rightarrow> u32" where
  "checksum_loop packet i 0 acc = acc"
| "checksum_loop packet i (Suc n) acc =
     (let acc = acc + ucast (be16_to_native (word16 packet (2 * i)));
          acc = (if 0xFFFF < acc then drop_bit 16 acc + (acc AND 0xFFFF) else acc)
      in checksum_loop packet (i + 1) n acc)"

definition ip_checksum :: "u8 list \<Rightarrow> nat \<Rightarrow> u16" where
  "ip_checksum packet len = ucast (NOT (checksum_loop packet 0 (len div 2) 0 AND 0xFFFF) AND 0xFFFF)"

definition ipv4_header :: "u16 \<Rightarrow> u16 \<Rightarrow> u8 \<Rightarrow> u16 \<Rightarrow> u32 \<Rightarrow> u32 \<Rightarrow> u8 list" where
  "ipv4_header tot_len pkt_id protocol checksum src dst =
     [0x45, 0] @ bytes16 (native_to_be16 tot_len) @ bytes16 (native_to_be16 pkt_id) @ bytes16 0 @ [64, protocol] @
     bytes16 checksum @ bytes32 src @ bytes32 dst"

text \<open>The packet for a payload, with the checksum filled in.\<close>

definition ipv4_packet :: "u16 \<Rightarrow> u8 \<Rightarrow> u32 \<Rightarrow> u32 \<Rightarrow> u8 list \<Rightarrow> u8 list" where
  "ipv4_packet pkt_id protocol src dst payload =
     (let tot_len = of_nat (sizeof_ipv4_packet + length payload);
          checksum = native_to_be16 (ip_checksum (ipv4_header tot_len pkt_id protocol 0 src dst) 20)
      in ipv4_header tot_len pkt_id protocol checksum src dst @ payload)"

section \<open>The table of UDP sockets\<close>

definition ip_port_hashf :: "u32 \<times> u16 \<Rightarrow> nat" where
  "ip_port_hashf k = (case k of (addr, port) \<Rightarrow>
     let hash = 17 :: u32; hash = hash * 5 + addr; hash = hash * 5 + ucast port in unat (hash mod 256))"

definition sock_key :: "(nat \<Rightarrow> ipv4_sdata) \<Rightarrow> nat \<Rightarrow> u32 \<times> u16" where
  "sock_key ss n = (sd_addr (ss n), sd_port (ss n))"

definition udp_find :: "(nat \<Rightarrow> ipv4_sdata) \<Rightarrow> u32 \<times> u16 \<Rightarrow> nat chains \<Rightarrow> nat option" where
  "udp_find ss k t = find (\<lambda>n. sock_key ss n = k) (t (ip_port_hashf k))"

definition udp_link :: "(nat \<Rightarrow> ipv4_sdata) \<Rightarrow> nat \<Rightarrow> nat chains \<Rightarrow> nat chains" where
  "udp_link ss n t = (let hash = ip_port_hashf (sock_key ss n) in t(hash := n # t hash))"

definition udp_unlink :: "(nat \<Rightarrow> ipv4_sdata) \<Rightarrow> nat \<Rightarrow> nat chains \<Rightarrow> nat chains" where
  "udp_unlink ss n t = (let hash = ip_port_hashf (sock_key ss n) in t(hash := remove1 n (t hash)))"

interpretation udp: removable_table ip_port_hashf "sock_key ss" "udp_find ss" "udp_link ss" "udp_unlink ss"
  for ss :: "nat \<Rightarrow> ipv4_sdata"
  by unfold_locales (simp_all add: udp_find_def udp_link_def udp_unlink_def Let_def)

definition udp_table_get :: "u32 \<Rightarrow> u16 \<Rightarrow> 'a ipnet_scheme \<Rightarrow> nat option" where
  "udp_table_get addr port s = udp_find (sdata_of s) (addr, port) (udp_table s)"

text \<open>Both are called with the address and the port of the socket itself.\<close>

definition udp_table_insert :: "nat \<Rightarrow> 'a ipnet_scheme \<Rightarrow> 'a ipnet_scheme" where
  "udp_table_insert n s = s\<lparr>udp_table := udp_link (sdata_of s) n (udp_table s)\<rparr>"

definition udp_table_remove :: "nat \<Rightarrow> 'a ipnet_scheme \<Rightarrow> 'a ipnet_scheme" where
  "udp_table_remove n s = s\<lparr>udp_table := udp_unlink (sdata_of s) n (udp_table s)\<rparr>"

definition udp_register :: "nat \<Rightarrow> 'a ipnet_scheme \<Rightarrow> bool \<times> 'a ipnet_scheme" where
  "udp_register n s =
     (if udp_table_get (sd_addr (sdata_of s n)) (sd_port (sdata_of s n)) s \<noteq> None then (False, s) else (True, udp_table_insert n s))"

partial_function (option) eph_loop :: "(u16 \<Rightarrow> bool) \<Rightarrow> u16 \<Rightarrow> (u16 \<times> u16) option" where
  "eph_loop taken next_port =
     (if taken (native_to_be16 next_port) then eph_loop taken (next_port + 1)
      else Some (native_to_be16 next_port, next_port + 1))"

definition udp_get_ephemeral_port :: "'a ipnet_scheme \<Rightarrow> (u16 \<times> 'a ipnet_scheme) option" where
  "udp_get_ephemeral_port s = do {
     (port, next) \<leftarrow> eph_loop (\<lambda>p. udp_table_get 0 p s \<noteq> None) (next_eph_port s);
     Some (port, s\<lparr>next_eph_port := next\<rparr>)
   }"

definition udp_release :: "nat \<Rightarrow> 'a ipnet_scheme \<Rightarrow> 'a ipnet_scheme" where
  "udp_release n s =
     (if \<not> sock_bound s n then s
      else if udp_table_get (sd_addr (sdata_of s n)) (sd_port (sdata_of s n)) s = None then s
      else udp_table_remove n s)"

definition AF_INET :: u16 where "AF_INET = 2"
definition sizeof_sockaddr_in :: u64 where "sizeof_sockaddr_in = 16"

definition udp_bind :: "nat \<Rightarrow> u16 \<Rightarrow> u16 \<Rightarrow> u32 \<Rightarrow> u64 \<Rightarrow> 'a ipnet_scheme \<Rightarrow> unit result \<times> 'a ipnet_scheme" where
  "udp_bind n family port addr addrlen s =
     (if addrlen < sizeof_sockaddr_in then (Inl EFAULT, s)
      else if family \<noteq> AF_INET then (Inl EINVAL, s)
      else
        let s = s\<lparr>sdata_of := (sdata_of s)(n := (sdata_of s n)\<lparr>sd_addr := addr, sd_port := port\<rparr>)\<rparr>
        in case udp_register n s of
             (True, s) \<Rightarrow> (Inr (), s)
           | (False, s) \<Rightarrow>
               (Inl EADDRINUSE, s\<lparr>sdata_of := (sdata_of s)(n := (sdata_of s n)\<lparr>sd_port := 0\<rparr>), sock_bound := (sock_bound s)(n := False)\<rparr>))"

text \<open>Binding a UDP socket; the socket counts as bound before the address is looked at.\<close>

definition socket_bind :: "nat \<Rightarrow> u16 \<Rightarrow> u16 \<Rightarrow> u32 \<Rightarrow> u64 \<Rightarrow> 'a ipnet_scheme \<Rightarrow> unit result \<times> 'a ipnet_scheme" where
  "socket_bind n family port addr addrlen s =
     (if sock_bound s n then (Inl EINVAL, s)
      else udp_bind n family port addr addrlen (s\<lparr>sock_bound := (sock_bound s)(n := True)\<rparr>))"

section \<open>Sending\<close>

definition IPPROTO_UDP :: u8 where "IPPROTO_UDP = 17"
definition INADDR_BROADCAST :: u32 where "INADDR_BROADCAST = 0xFFFFFFFF"

text \<open>The search for the hardware address, with its waiting, is the argument \<^term>\<open>search\<close>.  An interrupted search gives
  an error number in place of an entry, which is not looked for: it is taken as a pointer.\<close>

type_synonym 's searcher = "nat \<Rightarrow> u32 \<Rightarrow> 's \<Rightarrow> (arp_entry option result \<times> 's) option"

definition ipv4_tx_packet ::
  "'a ipnet_scheme searcher \<Rightarrow> nat \<Rightarrow> u32 \<Rightarrow> u32 \<Rightarrow> u8 \<Rightarrow> u8 list \<Rightarrow> 'a ipnet_scheme \<Rightarrow> (unit result \<times> 'a ipnet_scheme) option" where
  "ipv4_tx_packet search dev route dst_addr protocol payload s = do {
     let d = netdev_of s dev;
     let s = s\<lparr>netdev_of := (netdev_of s)(dev := d\<lparr>ip_tx_id := ip_tx_id d + 1\<rparr>)\<rparr>;
     let packet = ipv4_packet (ip_tx_id d) protocol (ip_addr d) dst_addr payload;
     if route = ip_broadcast d then Some (Inr (), ether_tx_packet dev ether_mac_broadcast ETHER_TYPE_IPV4 packet s)
     else do {
       (r, s) \<leftarrow> search dev route s;
       case r of
         Inl _ \<Rightarrow> None
       | Inr None \<Rightarrow> Some (Inl ENETUNREACH, s)
       | Inr (Some e) \<Rightarrow> Some (Inr (), ether_tx_packet dev (arp_mac e) ETHER_TYPE_IPV4 packet s)
     }
   }"

definition udp_packet :: "u16 \<Rightarrow> u16 \<Rightarrow> u8 list \<Rightarrow> u8 list" where
  "udp_packet src_port dst_port payload =
     bytes16 src_port @ bytes16 dst_port @ bytes16 (native_to_be16 (of_nat (8 + length payload))) @ bytes16 0 @ payload"

text \<open>The device and the next hop for a destination; a broadcast without a device follows a null pointer.\<close>

definition ip_next_hop :: "nat \<Rightarrow> u32 \<Rightarrow> 'a ipnet_scheme \<Rightarrow> (nat \<times> u32) option result option" where
  "ip_next_hop n addr s =
     (if addr = INADDR_BROADCAST then do {
        dev \<leftarrow> bind_device (sdata_of s n);
        Some (Inr (Some (dev, ip_broadcast (netdev_of s dev))))
      } else Some (case ip_route_get addr s of
          None \<Rightarrow> Inl ENETUNREACH
        | Some r \<Rightarrow> Inr (map_option (\<lambda>dev. (dev, rt_gateway r)) (rt_device r))))"

definition udp_autobind :: "nat \<Rightarrow> 'a ipnet_scheme \<Rightarrow> (unit result \<times> 'a ipnet_scheme) option" where
  "udp_autobind n s =
     (if be16_to_native (sd_port (sdata_of s n)) \<noteq> 0 then Some (Inr (), s)
      else do {
        (port, s) \<leftarrow> udp_get_ephemeral_port s;
        let s = s\<lparr>sdata_of := (sdata_of s)(n := (sdata_of s n)\<lparr>sd_addr := 0, sd_port := port\<rparr>)\<rparr>;
        Some (if port \<noteq> 0 then (Inr (), udp_table_insert n s) else (Inl EADDRINUSE, s))
      })"

definition udp_sendto ::
  "'a ipnet_scheme searcher \<Rightarrow> nat \<Rightarrow> u8 list \<Rightarrow> u16 \<Rightarrow> u16 \<Rightarrow> u32 \<Rightarrow> u64 \<Rightarrow> 'a ipnet_scheme \<Rightarrow> (unit result \<times> 'a ipnet_scheme) option" where
  "udp_sendto search n buf family port addr addrlen s =
     (if buf = [] then Some (Inr (), s)
      else if addrlen < sizeof_sockaddr_in then Some (Inl EFAULT, s)
      else if family \<noteq> AF_INET then Some (Inl EINVAL, s)
      else do {
        (r, s) \<leftarrow> udp_autobind n s;
        case r of Inl e \<Rightarrow> Some (Inl e, s)
        | Inr _ \<Rightarrow> do {
            hop \<leftarrow> ip_next_hop n addr s;
            case hop of Inl e \<Rightarrow> Some (Inl e, s)
            | Inr None \<Rightarrow> Some (Inl ENETUNREACH, s)
            | Inr (Some (dev, route)) \<Rightarrow>
                ipv4_tx_packet search dev route addr IPPROTO_UDP (udp_packet (sd_port (sdata_of s n)) port buf) s
          }
      })"

section \<open>Receiving\<close>

text \<open>A datagram goes to the end of the queue of its socket and wakes the readers.\<close>

definition socket_rx_packet :: "nat \<Rightarrow> nat \<Rightarrow> u32 \<times> u16 \<Rightarrow> u8 list \<Rightarrow> 'a ipnet_scheme \<Rightarrow> 'a ipnet_scheme option" where
  "socket_rx_packet cpu n source payload s =
     wait_queue_wake cpu (recv_waitqueue s n) (s\<lparr>recv_queue := (recv_queue s)(n := recv_queue s n @ [(source, payload)])\<rparr>)"

definition udp_rx_packet :: "nat \<Rightarrow> u8 list \<Rightarrow> 'a ipnet_scheme \<Rightarrow> 'a ipnet_scheme option" where
  "udp_rx_packet cpu packet s =
     (if length packet < 28 then Some s
      else
        let src = word32 packet 12; dst = word32 packet 16; src_port = word16 packet 20; dst_port = word16 packet 22;
            socket = (case udp_table_get dst dst_port s of Some n \<Rightarrow> Some n | None \<Rightarrow> udp_table_get 0 dst_port s)
        in case socket of None \<Rightarrow> Some s
           | Some n \<Rightarrow> socket_rx_packet cpu n (src, src_port) (drop 28 packet) s)"

fun raw_deliver :: "nat \<Rightarrow> nat list \<Rightarrow> u8 list \<Rightarrow> 'a ipnet_scheme \<Rightarrow> 'a ipnet_scheme option" where
  "raw_deliver cpu [] packet s = Some s"
| "raw_deliver cpu (n # ns) packet s =
     (if sd_protocol (sdata_of s n) = uint (packet ! 9) then do {
        s \<leftarrow> socket_rx_packet cpu n (word32 packet 12, ucast (packet ! 9)) (drop 20 packet) s;
        raw_deliver cpu ns packet s
      } else raw_deliver cpu ns packet s)"

definition ipv4_rx_packet :: "nat \<Rightarrow> nat \<Rightarrow> u8 list \<Rightarrow> 'a ipnet_scheme \<Rightarrow> 'a ipnet_scheme option" where
  "ipv4_rx_packet cpu dev packet s =
     (if length packet < 20 then None
      else do {
        s \<leftarrow> raw_deliver cpu (raw_sockets s) packet s;
        if packet ! 9 = IPPROTO_UDP then udp_rx_packet cpu packet s else Some s
      })"

text \<open>Taking the first datagram of a queue: at most \<^term>\<open>len\<close> bytes of it are copied, and the rest is gone.  An empty queue is
  \<^term>\<open>None\<close>: the caller waits before.\<close>

definition recv_take :: "nat \<Rightarrow> u64 \<Rightarrow> 'a ipnet_scheme \<Rightarrow> (((u32 \<times> u16) \<times> u8 list) \<times> 'a ipnet_scheme) option" where
  "recv_take n len s =
     (case recv_queue s n of [] \<Rightarrow> None
      | (source, payload) # rest \<Rightarrow> Some ((source, take (unat len) payload), s\<lparr>recv_queue := (recv_queue s)(n := rest)\<rparr>))"

section \<open>Raw sockets\<close>

definition ipv4_raw_create_socket :: "nat \<Rightarrow> 'a ipnet_scheme \<Rightarrow> 'a ipnet_scheme" where
  "ipv4_raw_create_socket n s = s\<lparr>raw_sockets := raw_sockets s @ [n]\<rparr>"

definition ipv4_raw_release :: "nat \<Rightarrow> 'a ipnet_scheme \<Rightarrow> 'a ipnet_scheme" where
  "ipv4_raw_release n s = s\<lparr>raw_sockets := removeAll n (raw_sockets s)\<rparr>"

definition ipv4_raw_bind :: "nat \<Rightarrow> u16 \<Rightarrow> u32 \<Rightarrow> u64 \<Rightarrow> 'a ipnet_scheme \<Rightarrow> unit result \<times> 'a ipnet_scheme" where
  "ipv4_raw_bind n family addr addrlen s =
     (if addrlen < sizeof_sockaddr_in then (Inl EFAULT, s)
      else if family \<noteq> AF_INET then (Inl EINVAL, s)
      else (Inr (), s\<lparr>sdata_of := (sdata_of s)(n := (sdata_of s n)\<lparr>sd_addr := addr\<rparr>)\<rparr>))"

definition ipv4_raw_sendto ::
  "'a ipnet_scheme searcher \<Rightarrow> nat \<Rightarrow> u8 list \<Rightarrow> u16 \<Rightarrow> u32 \<Rightarrow> u64 \<Rightarrow> 'a ipnet_scheme \<Rightarrow> (unit result \<times> 'a ipnet_scheme) option" where
  "ipv4_raw_sendto search n buf family addr addrlen s =
     (if buf = [] then Some (Inr (), s)
      else if addrlen < sizeof_sockaddr_in then Some (Inl EFAULT, s)
      else if family \<noteq> AF_INET then Some (Inl EINVAL, s)
      else do {
        hop \<leftarrow> ip_next_hop n addr s;
        case hop of Inl e \<Rightarrow> Some (Inl e, s)
        | Inr None \<Rightarrow> Some (Inl ENETUNREACH, s)
        | Inr (Some (dev, route)) \<Rightarrow> ipv4_tx_packet search dev route addr (of_int (sd_protocol (sdata_of s n))) buf s
      })"

section \<open>The checksum\<close>

definition header_word :: "u8 list \<Rightarrow> nat \<Rightarrow> nat" where
  "header_word packet i = unat (be16_to_native (word16 packet (2 * i)))"

definition ones_sum :: "nat \<Rightarrow> nat" where
  "ones_sum n = (if n = 0 then 0 else if n mod 65535 = 0 then 65535 else n mod 65535)"

lemma ones_sum_fold: "ones_sum (m + (if n \<le> 65535 then n else n - 65535)) = ones_sum (m + n)"
proof (cases "n \<le> 65535")
  case False
  define k where "k = m + (n - 65535)"
  have "m + n = k + 65535" "k \<noteq> 0" using False by (simp_all add: k_def)
  moreover have "(k + 65535) mod 65535 = k mod 65535" by (rule mod_add_self2)
  ultimately have "ones_sum (m + n) = ones_sum k" by (simp add: ones_sum_def)
  then show ?thesis using False by (simp add: k_def)
qed simp

lemma fold_carry:
  fixes a b :: u32
  assumes "unat a \<le> 65535" "unat b \<le> 65535"
  shows "unat (if 0xFFFF < a + b then drop_bit 16 (a + b) + (a + b AND 0xFFFF) else a + b) =
    (if unat a + unat b \<le> 65535 then unat a + unat b else unat a + unat b - 65535)"
proof -
  have v: "unat (a + b) = unat a + unat b" using assms by (intro unat_add_small) simp
  have m: "(0xFFFF :: u32) = mask 16" by (simp add: mask_eq_exp_minus_1)
  have "unat (drop_bit 16 (a + b)) = unat (a + b) div 65536" by (simp add: drop_bit_eq_div unat_div)
  moreover have "unat (a + b AND 0xFFFF) = unat (a + b) mod 65536"
    unfolding m by (simp add: take_bit_eq_mask [symmetric] take_bit_eq_mod unat_mod)
  moreover have "unat (a + b) div 65536 = 1 \<and> unat (a + b) mod 65536 = unat (a + b) - 65536" if "65535 < unat (a + b)"
    using that assms v by (simp add: div_nat_eqI mod_if)
  ultimately show ?thesis using v assms by (auto simp: word_less_nat_alt unat_add_small)
qed

lemma checksum_loop_sum:
  assumes "unat acc \<le> 65535"
  shows "unat (checksum_loop packet i n acc) \<le> 65535 \<and>
    ones_sum (unat (checksum_loop packet i n acc)) = ones_sum (unat acc + (\<Sum>k<n. header_word packet (i + k)))"
  using assms
proof (induction n arbitrary: i acc)
  case (Suc n)
  let ?w = "ucast (be16_to_native (word16 packet (2 * i))) :: u32"
  define acc' where "acc' = (if 0xFFFF < acc + ?w then drop_bit 16 (acc + ?w) + (acc + ?w AND 0xFFFF) else acc + ?w)"
  have w: "unat ?w = header_word packet i" by (simp add: header_word_def unat_ucast_up)
  have "unat (be16_to_native (word16 packet (2 * i))) < 2 ^ LENGTH(16)" by (rule unsigned_less)
  then have w': "unat ?w \<le> 65535" by (simp add: unat_ucast_up)
  have acc': "unat acc' = (if unat acc + unat ?w \<le> 65535 then unat acc + unat ?w else unat acc + unat ?w - 65535)"
    unfolding acc'_def by (rule fold_carry [OF Suc.prems w'])
  have "unat acc' \<le> 65535" using acc' Suc.prems w' by (simp split: if_splits)
  note ih = Suc.IH [OF this, of "i + 1"]
  have "(\<Sum>k<Suc n. header_word packet (i + k)) = header_word packet i + (\<Sum>k<n. header_word packet (i + 1 + k))"
    by (simp add: sum.lessThan_Suc_shift del: sum.lessThan_Suc)
  then have "ones_sum (unat acc' + (\<Sum>k<n. header_word packet (i + 1 + k))) = ones_sum (unat acc + (\<Sum>k<Suc n. header_word packet (i + k)))"
    using ones_sum_fold [of "\<Sum>k<n. header_word packet (i + 1 + k)" "unat acc + unat ?w"] unfolding acc' w by (simp add: add_ac)
  moreover have "checksum_loop packet i (Suc n) acc = checksum_loop packet (i + 1) n acc'"
    unfolding checksum_loop.simps Let_def acc'_def ..
  ultimately show ?case using ih by simp
qed simp

lemma ones_sum_id: "n \<le> 65535 \<Longrightarrow> ones_sum n = n"
  by (cases "n = 65535") (simp_all add: ones_sum_def)

lemma unat_ip_checksum: "unat (ip_checksum packet 20) = 65535 - ones_sum (\<Sum>k<10. header_word packet k)"
proof -
  define r where "r = checksum_loop packet 0 10 0"
  have r: "unat r \<le> 65535" "unat r = ones_sum (\<Sum>k<10. header_word packet k)"
    using checksum_loop_sum [of 0 packet 0 10] ones_sum_id [of "unat (checksum_loop packet 0 10 0)"] unfolding r_def by simp_all
  have m: "(0xFFFF :: u32) = mask 16" by (simp add: mask_eq_exp_minus_1)
  have "ip_checksum packet 20 = NOT (ucast r)"
    unfolding ip_checksum_def m by (rule bit_word_eqI) (simp add: r_def bit_simps)
  moreover have "unat (NOT x) = 65535 - unat x" for x :: u16
  proof -
    have "NOT x = - 1 - x" by (simp add: not_eq_complement)
    moreover have "unat (- 1 - x) = unat (- 1 :: u16) - unat x" by (rule unat_sub_small) simp
    moreover have "unat (- 1 :: u16) = 65535" by (simp add: unsigned_minus_1_eq_mask mask_eq_exp_minus_1)
    ultimately show ?thesis by simp
  qed
  moreover have "unat (ucast r :: u16) = unat r" using r(1) by (simp add: unat_ucast_down)
  ultimately show ?thesis using r(2) by simp
qed

section \<open>Properties\<close>

lemma length_bytes [simp]: "length (bytes16 w) = 2" "length (bytes32 v) = 4"
  by (simp_all add: bytes16_def bytes32_def)

lemma ones_sum_cong: "\<exists>q. n = ones_sum n + 65535 * q"
proof (cases "n mod 65535 = 0 \<and> n \<noteq> 0")
  case True
  then obtain k where k: "n = 65535 * k" by blast
  with True obtain q where "k = Suc q" by (cases k) auto
  then have "n = ones_sum n + 65535 * q" using True k by (simp add: ones_sum_def)
  then show ?thesis ..
next
  case False
  then have "ones_sum n = n mod 65535" by (auto simp: ones_sum_def)
  then have "n = ones_sum n + 65535 * (n div 65535)" by simp
  then show ?thesis ..
qed

lemma other_words:
  assumes "length x = 10" "k \<noteq> 5"
  shows "header_word (x @ bytes16 c @ y) k = header_word (x @ bytes16 d @ y) k"
proof -
  have "(x @ bytes16 c @ y) ! i = (x @ bytes16 d @ y) ! i" if "i < 10 \<or> 12 \<le> i" for i
    using that assms(1) by (auto simp: nth_append)
  moreover have "2 * k < 10 \<or> 12 \<le> 2 * k" "2 * k + 1 < 10 \<or> 12 \<le> 2 * k + 1" using assms(2) by arith+
  ultimately have "(x @ bytes16 c @ y) ! (2 * k) = (x @ bytes16 d @ y) ! (2 * k)"
    "(x @ bytes16 c @ y) ! (2 * k + 1) = (x @ bytes16 d @ y) ! (2 * k + 1)" by blast+
  then show ?thesis unfolding header_word_def word16_def by (simp only:)
qed

lemma header_split:
  "\<exists>x y. length x = 10 \<and> (\<forall>c. ipv4_header tot_len pkt_id protocol c src dst = x @ bytes16 c @ y) \<and> header_word x 0 = 0x4500"
proof -
  let ?x = "[0x45, 0] @ bytes16 (native_to_be16 tot_len) @ bytes16 (native_to_be16 pkt_id) @ bytes16 0 @ [64, protocol]"
  have "length ?x = 10" by simp
  moreover have "ipv4_header tot_len pkt_id protocol c src dst = ?x @ bytes16 c @ bytes32 src @ bytes32 dst" for c by (simp add: ipv4_header_def)
  moreover have "header_word ?x 0 = 0x4500" by (simp add: header_word_def word16_def be16_to_native_def)
  ultimately show ?thesis by blast
qed

lemma checksum_filled:
  assumes "length x = 10" "header_word x 0 \<noteq> 0" "c = ip_checksum (x @ bytes16 0 @ y) 20"
  shows "ip_checksum (x @ bytes16 (native_to_be16 c) @ y) 20 = 0"
proof -
  define S where "S = (\<Sum>k\<in>{..<10} - {5}. header_word (x @ bytes16 0 @ y) k)"
  have sum: "(\<Sum>k<10. header_word (x @ bytes16 d @ y) k) = unat (be16_to_native d) + S" for d
  proof -
    have "(\<Sum>k<10. header_word (x @ bytes16 d @ y) k) = header_word (x @ bytes16 d @ y) 5 + (\<Sum>k\<in>{..<10} - {5}. header_word (x @ bytes16 d @ y) k)"
      by (rule sum.remove) simp_all
    also have "header_word (x @ bytes16 d @ y) 5 = unat (be16_to_native d)"
      unfolding header_word_def using word16_bytes [OF assms(1), of d y] by simp
    also have "(\<Sum>k\<in>{..<10} - {5}. header_word (x @ bytes16 d @ y) k) = S"
      unfolding S_def by (rule sum.cong [OF refl]) (rule other_words [OF assms(1)], simp)
    finally show ?thesis .
  qed
  have "header_word (x @ bytes16 0 @ y) 0 \<le> S" unfolding S_def by (rule member_le_sum) simp_all
  moreover have "header_word (x @ bytes16 0 @ y) 0 = header_word x 0" using assms(1) by (simp add: header_word_def word16_def nth_append)
  ultimately have pos: "0 < S" using assms(2) by simp
  have c: "unat c = 65535 - ones_sum S" unfolding assms(3) unat_ip_checksum sum by (simp add: be16_to_native_def)
  obtain q where q: "S = ones_sum S + 65535 * q" using ones_sum_cong by blast
  have "ones_sum S \<le> 65535" by (auto simp: ones_sum_def intro: less_imp_le)
  then have "unat c + S = 65535 * Suc q" using c q by simp
  then have "ones_sum (unat c + S) = 65535" by (simp add: ones_sum_def)
  then have "unat (ip_checksum (x @ bytes16 (native_to_be16 c) @ y) 20) = 0" unfolding unat_ip_checksum sum swap_swap by simp
  then show ?thesis by (simp add: unat_eq_0)
qed

text \<open>C37: Every packet the kernel sends has a valid header checksum: the checksum of the header with its checksum field
  filled in is zero, which is what a receiver checks, for all lengths, identifications, protocols and addresses.\<close>

theorem ipv4_checksum_valid:
  "ip_checksum (ipv4_packet pkt_id protocol src dst payload) 20 = 0"
proof -
  define n :: u16 where "n = of_nat (sizeof_ipv4_packet + length payload)"
  obtain x y where h: "length x = 10" "\<And>c. ipv4_header n pkt_id protocol c src dst = x @ bytes16 c @ y" "header_word x 0 = 0x4500"
    using header_split [of n pkt_id protocol src dst] by blast
  have "checksum_loop (xs @ payload) i m acc = checksum_loop xs i m acc" if "2 * (i + m) \<le> length xs" for xs i m acc
    using that by (induction m arbitrary: i acc) (simp_all add: word16_def nth_append Let_def)
  moreover have "length (ipv4_header n pkt_id protocol c src dst) = 20" for c by (simp add: ipv4_header_def)
  ultimately have "ip_checksum (ipv4_header n pkt_id protocol c src dst @ payload) 20 = ip_checksum (ipv4_header n pkt_id protocol c src dst) 20" for c
    unfolding ip_checksum_def by simp
  then show ?thesis
    using checksum_filled [OF h(1) _ refl, of y] h(3) unfolding ipv4_packet_def Let_def n_def [symmetric] h(2) by simp
qed

text \<open>Routing.\<close>

definition route_matches :: "u32 \<Rightarrow> ip_route_entry \<Rightarrow> bool" where
  "route_matches ip r \<longleftrightarrow> ip AND rt_mask r = rt_dest r AND rt_mask r"

lemma route_loop_spec:
  assumes "case best of None \<Rightarrow> m = 0 | Some b \<Rightarrow> rt_metric b = m \<and> 0 < m"
  shows "(case route_loop ip rs best m of
      None \<Rightarrow> best = None \<and> (\<forall>r\<in>set rs. route_matches ip r \<longrightarrow> rt_metric r = 0)
    | Some b \<Rightarrow> 0 < rt_metric b \<and> m \<le> rt_metric b \<and> (best = Some b \<or> b \<in> set rs \<and> route_matches ip b) \<and>
        (\<forall>r\<in>set rs. route_matches ip r \<longrightarrow> rt_metric r \<le> rt_metric b))"
  using assms
proof (induction rs arbitrary: best m)
  case Nil
  then show ?case by (auto split: option.splits)
next
  case (Cons r rs)
  show ?case
  proof (cases "route_matches ip r \<and> m < rt_metric r")
    case True
    then have pos: "0 < rt_metric r" by (metis word_not_simps(1) word_gt_0)
    have eq: "route_loop ip (r # rs) best m = route_loop ip rs (Some r) (rt_metric r)" using True by (simp add: route_matches_def)
    show ?thesis unfolding eq using Cons.IH [where best = "Some r" and m = "rt_metric r"] True pos
      by (auto split: option.splits intro: order_trans less_imp_le)
  next
    case False
    then have le: "route_matches ip r \<Longrightarrow> rt_metric r \<le> m" by (simp add: not_less)
    have eq: "route_loop ip (r # rs) best m = route_loop ip rs best m" using False by (auto simp: route_matches_def)
    show ?thesis unfolding eq using Cons.IH [OF Cons.prems] Cons.prems le
      by (auto split: option.splits intro: order_trans)
  qed
qed

text \<open>C39: The route chosen for an address is one that matches it and has the largest metric of all that match.  No
  route is found exactly when every matching one has metric 0: such a route is never used.\<close>

theorem ip_route_get_best:
  "case ip_route_get ip s of
     None \<Rightarrow> \<forall>r\<in>set (ip_route_table s). route_matches ip r \<longrightarrow> rt_metric r = 0
   | Some b \<Rightarrow> b \<in> set (ip_route_table s) \<and> route_matches ip b \<and> 0 < rt_metric b \<and>
       (\<forall>r\<in>set (ip_route_table s). route_matches ip r \<longrightarrow> rt_metric r \<le> rt_metric b)"
  using route_loop_spec [where best = None and m = 0 and ip = ip and rs = "ip_route_table s"] unfolding ip_route_get_def by (auto split: option.splits)

text \<open>Datagrams.\<close>

lemma ipv4_packet_fields:
  assumes "p = ipv4_packet pkt_id protocol src dst payload"
  shows "length p = 20 + length payload" "p ! 9 = protocol" "word32 p 12 = src" "word32 p 16 = dst" "drop 20 p = payload"
proof -
  obtain x where p: "p = x @ bytes32 src @ bytes32 dst @ payload" and x: "length x = 12" "x ! 9 = protocol"
    using assms unfolding ipv4_packet_def ipv4_header_def Let_def by (auto simp: nth_append)
  show "length p = 20 + length payload" "p ! 9 = protocol" "drop 20 p = payload" using x by (simp_all add: p nth_append)
  show "word32 p 12 = src" unfolding p by (rule word32_bytes [OF x(1)])
  show "word32 p 16 = dst" using word32_bytes [of "x @ bytes32 src" 16 dst payload] x(1) by (simp add: p)
qed

lemma udp_packet_fields:
  assumes "p = ipv4_packet pkt_id protocol src dst (udp_packet sport dport payload)"
  shows "28 \<le> length p" "word16 p 20 = sport" "word16 p 22 = dport" "drop 28 p = payload"
proof -
  let ?u = "udp_packet sport dport payload" and ?l = "bytes16 (native_to_be16 (of_nat (8 + length payload))) @ bytes16 0 @ payload"
  have u: "?u = bytes16 sport @ bytes16 dport @ ?l" by (simp add: udp_packet_def)
  have p: "p = take 20 p @ ?u" "length (take 20 p) = 20"
    using ipv4_packet_fields(1,5) [OF assms] append_take_drop_id [of 20 p] by simp_all
  show "28 \<le> length p" using ipv4_packet_fields(1) [OF assms] by (simp add: u)
  show "word16 p 20 = sport" by (subst p(1), unfold u) (rule word16_bytes [OF p(2)])
  show "word16 p 22 = dport" using word16_bytes [of "take 20 p @ bytes16 sport" 22 dport ?l] p by (simp add: u)
  have "drop 28 p = drop 8 (drop 20 p)" by simp
  then show "drop 28 p = payload" unfolding ipv4_packet_fields(5) [OF assms] by (simp add: u)
qed

lemma wake_nodes_ipnet:
  "wake_nodes cpu ns s = Some s' \<Longrightarrow> recv_queue s' = recv_queue s \<and> sdata_of s' = sdata_of s \<and> udp_table s' = udp_table s"
proof (induction ns arbitrary: s)
  case (Cons n ns)
  then obtain s1 where s1: "wake_node cpu n s = Some s1" "wake_nodes cpu ns s1 = Some s'" by (auto split: bind_splits)
  then have "recv_queue s1 = recv_queue s \<and> sdata_of s1 = sdata_of s \<and> udp_table s1 = udp_table s"
    by (auto simp: wake_node_def cas_status_def sched_add_ready_def update_queue_def Let_def split: if_splits)
  then show ?case using Cons.IH [OF s1(2)] by simp
qed simp

lemma socket_rx_packet_spec:
  assumes "can_wake cpu (recv_waitqueue s n) s"
  shows "\<exists>s'. socket_rx_packet cpu n source payload s = Some s' \<and> recv_queue s' = (recv_queue s)(n := recv_queue s n @ [(source, payload)]) \<and>
    (\<forall>m\<in>set (wait_queues s ! recv_waitqueue s n). status_of s' (node_task s m) = TASK_RUNNING)"
proof -
  let ?s = "s\<lparr>recv_queue := (recv_queue s)(n := recv_queue s n @ [(source, payload)])\<rparr>" and ?q = "recv_waitqueue s n"
  have cw: "can_wake cpu ?q ?s" using assms by (simp add: can_wake_def waits_inv_def)
  obtain s' where s': "wake_nodes cpu (wait_queues ?s ! ?q) ?s = Some s'" "woken cpu (wait_queues ?s ! ?q) ?s s'" using can_wake_nodes [OF cw] by blast
  then show ?thesis using wake_nodes_ipnet [OF s'(1)] assms by (auto simp: socket_rx_packet_def wait_queue_wake_def can_wake_def woken_def)
qed

definition udp_receiver :: "u32 \<Rightarrow> u16 \<Rightarrow> nat \<Rightarrow> 'a ipnet_scheme \<Rightarrow> bool" where
  "udp_receiver dst port n s \<longleftrightarrow>
     udp_table_get dst port s = Some n \<or> udp_table_get dst port s = None \<and> udp_table_get 0 port s = Some n"

lemma ipv4_rx_udp:
  assumes "\<forall>r\<in>set (raw_sockets s). sd_protocol (sdata_of s r) \<noteq> 17" "udp_receiver dst dport n s" "can_wake cpu (recv_waitqueue s n) s"
  shows "\<exists>s'. ipv4_rx_packet cpu dev (ipv4_packet pkt_id IPPROTO_UDP src dst (udp_packet sport dport payload)) s = Some s' \<and>
    recv_queue s' = (recv_queue s)(n := recv_queue s n @ [((src, sport), payload)]) \<and>
    (\<forall>m\<in>set (wait_queues s ! recv_waitqueue s n). status_of s' (node_task s m) = TASK_RUNNING)"
proof -
  define p where "p = ipv4_packet pkt_id IPPROTO_UDP src dst (udp_packet sport dport payload)"
  note f = ipv4_packet_fields [OF p_def] udp_packet_fields [OF p_def]
  have "raw_deliver cpu rs p s = Some s" if "\<forall>r\<in>set rs. sd_protocol (sdata_of s r) \<noteq> 17" for rs
    using that by (induction rs) (simp_all add: f(2) IPPROTO_UDP_def)
  then have "ipv4_rx_packet cpu dev p s = udp_rx_packet cpu p s" using assms(1) f(1) by (simp add: ipv4_rx_packet_def f(2))
  also have "\<dots> = socket_rx_packet cpu n (src, sport) payload s"
    using assms(2) f(6) by (auto simp: udp_rx_packet_def f udp_receiver_def Let_def)
  finally show ?thesis using socket_rx_packet_spec [OF assms(3)] unfolding p_def by auto
qed


text \<open>The search for a free port ends with one as soon as any port is free.\<close>

lemma eph_loop_free:
  assumes "\<not> taken (native_to_be16 (port + of_nat n))"
  shows "\<exists>r. eph_loop taken port = Some r \<and> \<not> taken (fst r)"
  using assms
proof (induction n arbitrary: port)
  case 0
  then show ?case by (subst eph_loop.simps) simp
next
  case (Suc n)
  have eq: "port + 1 + of_nat n = port + of_nat (Suc n)" by simp
  have "\<exists>r. eph_loop taken (port + 1) = Some r \<and> \<not> taken (fst r)" by (rule Suc.IH) (unfold eq, rule Suc.prems)
  then show ?case by (subst eph_loop.simps) simp
qed

lemma udp_find_other:
  assumes "\<forall>i. n \<notin> set (t i)" shows "udp_find (ss(n := x)) k t = udp_find ss k t"
  unfolding udp_find_def by (rule find_cong [OF refl]) (use assms in \<open>auto simp: sock_key_def\<close>)

text \<open>C38: Binding a socket takes its address and port if no socket has them: datagrams for them are then found at this
  socket, those for any other address and port where they were before, and releasing the socket gives the table
  back as it was.  If they are taken the call fails and no lookup changes.\<close>

theorem udp_bind_release:
  assumes "\<forall>i. n \<notin> set (udp_table s i)" "\<not> sock_bound s n"
  shows "if udp_table_get addr port s = None
    then \<exists>s'. socket_bind n AF_INET port addr sizeof_sockaddr_in s = (Inr (), s') \<and>
      (\<forall>a p. udp_table_get a p s' = (if (a, p) = (addr, port) then Some n else udp_table_get a p s)) \<and>
      udp_table (udp_release n s') = udp_table s
    else \<exists>s'. socket_bind n AF_INET port addr sizeof_sockaddr_in s = (Inl EADDRINUSE, s') \<and>
      (\<forall>a p. udp_table_get a p s' = udp_table_get a p s)"
proof -
  let ?ss = "(sdata_of s)(n := (sdata_of s n)\<lparr>sd_addr := addr, sd_port := port\<rparr>)"
  have same: "udp_find ((sdata_of s)(n := x)) k (udp_table s) = udp_find (sdata_of s) k (udp_table s)" for x k by (rule udp_find_other [OF assms(1)])
  have key: "sock_key ?ss n = (addr, port)" by (simp add: sock_key_def)
  show ?thesis
  proof (cases "udp_table_get addr port s")
    case None
    let ?s = "s\<lparr>sock_bound := (sock_bound s)(n := True), sdata_of := ?ss, udp_table := udp_link ?ss n (udp_table s)\<rparr>"
    have "socket_bind n AF_INET port addr sizeof_sockaddr_in s = (Inr (), ?s)"
      using None assms(2) same by (simp add: socket_bind_def udp_bind_def udp_register_def udp_table_get_def udp_table_insert_def Let_def)
    moreover have get: "udp_table_get a p ?s = (if (a, p) = (addr, port) then Some n else udp_table_get a p s)" for a p
      using same key by (auto simp: udp_table_get_def udp.get_insert)
    moreover have "udp_table (udp_release n ?s) = udp_table s"
      using get [of addr port] by (simp add: udp_release_def udp_table_remove_def udp.remove_insert)
    ultimately show ?thesis using None by auto
  next
    case (Some m)
    then show ?thesis using assms(2) same
      by (simp add: socket_bind_def udp_bind_def udp_register_def udp_table_get_def Let_def)
  qed
qed

section \<open>Witnesses\<close>

text \<open>The two machines of the address resolution: the first knows the second and has a route to it, and a socket of the
  second is bound to a port.\<close>

definition demo_route :: "u16 \<Rightarrow> ip_route_entry" where
  "demo_route metric = \<lparr>rt_device = Some 0, rt_dest = 0x0000A8C0, rt_gateway = 0x0300A8C0, rt_mask = 0x0000FFFF, rt_metric = metric, rt_mtu = 1500\<rparr>"

definition demo_arp :: arp_entry where
  "demo_arp = \<lparr>arp_address = 0x0300A8C0, arp_htype = 1, arp_mac = [2, 0, 0, 0, 0, 2], arp_netdev = 0\<rparr>"

definition demo_sdata :: "nat \<Rightarrow> ipv4_sdata" where
  "demo_sdata n = \<lparr>bind_device = None, sd_addr = 0, sd_port = (if n = 7 then 0x3500 else 0x00C0), sd_protocol = 17\<rparr>"

definition demo_ip :: "u8 \<Rightarrow> ipnet" where
  "demo_ip i = net.extend (demo_net i\<lparr>arp_table := arp_link demo_arp (\<lambda>_. [])\<rparr>)
     (ipnet.fields [demo_route 0, demo_route 1000] demo_sdata (\<lambda>_. False) (udp_link demo_sdata 7 (\<lambda>_. [])) 49152 [] (\<lambda>_. []) (\<lambda>_. 0))"

lemma demo_ip_fields [simp]:
  "netdev_of (demo_ip i) = netdev_of (demo_net i)" "arp_table (demo_ip i) = arp_link demo_arp (\<lambda>_. [])"
  "wait_queues (demo_ip i) = [[]]" "ip_route_table (demo_ip i) = [demo_route 0, demo_route 1000]" "sdata_of (demo_ip i) = demo_sdata"
  "udp_table (demo_ip i) = udp_link demo_sdata 7 (\<lambda>_. [])" "raw_sockets (demo_ip i) = []" "recv_waitqueue (demo_ip i) n = 0"
  "length (sched_pcpu_data (demo_ip i)) = 1" "node_queue (demo_ip i) = (\<lambda>_. None)" "sock_bound (demo_ip i) n = False" "recv_queue (demo_ip i) n = []"
  by (simp_all add: demo_ip_def demo_net_def demo_tasks_def ktasks.defs net.defs ipnet.defs)

lemma demo_ip_route: "ip_route_get 0x0300A8C0 (demo_ip i) = Some (demo_route 1000)"
  by (simp add: ip_route_get_def demo_route_def)

theorem ip_route_get_best_witness:
  "ip_route_get 0x0300A8C0 (demo_ip 1) = Some (demo_route 1000) \<and> route_matches 0x0300A8C0 (demo_route 1000) \<and>
   rt_metric (demo_route 0) \<le> rt_metric (demo_route 1000)"
  using ip_route_get_best [where ip = "0x0300A8C0" and s = "demo_ip 1"] unfolding demo_ip_route by (simp add: demo_route_def route_matches_def)

lemma demo_udp_get: "udp_table_get a p (demo_ip i) = (if (a, p) = (0, 0x3500) then Some 7 else None)"
  by (auto simp: udp_table_get_def udp.get_insert) (auto simp: sock_key_def demo_sdata_def udp_find_def)


theorem udp_bind_release_witness:
  "\<exists>s'. socket_bind 5 AF_INET 0x5000 0 sizeof_sockaddr_in (demo_ip 1) = (Inr (), s') \<and> udp_table_get 0 0x5000 s' = Some 5 \<and>
     udp_table_get 0 0x3500 s' = Some 7 \<and> udp_table (udp_release 5 s') = udp_table (demo_ip 1)"
proof -
  have "\<forall>i. 5 \<notin> set (udp_table (demo_ip 1) i)" by (simp add: udp_link_def Let_def)
  then show ?thesis using udp_bind_release [of 5 "demo_ip 1" 0 "0x5000"] by (auto simp: demo_udp_get)
qed

end
