(* ===== verification/Task_Sys.thy ===== *)
theory Task_Sys
  imports Vfs_Sys
begin

text \<open>
  System calls on tasks (\<^verbatim>\<open>sched/task_sys.c\<close>): process groups and sessions, credentials, the working directory, and
  the parts of ending a task that change the tree of tasks: its children move to the first process, and a parent
  that waits takes the status of a dead child.  Creating a process, and freeing the memory and the files of a dead
  one, are not part of this.
\<close>

section \<open>Groups and sessions\<close>

definition sys_getpid :: "nat \<Rightarrow> 'a ktasks_scheme \<Rightarrow> int" where
  "sys_getpid t s = tgid (task_of s t)"

definition sys_setsid :: "nat \<Rightarrow> 'a ktasks_scheme \<Rightarrow> unit result \<times> 'a ktasks_scheme" where
  "sys_setsid t s =
     (let x = task_of s t
      in if tgid x = pgid x then (Inl EPERM, s)
         else (Inr (), upd_task t (\<lambda>x. x\<lparr>pgid := tgid x, sid := tgid x, tty := None\<rparr>) s))"

definition sys_getpgid :: "nat \<Rightarrow> int \<Rightarrow> 'a ktasks_scheme \<Rightarrow> int result" where
  "sys_getpgid t p s =
     (if p = 0 then Inr (pgid (task_of s t))
      else case lookup_by_pid p s of
        None \<Rightarrow> Inl ESRCH
      | Some search \<Rightarrow> if sid (task_of s search) \<noteq> sid (task_of s t) then Inl EPERM else Inr (pgid (task_of s search)))"

definition sys_setpgid :: "nat \<Rightarrow> int \<Rightarrow> 'a ktasks_scheme \<Rightarrow> unit result \<times> 'a ktasks_scheme" where
  "sys_setpgid t g s =
     (let x = task_of s t
      in if tgid x = sid x then (Inl EPERM, s)
         else if g = 0 then (Inr (), upd_task t (\<lambda>x. x\<lparr>pgid := tgid x\<rparr>) s)
         else case get_pgrp_leader g s of
           None \<Rightarrow> (Inl ESRCH, s)
         | Some leader \<Rightarrow>
             if sid (task_of s leader) \<noteq> sid x then (Inl EPERM, s)
             else (Inr (), upd_task t (\<lambda>x. x\<lparr>pgid := g\<rparr>) s))"

section \<open>Credentials\<close>

definition sys_getuid :: "nat \<Rightarrow> 'a ktasks_scheme \<Rightarrow> u32" where
  "sys_getuid t s = uid (tcred (task_of s t))"

definition setuid_cred :: "u32 \<Rightarrow> cred \<Rightarrow> cred result" where
  "setuid_cred u c =
     (if euid c = 0 then Inr (c\<lparr>uid := u, euid := u, suid := u\<rparr>)
      else if uid c = u \<or> suid c = u then Inr (c\<lparr>euid := u\<rparr>)
      else Inl EPERM)"

definition set_cred :: "nat \<Rightarrow> cred result \<Rightarrow> 'a ktasks_scheme \<Rightarrow> unit result \<times> 'a ktasks_scheme" where
  "set_cred t r s = (case r of Inl e \<Rightarrow> (Inl e, s) | Inr c \<Rightarrow> (Inr (), upd_task t (\<lambda>x. x\<lparr>tcred := c\<rparr>) s))"

definition sys_setuid :: "nat \<Rightarrow> u32 \<Rightarrow> 'a ktasks_scheme \<Rightarrow> unit result \<times> 'a ktasks_scheme" where
  "sys_setuid t u s = set_cred t (setuid_cred u (tcred (task_of s t))) s"

definition sys_getgid :: "nat \<Rightarrow> 'a ktasks_scheme \<Rightarrow> u32" where
  "sys_getgid t s = gid (tcred (task_of s t))"

definition setgid_cred :: "u32 \<Rightarrow> cred \<Rightarrow> cred result" where
  "setgid_cred g c =
     (if euid c = 0 then Inr (c\<lparr>gid := g, egid := g, sgid := g\<rparr>)
      else if gid c = g \<or> sgid c = g then Inr (c\<lparr>egid := g\<rparr>)
      else Inl EPERM)"

definition sys_setgid :: "nat \<Rightarrow> u32 \<Rightarrow> 'a ktasks_scheme \<Rightarrow> unit result \<times> 'a ktasks_scheme" where
  "sys_setgid t g s = set_cred t (setgid_cred g (tcred (task_of s t))) s"

section \<open>The working directory\<close>

definition sys_chdir ::
  "('a vfs_scheme) kernel_ops \<Rightarrow> (u64 \<Rightarrow> string option) \<Rightarrow> u64 \<Rightarrow> 'a vfs_scheme \<Rightarrow> (unit result \<times> 'a vfs_scheme) option" where
  "sys_chdir K ustr p s =
     (if \<not> vm_validate_ptr p PATH_MAX then Some (Inl EFAULT, s)
      else do {
        name \<leftarrow> ustr p;
        (found, s) \<leftarrow> vfs_lookup K name 0 s;
        case found of Inl e \<Rightarrow> Some (Inl e, s)
        | Inr query \<Rightarrow> do {
            x \<leftarrow> get_entry query s;
            n \<leftarrow> enode x;
            node \<leftarrow> get_node n s;
            if \<not> S_ISDIR (nmode node) then Some (Inl ENOTDIR, s)
            else do {
              t \<leftarrow> current_of K s;
              s \<leftarrow> ventry_ref query s;
              old \<leftarrow> cwd (task_of s t);
              s \<leftarrow> ventry_put old s;
              Some (Inr (), upd_task t (\<lambda>x. x\<lparr>cwd := Some query\<rparr>) s)
            }
          }
      })"

section \<open>Children\<close>

text \<open>The children of a task that ends become children of the first process, newest first, and a dead one is announced.\<close>

fun reparent :: "nat \<Rightarrow> nat \<Rightarrow> nat \<Rightarrow> nat list \<Rightarrow> 'a ktasks_scheme \<Rightarrow> 'a ktasks_scheme option" where
  "reparent cpu init t [] s = Some s"
| "reparent cpu init t (c # cs) s = do {
     let s = upd_task t (\<lambda>x. x\<lparr>children := removeAll c (children x)\<rparr>) s;
     let s = upd_task init (\<lambda>x. x\<lparr>children := c # children x\<rparr>) s;
     let s = upd_task c (\<lambda>x. x\<lparr>parent := Some init\<rparr>) s;
     s \<leftarrow> (if status_of s c = TASK_ZOMBIE then send_signal cpu init SIGCHLD s else Some s);
     reparent cpu init t cs s
   }"

text \<open>The status word that a waiting parent gets.\<close>

definition wait_status :: "task \<Rightarrow> int" where
  "wait_status x = (if return_signal x \<noteq> 0 then return_signal x AND 0x7F else push_bit 8 (return_status x AND 0xFF))"

definition reapable :: "'a ktasks_scheme \<Rightarrow> nat \<Rightarrow> bool" where
  "reapable s c \<longleftrightarrow> status_of s c = TASK_ZOMBIE \<and> tflags (task_of s c) AND TASK_CAN_REAP \<noteq> 0"

text \<open>One turn of the loop of \<^verbatim>\<open>sys_waitpid\<close>: no children, a child that was reaped with its number and status, a pending
  signal, or sleep.\<close>

datatype wait_turn = No_children | Reaped int int | Wait_interrupted | Wait_sleeps

definition waitpid_turn :: "nat \<Rightarrow> 'a ktasks_scheme \<Rightarrow> (wait_turn \<times> 'a ktasks_scheme) option" where
  "waitpid_turn t s =
     (if children (task_of s t) = [] then Some (No_children, s)
      else case find (reapable s) (children (task_of s t)) of
        Some c \<Rightarrow>
          let s' = upd_task t (\<lambda>x. x\<lparr>children := removeAll c (children x)\<rparr>) s
          in Some (Reaped (pid (task_of s c)) (wait_status (task_of s c)), s'\<lparr>g_task_list := removeAll c (g_task_list s')\<rparr>)
      | None \<Rightarrow>
          if signal_pending t s then Some (Wait_interrupted, s)
          else (case cas_status t TASK_RUNNING TASK_INTR_SLEEPING s of
              (True, _, s) \<Rightarrow> Some (Wait_sleeps, s) | (False, _, _) \<Rightarrow> None))"

section \<open>Properties\<close>

datatype cred_call = Setuid u32 | Setgid u32

fun cred_run :: "nat \<Rightarrow> cred_call list \<Rightarrow> 'a ktasks_scheme \<Rightarrow> 'a ktasks_scheme" where
  "cred_run t [] s = s"
| "cred_run t (Setuid u # cs) s = cred_run t cs (snd (sys_setuid t u s))"
| "cred_run t (Setgid g # cs) s = cred_run t cs (snd (sys_setgid t g s))"

lemma cred_run_spec:
  assumes "c = tcred (task_of s t)" "euid c \<noteq> 0" "uid c \<noteq> 0" "suid c \<noteq> 0" "c' = tcred (task_of (cred_run t cs s) t)"
  shows "uid c' = uid c \<and> suid c' = suid c \<and> euid c' \<in> {euid c, uid c, suid c} \<and>
    gid c' = gid c \<and> sgid c' = sgid c \<and> egid c' \<in> {egid c, gid c, sgid c}"
  using assms
proof (induction t cs s arbitrary: c rule: cred_run.induct)
  case (2 t u cs s)
  let ?s = "snd (sys_setuid t u s)" and ?c = "tcred (task_of (snd (sys_setuid t u s)) t)"
  have "uid ?c = uid c" "suid ?c = suid c" "euid ?c \<in> {euid c, uid c, suid c}" "gid ?c = gid c" "sgid ?c = sgid c" "egid ?c = egid c"
    using "2.prems"(1-4) by (auto simp: sys_setuid_def set_cred_def setuid_cred_def upd_task_def)
  then show ?case using "2.IH" [of ?c] "2.prems" by auto
next
  case (3 t g cs s)
  let ?s = "snd (sys_setgid t g s)" and ?c = "tcred (task_of (snd (sys_setgid t g s)) t)"
  have "uid ?c = uid c" "suid ?c = suid c" "euid ?c = euid c" "gid ?c = gid c" "sgid ?c = sgid c" "egid ?c \<in> {egid c, gid c, sgid c}"
    using "3.prems"(1-4) by (auto simp: sys_setgid_def set_cred_def setgid_cred_def upd_task_def)
  then show ?case using "3.IH" [of ?c] "3.prems" by auto
qed simp

text \<open>C40: A task that has given up the superuser never gets it back: after any sequence of calls to change the user or the
  group, its real and saved user and group are what they were and the effective ones are among its own, so that
  the superuser stays out of reach.\<close>

theorem privileges_stay_dropped:
  assumes "c = tcred (task_of s t)" "euid c \<noteq> 0" "uid c \<noteq> 0" "suid c \<noteq> 0" "c' = tcred (task_of (cred_run t cs s) t)"
  shows "euid c' \<noteq> 0 \<and> uid c' = uid c \<and> suid c' = suid c \<and> euid c' \<in> {euid c, uid c, suid c} \<and>
    gid c' = gid c \<and> sgid c' = sgid c \<and> egid c' \<in> {egid c, gid c, sgid c}"
  using cred_run_spec [OF assms] assms(2-4) by auto

theorem privileges_stay_dropped_witness:
  "euid (tcred (task_of (cred_run 2 [Setuid 0, Setgid 0, Setuid 0] (snd (sys_setuid 2 1000 demo_tasks))) 2)) \<noteq> 0"
proof -
  have "tcred (task_of (snd (sys_setuid 2 1000 demo_tasks)) 2) = root_cred\<lparr>uid := 1000, euid := 1000, suid := 1000\<rparr>"
    by (simp add: sys_setuid_def set_cred_def setuid_cred_def upd_task_def demo_tasks_def root_cred_def)
  then show ?thesis
    using privileges_stay_dropped [OF refl _ _ _ refl, where s = "snd (sys_setuid 2 1000 demo_tasks)" and t = 2 and cs = "[Setuid 0, Setgid 0, Setuid 0]"]
    by simp
qed

end
