(* ===== verification/Spec2Isabelle.thy ===== *)
theory Spec2Isabelle
  imports Intrusive_List Pmm Slab Page_Table Vm_Syscall Spinlock Sched Wait_Queue Mutex Sleep_Queue Clock
    Vsprintf Libk_String Hash_Chain Task Vfs Vfs_Tree Vfs_File Ramfs Vfs_Sys Tty Rtc Net Ipv4 Task_Sys
begin

text \<open>
  A verification development for the monolith kernel, an operating system kernel for x86-64 written in C
  (\<^verbatim>\<open>src/kernel\<close>).  The kernel parses the memory map of the boot loader, manages page frames with a bitmap and
  small objects with slabs, keeps address spaces over four-level page tables, schedules tasks from one run queue
  per CPU, blocks them on wait queues, mutexes and sleep queues, and serves system calls on a virtual file system
  whose root is a file system in memory,
  on terminals and on a network stack with ARP, IPv4 and UDP.

  \<^bold>\<open>Conventions.\<close>  An operation takes the state it works on and returns the new state next to the C result.  The
  result is an option where the code can panic, follow a null or dangling pointer or index outside an array; that
  is the value \<^verbatim>\<open>None\<close>.  A function that returns \<^verbatim>\<open>-Exxx\<close> returns a sum with the error number on the left.  Machine
  integers are words of their width.  Records are extended from layer to layer: the scheduler's state by the wait
  queues, the tasks and the file system.  Operations that the code runs under one lock are one step; the locks
  themselves are modelled as interleavings.  Code that is chosen at run time (operation tables of file systems,
  clock readings, fault handlers of mapped files, contents of fresh or user memory) is an argument.

  \<^bold>\<open>Foundations.\<close>
  \<^item> \<^verbatim>\<open>Errno\<close>, \<^verbatim>\<open>Kernel_Prelude\<close> (\<^verbatim>\<open>include/ernno.h\<close>, \<^verbatim>\<open>include/types.h\<close>): error numbers, word types, alignment, the bit
    scan builtin; facts on words, lists and options that the other theories share.
  \<^item> \<^verbatim>\<open>Intrusive_List\<close> (\<^verbatim>\<open>include/libk/list.h\<close>): the list operations as assignments to links.  The lemmas show that
    they act as insertion and removal on the sequence of nodes; the locale \<^verbatim>\<open>node_queue\<close> states this as a contract.
  \<^item> \<^verbatim>\<open>Libk_String\<close>, \<^verbatim>\<open>Vsprintf\<close> (\<^verbatim>\<open>libk/string.c\<close>, \<^verbatim>\<open>libk/vsprintf.c\<close>): byte copies with their exact order, strings,
    formatted output.  Copying down, filling and copying disjoint areas is right; copying up is off by one.  The
    digits printed have the value of the number; unsigned 32-bit numbers of 2^31 and more are printed wrongly.

  \<^bold>\<open>Memory.\<close>
  \<^item> \<^verbatim>\<open>Memory_Map\<close>, \<^verbatim>\<open>Pmm\<close> (\<^verbatim>\<open>arch/x86_64/memmap.c\<close>, \<^verbatim>\<open>mm/memory_map.c\<close>, \<^verbatim>\<open>mm/pmm.c\<close>): after the start the free frames are
    the usable ones outside the bitmap; allocation takes the lowest free frame and never gives one out twice.
    The locale \<^verbatim>\<open>page_source\<close> is the contract of the frame allocator.
  \<^item> \<^verbatim>\<open>Slab\<close> (\<^verbatim>\<open>mm/slab.c\<close>): the invariant of the threaded free lists; a block is large enough, disjoint from every
    block in use and can be freed; when allocation panics.
  \<^item> \<^verbatim>\<open>Page_Table\<close> (\<^verbatim>\<open>arch/x86_64/mmu.c\<close>): mapping, unmapping, range mapping and cloning, each as its effect on the
    translation of every address.  The invariant says that no table is reached by two paths.  The invalidation loop
    is a partial function, and ends exactly for multiples of the page size.
  \<^item> \<^verbatim>\<open>Vm_Space\<close>, \<^verbatim>\<open>Vm_Syscall\<close> (\<^verbatim>\<open>mm/vmm.c\<close>, \<^verbatim>\<open>mm/vm_syscall.c\<close>): the range check and the first-fit search are
    correct and complete; a copy-on-write fault gives a private copy; rejected faults; anonymous \<^verbatim>\<open>sys_mmap\<close> from the
    search for the range to the page table entries.

  \<^bold>\<open>Concurrency and tasks.\<close>
  \<^item> \<^verbatim>\<open>Spinlock\<close> (\<^verbatim>\<open>include/sys/spinlock.h\<close>, \<^verbatim>\<open>reflock.h\<close>, \<^verbatim>\<open>arch/x86_64/irq.h\<close>): the ticket lock as an interleaving of
    atomic accesses refines a queue and excludes, for at most 2^16 threads; reference counts.
  \<^item> \<^verbatim>\<open>Sched\<close> (\<^verbatim>\<open>sched/scheduler.c\<close>): a call of the scheduler keeps the multiset of runnable tasks, no queued task
    starves, and what the search for the longest queue finds.
  \<^item> \<^verbatim>\<open>Wait_Queue\<close>, \<^verbatim>\<open>Mutex\<close>, \<^verbatim>\<open>Sleep_Queue\<close> (\<^verbatim>\<open>sched/waitqueue.c\<close>, \<^verbatim>\<open>sys/mutex.c\<close>, \<^verbatim>\<open>sched/task_sleep.c\<close>): the invariant of
    wait queues and the effect of waking; the mutex excludes without contention and fails under contention; a
    single sleeper wakes on time and a second one breaks the queue.
  \<^item> \<^verbatim>\<open>Clock\<close> (\<^verbatim>\<open>sys/clock.c\<close>, \<^verbatim>\<open>sys/timer.c\<close>): registration by priority, through the locale \<^verbatim>\<open>prio_registry\<close>; waiting
    ends at the first reading that is late enough.
  \<^item> \<^verbatim>\<open>Task\<close> (\<^verbatim>\<open>sched/task.c\<close>, \<^verbatim>\<open>sched/signal.c\<close>): new process numbers are fresh, a signal to a group reaches exactly its
    tasks, the lowest pending signal ends a task.
  \<^item> \<^verbatim>\<open>Task_Sys\<close> (\<^verbatim>\<open>sched/task_sys.c\<close>, part of \<^verbatim>\<open>sched/task.c\<close>): groups, sessions, credentials, waiting; a task that has dropped
    its privileges never gets them back.

  \<^bold>\<open>Files.\<close>
  \<^item> \<^verbatim>\<open>Hash_Chain\<close> (\<^verbatim>\<open>sys/device.c\<close>): the locales \<^verbatim>\<open>chained_table\<close> and \<^verbatim>\<open>removable_table\<close> for hash tables with chains, used
    for both device tables and for the directory cache.
  \<^item> \<^verbatim>\<open>Vfs\<close> (\<^verbatim>\<open>fs/vnode.c\<close>, \<^verbatim>\<open>ventry.c\<close>, \<^verbatim>\<open>filesystem.c\<close>, \<^verbatim>\<open>lookup.c\<close>, \<^verbatim>\<open>super.c\<close>): nodes, entries, cache, lookup, mounts.
  \<^item> \<^verbatim>\<open>Vfs_Tree\<close>: the specification of path lookup as a walk over a tree, without cache and reference counts, and the
    locale \<^verbatim>\<open>tree_driver\<close>, what lookup needs of a file system.
  \<^item> \<^verbatim>\<open>Vfs_File\<close> (\<^verbatim>\<open>fs/generic.c\<close>, \<^verbatim>\<open>fs/ramfs/ramfs.c\<close>, \<^verbatim>\<open>fs/vfs.c\<close>): the file operations; the file system in memory is a
    \<^verbatim>\<open>tree_driver\<close>, so lookup in it refines the walk, and a created file is found by the next lookup.
  \<^item> \<^verbatim>\<open>Ramfs\<close>: reading after writing gives back the bytes, with the effect of a write on the whole file.
  \<^item> \<^verbatim>\<open>Vfs_Sys\<close> (\<^verbatim>\<open>fs/vfs_sys.c\<close>): the system calls, with the behaviour of opening an existing file.

  \<^bold>\<open>Devices and network.\<close>
  \<^item> \<^verbatim>\<open>Tty\<close> (\<^verbatim>\<open>dev/tty.c\<close>): the input of a terminal is a queue; where a read leaves the ring buffer.
  \<^item> \<^verbatim>\<open>Rtc\<close> (\<^verbatim>\<open>dev/rtc.c\<close>): the time read is the count of days over the calendar, up to the end of 2038.
  \<^item> \<^verbatim>\<open>Net\<close> (\<^verbatim>\<open>net/netdev.c\<close>, \<^verbatim>\<open>net/ether.c\<close>, \<^verbatim>\<open>net/arp.c\<close>): frames and address resolution; two machines find each
    other.  The address table is a \<^verbatim>\<open>chained_table\<close>.
  \<^item> \<^verbatim>\<open>Ipv4\<close> (\<^verbatim>\<open>net/ipv4/*.c\<close>, parts of \<^verbatim>\<open>net/socket.c\<close>): the header checksum, routes, sending, receiving and binding; a
    datagram travels from the call of the sender to the queue of the receiver.  The UDP table is a \<^verbatim>\<open>removable_table\<close>.

  \<^bold>\<open>Bounds.\<close>  Loops are recursive functions with a termination proof, or partial functions into option where the code
  may run forever: TLB invalidation, waiting for a clock or for the real-time clock, the length of a string, the sleep
  queue, the search for a free port.  The lemmas about them say when they return.  A walk over a list of links takes
  fuel; the length of the list is enough for a proper list, and no fuel is enough for one that has been broken.  File
  positions and sizes in \<^verbatim>\<open>Ramfs\<close> are below 2^61, far from where the signed 64-bit offsets of the code overflow.
  Process numbers are unbounded.

  \<^bold>\<open>Not modelled.\<close>  Text for the statistics files and the idle loops; creating processes and
  the release of the files and memory of dead ones; mapping files in memory (\<^verbatim>\<open>ramfs_mmap\<close>, \<^verbatim>\<open>ramfs_vm_fault\<close>); the creation of
  sockets, their control and system calls, the keyboard and the console, disks, FAT, process files, the archive of the
  first files, program loading and interrupt routing, which this development does not cover
  yet; drivers whose other side is hardware (NVMe, PCI Express, e1000, the framebuffer); processor set-up and the assembler files, which need a machine model; and the user programs,
  written against a C library outside the repository.  Memory orders are taken as sequentially consistent.
\<close>

end
